(* ===== verification/Prelude.thy ===== *)
theory Prelude
  imports Main "HOL-Library.Word" "HOL-Library.AList" "HOL-Library.Multiset"
    "HOL-Library.Char_ord" "HOL-Library.List_Lexorder"
begin

text \<open>
  Shared vocabulary of the development: the model of Go maps, of byte strings and of the
  little-endian integer encoding of the package \<open>encoding/binary\<close>, with the lemmas that the
  component theories use through the collections \<open>map_simps\<close>, \<open>wf_intros\<close> and \<open>le_simps\<close>.

  A Go \<open>map[K]V\<close> is an association list with distinct keys. The list order is the order in which
  a \<open>range\<close> loop visits the map; Go leaves that order unspecified, so no theorem fixes it.
  A Go \<open>string\<close> and a \<open>[]byte\<close> are both lists of bytes, i.e. of 8-bit characters.
\<close>

named_theorems map_simps \<open>look-ups after updates and deletions\<close>
named_theorems wf_intros \<open>preservation of well-formedness\<close>
named_theorems le_simps \<open>little-endian encoding and decoding\<close>

section \<open>Go maps\<close>

type_synonym ('k, 'v) gomap = "('k \<times> 'v) list"
type_synonym bytes = string

abbreviation mget :: "('k, 'v) gomap \<Rightarrow> 'k \<Rightarrow> 'v option" where
  "mget m k \<equiv> map_of m k"

abbreviation mput :: "'k \<Rightarrow> 'v \<Rightarrow> ('k, 'v) gomap \<Rightarrow> ('k, 'v) gomap" where
  "mput k v m \<equiv> AList.update k v m"

abbreviation mdel :: "'k \<Rightarrow> ('k, 'v) gomap \<Rightarrow> ('k, 'v) gomap" where
  "mdel k m \<equiv> AList.delete k m"

abbreviation mwf :: "('k, 'v) gomap \<Rightarrow> bool" where
  "mwf m \<equiv> distinct (map fst m)"

text \<open>
  \<open>for k := range m { delete(m, k); break }\<close>: the key visited first is unspecified;
  \<open>pick\<close> stands for the choice the run time makes.
\<close>

definition evict_one :: "nat \<Rightarrow> ('k, 'v) gomap \<Rightarrow> ('k, 'v) gomap" where
  "evict_one pick m = (if m = [] then m else mdel (fst (m ! (pick mod length m))) m)"

lemma mget_mput [map_simps]: "mget (mput k v m) k' = (if k' = k then Some v else mget m k')"
  by (simp add: update_conv')

lemma mget_mdel [map_simps]: "mget (mdel k m) k' = (if k' = k then None else mget m k')"
  by (simp add: delete_conv')

lemma mwf_mput [wf_intros]: "mwf m \<Longrightarrow> mwf (mput k v m)"
  by (rule distinct_update)

lemma mwf_mdel [wf_intros]: "mwf m \<Longrightarrow> mwf (mdel k m)"
  by (rule distinct_delete)

lemma mwf_Nil [wf_intros]: "mwf []"
  by simp

lemma keys_mput: "set (map fst (mput k v m)) = insert k (set (map fst m))"
  by (simp add: dom_update)

lemma mput_fresh: "mget m k = None \<Longrightarrow> mput k v m = m @ [(k, v)]"
  by (induction m) (auto split: if_splits)

lemma length_mput:
  "length (mput k v m) = (if mget m k = None then Suc (length m) else length m)"
  by (induction m) auto

lemma length_mdel_present:
  "mwf m \<Longrightarrow> mget m k \<noteq> None \<Longrightarrow> Suc (length (mdel k m)) = length m"
proof (induction m)
  case (Cons x m)
  show ?case
  proof (cases "fst x = k")
    case True
    with Cons.prems(1) have "k \<notin> fst ` set m" by auto
    with True show ?thesis by (cases x) simp
  next
    case False
    with Cons show ?thesis by (cases x) auto
  qed
qed simp

lemma set_mdel_subset: "set (mdel k m) \<subseteq> set m"
  by (induction m) auto

lemma set_mput_subset: "set (mput k v m) \<subseteq> insert (k, v) (set m)"
  by (induction m) auto

lemma mwf_evict_one [wf_intros]: "mwf m \<Longrightarrow> mwf (evict_one pick m)"
  by (simp add: evict_one_def distinct_delete)

lemma set_evict_one_subset: "set (evict_one pick m) \<subseteq> set m"
  by (simp add: evict_one_def set_mdel_subset)

lemma length_evict_one:
  assumes "mwf m" "m \<noteq> []"
  shows "Suc (length (evict_one pick m)) = length m"
proof -
  have "m ! (pick mod length m) \<in> set m"
    using assms(2) by simp
  then have "mget m (fst (m ! (pick mod length m))) \<noteq> None"
    by (metis map_of_eq_None_iff image_eqI)
  with assms show ?thesis
    by (simp add: evict_one_def length_mdel_present)
qed

lemma mget_evict_oneD: "mget (evict_one pick m) k = Some v \<Longrightarrow> mget m k = Some v"
  by (auto simp: evict_one_def map_simps split: if_splits)

section \<open>Little-endian integers\<close>

fun put_le :: "nat \<Rightarrow> nat \<Rightarrow> bytes" where
  "put_le 0 x = []"
| "put_le (Suc n) x = char_of (x mod 256) # put_le n (x div 256)"

fun get_le :: "bytes \<Rightarrow> nat" where
  "get_le [] = 0"
| "get_le (c # cs) = of_char c + 256 * get_le cs"

text \<open>\<open>binary.LittleEndian.PutUint16/32/64\<close> and \<open>Uint16/32/64\<close>.\<close>

definition put_uint16 :: "16 word \<Rightarrow> bytes" where
  "put_uint16 w = put_le 2 (unat w)"

definition put_uint32 :: "32 word \<Rightarrow> bytes" where
  "put_uint32 w = put_le 4 (unat w)"

definition put_uint64 :: "64 word \<Rightarrow> bytes" where
  "put_uint64 w = put_le 8 (unat w)"

definition get_uint16 :: "bytes \<Rightarrow> 16 word" where
  "get_uint16 b = of_nat (get_le b)"

definition get_uint32 :: "bytes \<Rightarrow> 32 word" where
  "get_uint32 b = of_nat (get_le b)"

definition get_uint64 :: "bytes \<Rightarrow> 64 word" where
  "get_uint64 b = of_nat (get_le b)"

lemma length_put_le [simp]: "length (put_le n x) = n"
  by (induction n arbitrary: x) auto

lemma get_put_le: "get_le (put_le n x) = x mod 256 ^ n"
proof (induction n arbitrary: x)
  case (Suc n)
  have "get_le (put_le (Suc n) x) = x mod 256 + 256 * (x div 256 mod 256 ^ n)"
    by (simp add: Suc.IH of_char_of)
  also have "\<dots> = x mod (256 * 256 ^ n)"
    by (simp add: mod_mult2_eq)
  finally show ?case by simp
qed simp

lemma length_put_uint [simp]:
  "length (put_uint16 a) = 2" "length (put_uint32 b) = 4" "length (put_uint64 c) = 8"
  by (simp_all add: put_uint16_def put_uint32_def put_uint64_def)

lemma unat_bound16: "unat (w :: 16 word) < 65536"
  using unsigned_less [of w] by simp

lemma unat_bound32: "unat (w :: 32 word) < 4294967296"
  using unsigned_less [of w] by simp

lemma unat_bound64: "unat (w :: 64 word) < 18446744073709551616"
  using unsigned_less [of w] by simp

lemma get_put_uint16 [le_simps]: "get_uint16 (put_uint16 w) = w"
  using unat_bound16 [of w] by (simp add: get_uint16_def put_uint16_def get_put_le)

lemma get_put_uint32 [le_simps]: "get_uint32 (put_uint32 w) = w"
  using unat_bound32 [of w] by (simp add: get_uint32_def put_uint32_def get_put_le)

lemma get_put_uint64 [le_simps]: "get_uint64 (put_uint64 w) = w"
  using unat_bound64 [of w] by (simp add: get_uint64_def put_uint64_def get_put_le)

lemma unat_of_nat16 [le_simps]: "n < 65536 \<Longrightarrow> unat (of_nat n :: 16 word) = n"
  by (simp add: unat_of_nat)

lemma unat_of_nat32 [le_simps]: "n < 4294967296 \<Longrightarrow> unat (of_nat n :: 32 word) = n"
  by (simp add: unat_of_nat)

section \<open>Slices\<close>

text \<open>\<open>b[i:j]\<close>; the callers establish \<open>i \<le> j \<le> len(b)\<close>.\<close>

definition go_slice :: "nat \<Rightarrow> nat \<Rightarrow> 'a list \<Rightarrow> 'a list" where
  "go_slice i j xs = take (j - i) (drop i xs)"

lemma slice_append_left: "j \<le> length xs \<Longrightarrow> go_slice i j (xs @ ys) = go_slice i j xs"
  by (cases "i \<le> j") (auto simp: go_slice_def)

lemma length_slice: "i \<le> j \<Longrightarrow> j \<le> length xs \<Longrightarrow> length (go_slice i j xs) = j - i"
  by (simp add: go_slice_def)

lemma slice_offset: "go_slice (length xs + i) (length xs + j) (xs @ ys) = go_slice i j ys"
  by (simp add: go_slice_def)

end
