(* ===== verification/Go_Strings.thy ===== *)
theory Go_Strings
  imports Prelude
begin

text \<open>
  The functions of Go's package \<open>strings\<close> that the program calls, on byte strings:
  \<open>HasPrefix\<close>, \<open>Contains\<close>, \<open>Index\<close>, \<open>Split\<close>, \<open>SplitN(_, _, 2)\<close>, \<open>Join\<close>, \<open>Replace(_, _, _, 1)\<close>,
  \<open>TrimSpace\<close>, \<open>ToUpper\<close>, \<open>ToLower\<close>. Case mapping and white space are the ASCII ones (Go also
  maps non-ASCII runes; header names, methods and hosts are ASCII).
\<close>

named_theorems string_simps \<open>Go string functions\<close>

definition is_upper :: "char \<Rightarrow> bool" where
  "is_upper c = (65 \<le> (of_char c :: nat) \<and> (of_char c :: nat) \<le> 90)"

definition is_lower :: "char \<Rightarrow> bool" where
  "is_lower c = (97 \<le> (of_char c :: nat) \<and> (of_char c :: nat) \<le> 122)"

definition is_digit :: "char \<Rightarrow> bool" where
  "is_digit c = (48 \<le> (of_char c :: nat) \<and> (of_char c :: nat) \<le> 57)"

definition upper_char :: "char \<Rightarrow> char" where
  "upper_char c = (if is_lower c then char_of (of_char c - 32 :: nat) else c)"

definition lower_char :: "char \<Rightarrow> char" where
  "lower_char c = (if is_upper c then char_of (of_char c + 32 :: nat) else c)"

definition to_upper :: "string \<Rightarrow> string" where
  "to_upper s = map upper_char s"

definition to_lower :: "string \<Rightarrow> string" where
  "to_lower s = map lower_char s"

fun has_prefix :: "string \<Rightarrow> string \<Rightarrow> bool" where
  "has_prefix s [] = True"
| "has_prefix [] (p # ps) = False"
| "has_prefix (c # cs) (p # ps) = (c = p \<and> has_prefix cs ps)"

fun contains :: "string \<Rightarrow> string \<Rightarrow> bool" where
  "contains [] sub = (sub = [])"
| "contains (c # cs) sub = (has_prefix (c # cs) sub \<or> contains cs sub)"

fun index_of :: "string \<Rightarrow> string \<Rightarrow> nat option" where
  "index_of [] sub = (if sub = [] then Some 0 else None)"
| "index_of (c # cs) sub =
     (if has_prefix (c # cs) sub then Some 0 else map_option Suc (index_of cs sub))"

fun split :: "char \<Rightarrow> string \<Rightarrow> string list" where
  "split c [] = [[]]"
| "split c (x # xs) =
     (if x = c then [] # split c xs
      else (case split c xs of [] \<Rightarrow> [[x]] | p # ps \<Rightarrow> (x # p) # ps))"

fun split_n2 :: "char \<Rightarrow> string \<Rightarrow> string list" where
  "split_n2 c [] = [[]]"
| "split_n2 c (x # xs) =
     (if x = c then [[], xs]
      else (case split_n2 c xs of [] \<Rightarrow> [[x]] | p # ps \<Rightarrow> (x # p) # ps))"

fun join :: "string \<Rightarrow> string list \<Rightarrow> string" where
  "join sep [] = []"
| "join sep [p] = p"
| "join sep (p # q # ps) = p @ sep @ join sep (q # ps)"

text \<open>\<open>strings.Replace(s, old, new, 1)\<close>.\<close>

definition replace1 :: "string \<Rightarrow> string \<Rightarrow> string \<Rightarrow> string" where
  "replace1 s old new = (case index_of s old of
     None \<Rightarrow> s
   | Some i \<Rightarrow> take i s @ new @ drop (i + length old) s)"

definition is_space :: "char \<Rightarrow> bool" where
  "is_space c = ((of_char c :: nat) = 32 \<or> (9 \<le> (of_char c :: nat) \<and> (of_char c :: nat) \<le> 13))"

definition trim_space :: "string \<Rightarrow> string" where
  "trim_space s = rev (dropWhile is_space (rev (dropWhile is_space s)))"

section \<open>Case mapping\<close>

lemma of_char_upper_char:
  "(of_char (upper_char c) :: nat) =
     (if is_lower c then of_char c - 32 else of_char c)"
  by (auto simp: upper_char_def is_lower_def of_char_of)

lemma of_char_lower_char:
  "(of_char (lower_char c) :: nat) =
     (if is_upper c then of_char c + 32 else of_char c)"
  by (auto simp: lower_char_def is_upper_def of_char_of)

lemma char_eq_of_char: "c = d \<longleftrightarrow> (of_char c :: nat) = of_char d"
  by simp

lemma lower_lower [simp]: "lower_char (lower_char c) = lower_char c"
  by (simp only: char_eq_of_char of_char_lower_char) (auto simp: is_upper_def of_char_lower_char)

lemma upper_upper [simp]: "upper_char (upper_char c) = upper_char c"
  by (simp only: char_eq_of_char of_char_upper_char) (auto simp: is_lower_def of_char_upper_char)

lemma upper_lower [simp]: "upper_char (lower_char c) = upper_char c"
  by (simp only: char_eq_of_char of_char_upper_char)
    (auto simp: is_lower_def is_upper_def of_char_lower_char)

lemma lower_upper [simp]: "lower_char (upper_char c) = lower_char c"
  by (simp only: char_eq_of_char of_char_lower_char)
    (auto simp: is_lower_def is_upper_def of_char_upper_char)

lemma to_lower_simps [simp]:
  "to_lower [] = []" "to_lower (c # cs) = lower_char c # to_lower cs"
  "to_lower (s @ t) = to_lower s @ to_lower t"
  by (simp_all add: to_lower_def)

lemma to_upper_simps [simp]:
  "to_upper [] = []" "to_upper (c # cs) = upper_char c # to_upper cs"
  "to_upper (s @ t) = to_upper s @ to_upper t"
  by (simp_all add: to_upper_def)

lemma length_to_lower [simp]: "length (to_lower s) = length s"
  by (simp add: to_lower_def)

lemma length_to_upper [simp]: "length (to_upper s) = length s"
  by (simp add: to_upper_def)

lemma to_lower_idem [simp]: "to_lower (to_lower s) = to_lower s"
  by (simp add: to_lower_def)

lemma to_upper_idem [simp]: "to_upper (to_upper s) = to_upper s"
  by (simp add: to_upper_def)

lemma to_upper_lower [simp]: "to_upper (to_lower s) = to_upper s"
  by (simp add: to_lower_def to_upper_def)

lemma lower_char_eq_special:
  assumes "\<not> is_lower d" "\<not> is_upper d"
  shows "lower_char c = d \<longleftrightarrow> c = d"
  using assms by (simp only: char_eq_of_char of_char_lower_char) (auto simp: is_lower_def is_upper_def)

lemma upper_char_eq_special:
  assumes "\<not> is_lower d" "\<not> is_upper d"
  shows "upper_char c = d \<longleftrightarrow> c = d"
  using assms by (simp only: char_eq_of_char of_char_upper_char) (auto simp: is_lower_def is_upper_def)

lemma set_to_lower_special:
  "\<not> is_lower d \<Longrightarrow> \<not> is_upper d \<Longrightarrow> d \<in> set (to_lower s) \<longleftrightarrow> d \<in> set s"
  by (induction s) (simp_all add: lower_char_eq_special eq_commute [of d])

lemma set_to_upper_special:
  "\<not> is_lower d \<Longrightarrow> \<not> is_upper d \<Longrightarrow> d \<in> set (to_upper s) \<longleftrightarrow> d \<in> set s"
  by (induction s) (simp_all add: upper_char_eq_special eq_commute [of d])

section \<open>Prefixes and substrings\<close>

lemma has_prefix_iff: "has_prefix s p \<longleftrightarrow> (\<exists>t. s = p @ t)"
  by (induction s p rule: has_prefix.induct) auto

lemma has_prefix_append [simp]: "has_prefix (p @ t) p"
  by (auto simp: has_prefix_iff)

lemma contains_iff: "contains s sub \<longleftrightarrow> (\<exists>u v. s = u @ sub @ v)"
proof (induction s)
  case (Cons c cs)
  have "(\<exists>u v. c # cs = u @ sub @ v) \<longleftrightarrow>
      (\<exists>v. c # cs = sub @ v) \<or> (\<exists>u v. cs = u @ sub @ v)"
    by (auto simp: Cons_eq_append_conv[of c cs])
  with Cons show ?case by (simp add: has_prefix_iff)
qed simp

lemma index_of_Some:
  "index_of s sub = Some i \<Longrightarrow> i \<le> length s \<and> has_prefix (drop i s) sub"
  by (induction s arbitrary: i) (auto split: if_splits)

lemma index_of_None_iff: "index_of s sub = None \<longleftrightarrow> \<not> contains s sub"
  by (induction s) auto

lemma replace1_absent: "\<not> contains s old \<Longrightarrow> replace1 s old new = s"
  by (simp add: replace1_def index_of_None_iff[symmetric])

section \<open>Splitting and joining\<close>

lemma split_nonempty [simp]: "split c s \<noteq> []"
  by (induction s) (auto split: list.splits)

lemma split_n2_nonempty [simp]: "split_n2 c s \<noteq> []"
  by (induction s) (auto split: list.splits)

lemma split_absent: "c \<notin> set s \<Longrightarrow> split c s = [s]"
  by (induction s) auto

lemma join_Cons: "ps \<noteq> [] \<Longrightarrow> join sep (p # ps) = p @ sep @ join sep ps"
  by (cases ps) auto

lemma join_Cons_prepend: "join sep ((x # p) # ps) = x # join sep (p # ps)"
  by (cases ps) auto

lemma join_split [simp]: "join [c] (split c s) = s"
proof (induction s)
  case (Cons x xs)
  show ?case
  proof (cases "x = c")
    case True
    with Cons show ?thesis by (simp add: join_Cons)
  next
    case False
    obtain p ps where "split c xs = p # ps"
      by (cases "split c xs") auto
    with Cons False show ?thesis by (simp add: join_Cons_prepend)
  qed
qed simp

lemma split_append_sep: "c \<notin> set p \<Longrightarrow> split c (p @ c # s) = p # split c s"
  by (induction p) auto

lemma split_join:
  "ps \<noteq> [] \<Longrightarrow> (\<forall>p \<in> set ps. c \<notin> set p) \<Longrightarrow> split c (join [c] ps) = ps"
proof (induction ps)
  case (Cons p ps)
  show ?case
  proof (cases "ps = []")
    case True
    with Cons.prems show ?thesis by (simp add: split_absent)
  next
    case False
    with Cons show ?thesis by (simp add: join_Cons split_append_sep)
  qed
qed simp

lemma set_split_absent: "p \<in> set (split c s) \<Longrightarrow> c \<notin> set p"
  by (induction s arbitrary: p) (auto split: if_splits list.splits)

lemma join_split_inj: "split c s = split c t \<Longrightarrow> s = t"
  by (metis join_split)

lemma split_n2_absent: "c \<notin> set s \<Longrightarrow> split_n2 c s = [s]"
  by (induction s) auto

lemma split_n2_sep: "c \<notin> set p \<Longrightarrow> split_n2 c (p @ c # s) = [p, s]"
  by (induction p) auto

lemma split_n2_cases:
  "split_n2 c s = [s] \<and> c \<notin> set s \<or> (\<exists>p q. split_n2 c s = [p, q] \<and> s = p @ c # q \<and> c \<notin> set p)"
proof (cases "c \<in> set s")
  case True
  then obtain p q where "s = p @ c # q" "c \<notin> set p"
    using split_list_first by fastforce
  then show ?thesis by (simp add: split_n2_sep)
qed (simp add: split_n2_absent)

lemma in_set_join: "x \<in> set (join sep ps) \<Longrightarrow> x \<in> set sep \<or> (\<exists>p \<in> set ps. x \<in> set p)"
  by (induction sep ps rule: join.induct) auto

end
