(* ===== verification/Normalizer.thy ===== *)
theory Normalizer
  imports Go_Strings
begin

unbundle bit_operations_syntax

text \<open>
  \<open>normalizer.go\<close>: route patterns and cache keys.

  The three regular expressions are matchers on the text after a slash; \<open>replace_all\<close> is
  \<open>Regexp.ReplaceAllString\<close> for patterns of the shape \<open>/TOKEN(/|$)\<close>: it scans left to right, a
  match consumes the closing slash, and the scan resumes after the match. The xxHash function of
  the package \<open>cespare/xxhash\<close> is a parameter \<open>xx\<close>; a digest that was fed several strings is the
  hash of their concatenation, as the package documents.
\<close>

section \<open>The regular expressions\<close>

definition is_hex :: "char \<Rightarrow> bool" where
  "is_hex c = (is_digit c \<or> (97 \<le> (of_char c :: nat) \<and> (of_char c :: nat) \<le> 102) \<or>
     (65 \<le> (of_char c :: nat) \<and> (of_char c :: nat) \<le> 70))"

text \<open>\<open>(/|$)\<close>: the token is followed by a slash or by the end of the text.\<close>

definition at_boundary :: "string \<Rightarrow> bool" where
  "at_boundary s = (case s of [] \<Rightarrow> True | c # _ \<Rightarrow> c = CHR ''/'')"

fun match_classes :: "(char \<Rightarrow> bool) list \<Rightarrow> string \<Rightarrow> bool" where
  "match_classes [] s = True"
| "match_classes (p # ps) [] = False"
| "match_classes (p # ps) (c # cs) = (p c \<and> match_classes ps cs)"

text \<open>The matched token length, if the expression matches right after a slash.\<close>

definition numeric_re :: "string \<Rightarrow> nat option" where
  "numeric_re s = (let n = length (takeWhile is_digit s) in
     if 0 < n \<and> at_boundary (drop n s) then Some n else None)"

definition fixed_re :: "(char \<Rightarrow> bool) list \<Rightarrow> string \<Rightarrow> nat option" where
  "fixed_re ps s = (if match_classes ps s \<and> at_boundary (drop (length ps) s)
     then Some (length ps) else None)"

definition uuid_classes :: "(char \<Rightarrow> bool) list" where
  "uuid_classes = replicate 8 is_hex @ [\<lambda>c. c = CHR ''-''] @ replicate 4 is_hex @
     [\<lambda>c. c = CHR ''-''] @ replicate 4 is_hex @ [\<lambda>c. c = CHR ''-''] @ replicate 4 is_hex @
     [\<lambda>c. c = CHR ''-''] @ replicate 12 is_hex"

definition uuid_re :: "string \<Rightarrow> nat option" where
  "uuid_re = fixed_re uuid_classes"

definition hex_id_re :: "string \<Rightarrow> nat option" where
  "hex_id_re = fixed_re (replicate 24 is_hex)"

function replace_all :: "(string \<Rightarrow> nat option) \<Rightarrow> string \<Rightarrow> string \<Rightarrow> string" where
  "replace_all m name [] = []"
| "replace_all m name (c # cs) =
     (if c = CHR ''/'' then
        (case m cs of
           None \<Rightarrow> c # replace_all m name cs
         | Some n \<Rightarrow> c # name @
             (case drop n cs of [] \<Rightarrow> [] | d # ds \<Rightarrow> d # replace_all m name ds))
      else c # replace_all m name cs)"
  by pat_completeness auto
termination
proof (relation "measure (\<lambda>(m, name, s). length s)", simp_all)
  fix n and cs ds :: string and d
  assume "drop n cs = d # ds"
  then have "length (drop n cs) = Suc (length ds)" by simp
  then show "length ds < Suc (length cs)" by simp
qed

definition normalize_route :: "string \<Rightarrow> string \<Rightarrow> string" where
  "normalize_route method path = (let m = to_upper method;
     p1 = replace_all uuid_re '':uuid'' path;
     p2 = replace_all hex_id_re '':hex'' p1;
     p3 = replace_all numeric_re '':id'' p2
   in m @ '' '' @ p3)"

section \<open>Cache keys\<close>

text \<open>The query part that both hash functions write: segments sorted, \<open>&\<close> between them.\<close>

definition canonical_query :: "string \<Rightarrow> string" where
  "canonical_query rawQuery = (if rawQuery = [] then []
     else ''?'' @ (if CHR ''&'' \<notin> set rawQuery then rawQuery
                   else join ''&'' (sort (split (CHR ''&'') rawQuery))))"

definition hash_input :: "string \<Rightarrow> string \<Rightarrow> string \<Rightarrow> string \<Rightarrow> string" where
  "hash_input method path rawQuery body = (let m = to_upper method in
     m @ '' '' @ path @ canonical_query rawQuery @
     (if body \<noteq> [] \<and> m \<noteq> ''GET'' \<and> m \<noteq> ''HEAD'' then '' body='' @ body else []))"

definition fast_hash64 :: "(string \<Rightarrow> 64 word) \<Rightarrow> string \<Rightarrow> string \<Rightarrow> string \<Rightarrow> string \<Rightarrow> 64 word" where
  "fast_hash64 xx method path rawQuery body = xx (hash_input method path rawQuery body)"

definition key_input :: "string \<Rightarrow> string \<Rightarrow> string \<Rightarrow> string \<Rightarrow> string list \<Rightarrow> string" where
  "key_input method host path rawQuery varyVals =
     to_upper method @ '' '' @ (if host \<noteq> [] then to_lower host @ '' '' else []) @ path @
     canonical_query rawQuery @ concat (map (\<lambda>v. '' vary='' @ v) varyVals)"

definition fast_hash64_with_host ::
  "(string \<Rightarrow> 64 word) \<Rightarrow> string \<Rightarrow> string \<Rightarrow> string \<Rightarrow> string \<Rightarrow> string list \<Rightarrow> 64 word" where
  "fast_hash64_with_host xx method host path rawQuery varyVals =
     xx (key_input method host path rawQuery varyVals)"

definition hex_digits :: string where
  "hex_digits = ''0123456789abcdef''"

text \<open>\<open>for i := 15; i >= 0; i-- { out[i] = hexDigits[h&0x0f]; h >>= 4 }\<close>.\<close>

fun hex_loop :: "nat \<Rightarrow> 64 word \<Rightarrow> string \<Rightarrow> string" where
  "hex_loop 0 h out = out"
| "hex_loop (Suc n) h out = hex_loop n (drop_bit 4 h) (hex_digits ! unat (h AND 15) # out)"

definition hex_key :: "64 word \<Rightarrow> string" where
  "hex_key h = hex_loop 16 h []"

definition canonical_cache_key_with_host ::
  "(string \<Rightarrow> 64 word) \<Rightarrow> string \<Rightarrow> string \<Rightarrow> string \<Rightarrow> string \<Rightarrow> string list \<Rightarrow> string" where
  "canonical_cache_key_with_host xx method host path rawQuery varyVals =
     hex_key (fast_hash64_with_host xx method host path rawQuery varyVals)"

definition canonical_cache_key ::
  "(string \<Rightarrow> 64 word) \<Rightarrow> string \<Rightarrow> string \<Rightarrow> string \<Rightarrow> string \<Rightarrow> string" where
  "canonical_cache_key xx method path rawQuery body =
     (if body \<noteq> [] \<and> method \<noteq> ''GET'' \<and> method \<noteq> ''HEAD''
      then hex_key (fast_hash64 xx method path rawQuery body)
      else canonical_cache_key_with_host xx method [] path rawQuery [])"

section \<open>Route patterns, segment by segment\<close>

text \<open>
  The reference description of one pass: a list of path segments, a predicate for the
  segments to replace, and the code's behaviour that the segment after a replaced one is copied
  unchanged because the match has consumed the slash in front of it.
\<close>

fun norm_segs :: "(string \<Rightarrow> bool) \<Rightarrow> string \<Rightarrow> string list \<Rightarrow> string list" where
  "norm_segs P name [] = []"
| "norm_segs P name (s # ss) =
     (if P s then name # (case ss of [] \<Rightarrow> [] | t # us \<Rightarrow> t # norm_segs P name us)
      else s # norm_segs P name ss)"

definition numeric_seg :: "string \<Rightarrow> bool" where
  "numeric_seg s = (s \<noteq> [] \<and> list_all is_digit s)"

definition uuid_seg :: "string \<Rightarrow> bool" where
  "uuid_seg s = (length s = 36 \<and> match_classes uuid_classes s)"

definition hex_seg :: "string \<Rightarrow> bool" where
  "hex_seg s = (length s = 24 \<and> list_all is_hex s)"

definition seg_matcher :: "(string \<Rightarrow> bool) \<Rightarrow> (string \<Rightarrow> nat option) \<Rightarrow> bool" where
  "seg_matcher P m = (\<forall>s t. CHR ''/'' \<notin> set s \<longrightarrow> at_boundary t \<longrightarrow>
     m (s @ t) = (if P s then Some (length s) else None))"

lemma at_boundary_simps [simp]:
  "at_boundary []" "at_boundary (c # cs) = (c = CHR ''/'')"
  by (simp_all add: at_boundary_def)

lemma not_class_slash: "\<not> is_digit (CHR ''/'')" "\<not> is_hex (CHR ''/'')"
  by (simp_all add: is_digit_def is_hex_def)

lemma match_classes_append:
  assumes "at_boundary t" "\<forall>p \<in> set ps. \<not> p (CHR ''/'')"
  shows "match_classes ps (s @ t) \<and> at_boundary (drop (length ps) (s @ t)) \<longleftrightarrow>
    match_classes ps s \<and> at_boundary (drop (length ps) s @ t)"
  using assms
proof (induction ps s rule: match_classes.induct)
  case (2 p ps)
  then show ?case by (cases t) (auto simp: at_boundary_def)
qed auto

lemma match_classes_length: "match_classes ps s \<Longrightarrow> length ps \<le> length s"
  by (induction ps s rule: match_classes.induct) auto

lemma at_boundary_drop:
  assumes "CHR ''/'' \<notin> set s" "n \<le> length s" "at_boundary t"
  shows "at_boundary (drop n s @ t) \<longleftrightarrow> n = length s"
proof (cases "drop n s")
  case Nil
  with assms show ?thesis by auto
next
  case (Cons c cs)
  then have "c \<in> set s" by (metis in_set_dropD list.set_intros(1))
  with Cons assms show ?thesis by auto
qed

lemma seg_matcher_fixed:
  assumes "\<forall>p \<in> set ps. \<not> p (CHR ''/'')"
  shows "seg_matcher (\<lambda>s. length s = length ps \<and> match_classes ps s) (fixed_re ps)"
  unfolding seg_matcher_def
proof (intro allI impI)
  fix s t :: string
  assume s: "CHR ''/'' \<notin> set s" and t: "at_boundary t"
  have eq: "match_classes ps (s @ t) \<and> at_boundary (drop (length ps) (s @ t)) \<longleftrightarrow>
      length s = length ps \<and> match_classes ps s"
    unfolding match_classes_append [OF t assms]
  proof (cases "match_classes ps s")
    case True
    then have "length ps \<le> length s" by (rule match_classes_length)
    with True show "match_classes ps s \<and> at_boundary (drop (length ps) s @ t) \<longleftrightarrow>
        length s = length ps \<and> match_classes ps s"
      using at_boundary_drop [OF s _ t] by metis
  qed simp
  show "fixed_re ps (s @ t) = (if length s = length ps \<and> match_classes ps s
      then Some (length s) else None)"
    unfolding fixed_re_def eq by simp
qed

lemma match_classes_replicate:
  "match_classes (replicate n P) s \<longleftrightarrow> n \<le> length s \<and> list_all P (take n s)"
proof (induction n arbitrary: s)
  case (Suc n)
  then show ?case by (cases s) auto
qed simp

lemma uuid_classes_slash: "\<forall>p \<in> set uuid_classes. \<not> p (CHR ''/'')"
  by (auto simp: uuid_classes_def not_class_slash)

lemma length_uuid_classes: "length uuid_classes = 36"
  by (simp add: uuid_classes_def)

lemma seg_matcher_uuid: "seg_matcher uuid_seg uuid_re"
  using seg_matcher_fixed [OF uuid_classes_slash]
  by (simp add: uuid_re_def length_uuid_classes uuid_seg_def [abs_def])

lemma seg_matcher_hex: "seg_matcher hex_seg hex_id_re"
proof -
  have "hex_seg = (\<lambda>s. length s = length (replicate 24 is_hex) \<and>
      match_classes (replicate 24 is_hex) s)"
    by (auto simp: fun_eq_iff hex_seg_def match_classes_replicate)
  moreover have "\<forall>p \<in> set (replicate 24 is_hex). \<not> p (CHR ''/'')"
    by (simp add: not_class_slash)
  ultimately show ?thesis
    using seg_matcher_fixed [of "replicate 24 is_hex"] by (simp add: hex_id_re_def)
qed

lemma takeWhile_digit_append:
  "at_boundary t \<Longrightarrow> takeWhile is_digit (s @ t) = takeWhile is_digit s"
  by (induction s) (cases t; auto simp: not_class_slash)+

lemma seg_matcher_numeric: "seg_matcher numeric_seg numeric_re"
  unfolding seg_matcher_def
proof (intro allI impI)
  fix s t :: string
  assume s: "CHR ''/'' \<notin> set s" and t: "at_boundary t"
  let ?n = "length (takeWhile is_digit s)"
  have le: "?n \<le> length s" by (rule length_takeWhile_le)
  have all: "?n = length s \<longleftrightarrow> list_all is_digit s"
    by (metis takeWhile_eq_all_conv takeWhile_eq_take list_all_iff take_all_iff le_refl)
  have "at_boundary (drop ?n (s @ t)) \<longleftrightarrow> ?n = length s"
    using at_boundary_drop [OF s le t] le by simp
  with all show "numeric_re (s @ t) = (if numeric_seg s then Some (length s) else None)"
    by (auto simp: numeric_re_def Let_def takeWhile_digit_append [OF t] numeric_seg_def)
qed

lemma replace_all_no_slash: "CHR ''/'' \<notin> set s \<Longrightarrow> replace_all m name (s @ t) = s @ replace_all m name t"
  by (induction s) auto

text \<open>\<open>slashed ss\<close> is \<open>/s1/s2/...\<close>, the part of a path from its first slash on.\<close>

definition slashed :: "string list \<Rightarrow> string" where
  "slashed ss = concat (map (\<lambda>s. CHR ''/'' # s) ss)"

lemma slashed_simps [simp]: "slashed [] = []" "slashed (s # ss) = CHR ''/'' # s @ slashed ss"
  by (simp_all add: slashed_def)

lemma at_boundary_slashed [simp]: "at_boundary (slashed ss)"
  by (cases ss) auto

lemma replace_all_slashed:
  "seg_matcher P m \<Longrightarrow> \<forall>s \<in> set ss. CHR ''/'' \<notin> set s \<Longrightarrow>
    replace_all m name (slashed ss) = slashed (norm_segs P name ss)"
proof (induction P name ss rule: norm_segs.induct)
  case (2 P name s ss)
  from "2.prems" have m: "m (s @ slashed ss) = (if P s then Some (length s) else None)"
    by (simp add: seg_matcher_def)
  show ?case
  proof (cases "P s")
    case False
    with "2.IH"(2) "2.prems" m show ?thesis
      by (simp add: replace_all_no_slash)
  next
    case True
    with "2.IH"(1) "2.prems" m show ?thesis
      by (cases ss) (auto simp: replace_all_no_slash)
  qed
qed simp

definition no_slashes :: "string list \<Rightarrow> bool" where
  "no_slashes ss = (\<forall>s \<in> set ss. CHR ''/'' \<notin> set s)"

lemma no_slashes_norm_segs:
  "no_slashes ss \<Longrightarrow> CHR ''/'' \<notin> set name \<Longrightarrow> no_slashes (norm_segs P name ss)"
  by (induction P name ss rule: norm_segs.induct) (auto simp: no_slashes_def split: list.splits)

lemma replace_all_path:
  assumes "seg_matcher P m" "CHR ''/'' \<notin> set p" "no_slashes ss"
  shows "replace_all m name (p @ slashed ss) = p @ slashed (norm_segs P name ss)"
  using assms by (simp add: replace_all_no_slash replace_all_slashed no_slashes_def)

lemma normalize_route_segs:
  assumes "CHR ''/'' \<notin> set p" "no_slashes ss"
  shows "normalize_route m (p @ slashed ss) = to_upper m @ '' '' @ p @
    slashed (norm_segs numeric_seg '':id''
      (norm_segs hex_seg '':hex'' (norm_segs uuid_seg '':uuid'' ss)))"
proof -
  have u: "no_slashes (norm_segs uuid_seg '':uuid'' ss)"
    using assms(2) by (rule no_slashes_norm_segs) simp
  have h: "no_slashes (norm_segs hex_seg '':hex'' (norm_segs uuid_seg '':uuid'' ss))"
    using u by (rule no_slashes_norm_segs) simp
  show ?thesis
    unfolding normalize_route_def Let_def
      replace_all_path [OF seg_matcher_uuid assms]
      replace_all_path [OF seg_matcher_hex assms(1) u]
      replace_all_path [OF seg_matcher_numeric assms(1) h] by (rule refl)
qed

fun no_adjacent :: "('a \<Rightarrow> bool) \<Rightarrow> 'a list \<Rightarrow> bool" where
  "no_adjacent P (s # t # ss) = (\<not> (P s \<and> P t) \<and> no_adjacent P (t # ss))"
| "no_adjacent P ss = True"

lemma no_adjacent_Cons: "no_adjacent P (s # ss) \<Longrightarrow> no_adjacent P ss"
  by (cases ss) auto

lemma no_adjacent_map:
  "no_adjacent P ss \<Longrightarrow> \<forall>s. Q (f s) \<longrightarrow> P s \<Longrightarrow> no_adjacent Q (map f ss)"
  by (induction P ss rule: no_adjacent.induct) auto

lemma norm_segs_map:
  "no_adjacent P ss \<Longrightarrow> norm_segs P name ss = map (\<lambda>s. if P s then name else s) ss"
proof (induction P name ss rule: norm_segs.induct)
  case (2 P name s ss)
  then show ?case
    by (cases ss) (auto dest: no_adjacent_Cons)
qed simp

definition id_seg :: "string \<Rightarrow> bool" where
  "id_seg s = (uuid_seg s \<or> hex_seg s \<or> numeric_seg s)"

definition seg_pattern :: "string \<Rightarrow> string" where
  "seg_pattern s = (if uuid_seg s then '':uuid'' else if hex_seg s then '':hex''
     else if numeric_seg s then '':id'' else s)"

lemma placeholders_not_ids [simp]:
  "\<not> hex_seg '':uuid''" "\<not> numeric_seg '':uuid''" "\<not> numeric_seg '':hex''"
  by (simp_all add: hex_seg_def numeric_seg_def is_digit_def)

text \<open>
  C21: a path whose segments carry no two neighbouring identifiers is normalised segment by
  segment: every UUID, 24-digit hexadecimal and decimal segment becomes its placeholder, every
  other segment is kept, and the method is put in upper case in front.
\<close>

theorem normalize_route_spec:
  assumes "CHR ''/'' \<notin> set p" "no_slashes ss" "no_adjacent id_seg ss"
  shows "normalize_route m (p @ slashed ss) =
    to_upper m @ '' '' @ p @ slashed (map seg_pattern ss)"
proof -
  have u: "norm_segs uuid_seg '':uuid'' ss = map (\<lambda>s. if uuid_seg s then '':uuid'' else s) ss"
    using no_adjacent_map [OF assms(3), of uuid_seg "\<lambda>s. s"] by (simp add: norm_segs_map id_seg_def)
  let ?f = "\<lambda>s. if uuid_seg s then '':uuid'' else s"
  have h: "norm_segs hex_seg '':hex'' (map ?f ss) =
      map (\<lambda>s. if hex_seg s then '':hex'' else s) (map ?f ss)"
    by (rule norm_segs_map) (rule no_adjacent_map [OF assms(3)], simp add: id_seg_def)
  let ?g = "\<lambda>s. if hex_seg (?f s) then '':hex'' else ?f s"
  have n: "norm_segs numeric_seg '':id'' (map ?g ss) =
      map (\<lambda>s. if numeric_seg s then '':id'' else s) (map ?g ss)"
    by (rule norm_segs_map) (rule no_adjacent_map [OF assms(3)], simp add: id_seg_def)
  have m: "map (\<lambda>s. if numeric_seg s then '':id'' else s) (map ?g ss) = map seg_pattern ss"
    by (auto simp: seg_pattern_def)
  have hg: "map (\<lambda>s. if hex_seg s then '':hex'' else s) (map ?f ss) = map ?g ss"
    by simp
  show ?thesis
    unfolding normalize_route_segs [OF assms(1,2)] u h hg n m by (rule refl)
qed

theorem normalize_route_spec_witness:
  "normalize_route ''get'' (slashed [''users'', ''42'', ''cart'']) =
    ''GET '' @ slashed [''users'', '':id'', ''cart'']"
proof -
  have u: "to_upper ''get'' = ''GET''" by code_simp
  have p: "map seg_pattern [''users'', ''42'', ''cart''] = [''users'', '':id'', ''cart'']"
    by code_simp
  have "normalize_route ''get'' ([] @ slashed [''users'', ''42'', ''cart'']) =
      to_upper ''get'' @ '' '' @ [] @ slashed (map seg_pattern [''users'', ''42'', ''cart''])"
    by (rule normalize_route_spec)
      (simp_all add: no_slashes_def id_seg_def uuid_seg_def hex_seg_def numeric_seg_def is_digit_def)
  then show ?thesis unfolding u p by simp
qed

text \<open>
  neighbouring identifiers are not both replaced: the match for the first consumes the
  slash the second would need, so \<open>/users/1/2\<close> keeps the concrete \<open>2\<close> (and a second pass would
  still change the pattern).
\<close>

theorem normalize_route_adjacent_ids:
  "normalize_route ''GET'' ''/users/1/2'' = ''GET /users/:id/2'' \<and>
   normalize_route ''GET'' ''/users/:id/2'' = ''GET /users/:id/:id''"
  by code_simp

section \<open>What a cache key depends on\<close>

lemma canonical_query_eq:
  "canonical_query q = (if q = [] then [] else CHR ''?'' # join ''&'' (sort (split (CHR ''&'') q)))"
  by (auto simp: canonical_query_def split_absent)

lemma split_eq_Nil_singleton: "split c q = [[]] \<longleftrightarrow> q = []"
  using join_split [of c q] by (auto simp del: join_split)

lemma sort_eq_Nil_iff: "sort xs = [] \<longleftrightarrow> xs = []"
  by (cases xs) simp_all

lemma canonical_query_inj:
  "canonical_query q1 = canonical_query q2 \<longleftrightarrow>
     mset (split (CHR ''&'') q1) = mset (split (CHR ''&'') q2)"
proof
  assume eq: "canonical_query q1 = canonical_query q2"
  show "mset (split (CHR ''&'') q1) = mset (split (CHR ''&'') q2)"
  proof (cases "q1 = [] \<or> q2 = []")
    case True
    with eq show ?thesis by (auto simp: canonical_query_eq split: if_splits)
  next
    case False
    with eq have j: "join ''&'' (sort (split (CHR ''&'') q1)) = join ''&'' (sort (split (CHR ''&'') q2))"
      by (simp add: canonical_query_eq)
    have sj: "split (CHR ''&'') (join ''&'' (sort (split (CHR ''&'') q))) = sort (split (CHR ''&'') q)" for q
    proof (rule split_join)
      show "sort (split (CHR ''&'') q) \<noteq> []"
        by (simp only: sort_eq_Nil_iff split_nonempty not_False_eq_True)
    qed (auto dest: set_split_absent)
    from arg_cong [OF j, of "split (CHR ''&'')"]
    have "sort (split (CHR ''&'') q1) = sort (split (CHR ''&'') q2)"
      unfolding sj .
    from arg_cong [OF this, of mset] show ?thesis
      unfolding mset_sort .
  qed
next
  assume m: "mset (split (CHR ''&'') q1) = mset (split (CHR ''&'') q2)"
  then have s: "sort (split (CHR ''&'') q1) = sort (split (CHR ''&'') q2)"
    by (simp flip: sorted_list_of_multiset_mset)
  have "mset (split (CHR ''&'') q) = {#[]#} \<longleftrightarrow> q = []" for q
    using split_eq_Nil_singleton by simp
  with m have "q1 = [] \<longleftrightarrow> q2 = []" by metis
  with s show "canonical_query q1 = canonical_query q2"
    by (auto simp: canonical_query_eq)
qed

lemma append_sep_inj:
  "c \<notin> set a \<Longrightarrow> c \<notin> set b \<Longrightarrow> a @ c # x = b @ c # y \<longleftrightarrow> a = b \<and> x = y"
proof (induction a arbitrary: b)
  case Nil
  then show ?case by (cases b) auto
next
  case (Cons z a)
  then show ?case by (cases b) auto
qed

lemma append_query_inj:
  assumes "CHR ''?'' \<notin> set p1" "CHR ''?'' \<notin> set p2"
  shows "p1 @ canonical_query q1 = p2 @ canonical_query q2 \<longleftrightarrow>
    p1 = p2 \<and> canonical_query q1 = canonical_query q2"
proof
  assume eq: "p1 @ canonical_query q1 = p2 @ canonical_query q2"
  show "p1 = p2 \<and> canonical_query q1 = canonical_query q2"
  proof (cases "q1 = [] \<or> q2 = []")
    case True
    with eq assms show ?thesis
      by (auto simp: canonical_query_eq split: if_splits)
  next
    case False
    with eq assms show ?thesis
      by (simp add: canonical_query_eq append_sep_inj)
  qed
qed simp

lemma space_not_letter [simp]: "\<not> is_lower (CHR '' '')" "\<not> is_upper (CHR '' '')"
  by (simp_all add: is_lower_def is_upper_def)



text \<open>
  a path with a decoded question mark collides with another resource: \<open>/a%3Fb\<close> (path \<open>/a?b\<close>,
  no query) and \<open>/a?b\<close> (path \<open>/a\<close>, query \<open>b\<close>) have the same cache key under every hash function.
\<close>

theorem cache_key_question_mark_collision:
  "canonical_cache_key_with_host xx method host ''/a?b'' [] [] =
   canonical_cache_key_with_host xx method host ''/a'' ''b'' []"
  by (simp add: canonical_cache_key_with_host_def fast_hash64_with_host_def key_input_def
      canonical_query_def)

section \<open>The hexadecimal key\<close>

definition hex_value :: "char \<Rightarrow> nat" where
  "hex_value c = (if is_digit c then of_char c - 48 else of_char c - 87)"

fun unhex :: "nat \<Rightarrow> string \<Rightarrow> nat" where
  "unhex a [] = a"
| "unhex a (c # cs) = unhex (16 * a + hex_value c) cs"

lemma hex_value_digit: "d < 16 \<Longrightarrow> hex_value (hex_digits ! d) = d"
proof -
  have "\<forall>d \<in> set [0..<16]. hex_value (hex_digits ! d) = d" by code_simp
  then show "d < 16 \<Longrightarrow> hex_value (hex_digits ! d) = d" by simp
qed

lemma unat_and_15: "unat (h AND 15 :: 64 word) = unat h mod 16"
proof -
  have "h AND 15 = take_bit 4 h"
    by (simp add: take_bit_eq_mask mask_eq_exp_minus_1)
  then show ?thesis by (simp add: take_bit_eq_mod unat_mod_distrib)
qed

lemma unat_drop_4: "unat (drop_bit 4 h :: 64 word) = unat h div 16"
  by (simp add: drop_bit_eq_div unat_div)

lemma unhex_hex_loop: "unhex a (hex_loop n h out) = unhex (a * 16 ^ n + unat h mod 16 ^ n) out"
proof (induction n arbitrary: h out)
  case (Suc n)
  have "16 * (a * 16 ^ n + unat h div 16 mod 16 ^ n) + unat h mod 16 =
      a * 16 ^ Suc n + (16 * (unat h div 16 mod 16 ^ n) + unat h mod 16)"
    by simp
  also have "16 * (unat h div 16 mod 16 ^ n) + unat h mod 16 = unat h mod (16 * 16 ^ n)"
    by (simp add: mod_mult2_eq)
  finally have "16 * (a * 16 ^ n + unat h div 16 mod 16 ^ n) + unat h mod 16 =
      a * 16 ^ Suc n + unat h mod 16 ^ Suc n" by simp
  then show ?case
    by (simp only: hex_loop.simps Suc.IH unhex.simps unat_and_15 unat_drop_4 hex_value_digit
        mod_less_divisor zero_less_numeral)
qed simp

lemma length_hex_loop: "length (hex_loop n h out) = n + length out"
  by (induction n arbitrary: h out) auto

lemma unhex_hex_key: "unhex 0 (hex_key h) = unat h"
  using unat_bound64 [of h] by (simp add: hex_key_def unhex_hex_loop)

text \<open>
  the textual cache key is a faithful rendering of the 64-bit hash: it always has 16
  characters, and two keys are equal only if the hashes are equal.
\<close>

theorem hex_key_faithful:
  "length (hex_key h) = 16 \<and> (hex_key h = hex_key h' \<longleftrightarrow> h = h')"
proof -
  have "hex_key h = hex_key h' \<Longrightarrow> h = h'"
    by (metis unhex_hex_key word_unat_eq_iff)
  then show ?thesis
    by (auto simp: hex_key_def length_hex_loop)
qed

end
