(* ===== verification/Go_Http.thy ===== *)
theory Go_Http
  imports Go_Strings
begin

text \<open>
  The parts of \<open>net/http\<close> the program relies on: \<open>Header\<close> with its canonical keys, requests and
  their cookies, and the server's \<open>ResponseWriter\<close> as seen by a handler.
\<close>

named_theorems header_simps \<open>header look-ups\<close>

section \<open>Canonical header keys\<close>

text \<open>\<open>validHeaderFieldByte\<close>: the token characters of RFC 7230.\<close>

definition is_token_char :: "char \<Rightarrow> bool" where
  "is_token_char c = (is_upper c \<or> is_lower c \<or> is_digit c \<or> c \<in> set ''!#$%&*+-.^_`|~'' \<or>
     (of_char c :: nat) = 39)"

text \<open>
  \<open>textproto.CanonicalMIMEHeaderKey\<close>: the first letter and every letter after a hyphen in upper
  case, the rest in lower case; a key with a non-token byte is returned unchanged.
\<close>

fun canon_from :: "bool \<Rightarrow> string \<Rightarrow> string" where
  "canon_from up [] = []"
| "canon_from up (c # cs) =
     (if up then upper_char c else lower_char c) # canon_from (c = CHR ''-'') cs"

definition canon_key :: "string \<Rightarrow> string" where
  "canon_key s = (if list_all is_token_char s then canon_from True s else s)"

lemma not_letter_hyphen [simp]: "\<not> is_lower (CHR ''-'')" "\<not> is_upper (CHR ''-'')"
  by (simp_all add: is_lower_def is_upper_def)

lemma case_eq_hyphen [simp]:
  "upper_char c = CHR ''-'' \<longleftrightarrow> c = CHR ''-''" "lower_char c = CHR ''-'' \<longleftrightarrow> c = CHR ''-''"
  by (simp_all add: lower_char_eq_special upper_char_eq_special)

lemma canon_from_idem [simp]: "canon_from up (canon_from up s) = canon_from up s"
  by (induction up s rule: canon_from.induct) auto

lemma canon_from_lower [simp]: "canon_from up (to_lower s) = canon_from up s"
  by (induction up s rule: canon_from.induct) auto

lemma canon_from_append_hyphen:
  "canon_from up (s @ CHR ''-'' # t) = canon_from up s @ CHR ''-'' # canon_from True t"
  by (induction up s rule: canon_from.induct)
    (auto simp: upper_char_def lower_char_def)

lemma length_canon_from [simp]: "length (canon_from up s) = length s"
  by (induction up s rule: canon_from.induct) auto

lemma to_lower_canon_from [simp]: "to_lower (canon_from up s) = to_lower s"
  by (induction up s rule: canon_from.induct) auto

lemma is_upper_upper: "is_lower c \<Longrightarrow> is_upper (upper_char c)"
  by (auto simp: is_upper_def of_char_upper_char) (auto simp: is_lower_def)

lemma is_lower_lower: "is_upper c \<Longrightarrow> is_lower (lower_char c)"
  by (auto simp: is_lower_def of_char_lower_char) (auto simp: is_upper_def)

lemma token_upper [simp]: "is_token_char c \<Longrightarrow> is_token_char (upper_char c)"
proof (cases "is_lower c")
  case True
  then show ?thesis by (simp add: is_token_char_def is_upper_upper)
qed (simp add: upper_char_def)

lemma token_lower [simp]: "is_token_char c \<Longrightarrow> is_token_char (lower_char c)"
proof (cases "is_upper c")
  case True
  then show ?thesis by (simp add: is_token_char_def is_lower_lower)
qed (simp add: lower_char_def)

lemma token_canon_from: "list_all is_token_char s \<Longrightarrow> list_all is_token_char (canon_from up s)"
  by (induction up s rule: canon_from.induct) auto

lemma token_to_lower: "list_all is_token_char s \<Longrightarrow> list_all is_token_char (to_lower s)"
  by (induction s) auto

lemma canon_key_idem [simp]: "canon_key (canon_key s) = canon_key s"
  by (simp add: canon_key_def token_canon_from)

lemma canon_key_to_lower: "list_all is_token_char s \<Longrightarrow> canon_key (to_lower s) = canon_key s"
  by (simp add: canon_key_def token_to_lower)

lemma length_canon_key [simp]: "length (canon_key s) = length s"
  by (simp add: canon_key_def)

section \<open>Headers\<close>

type_synonym header = "(string, string list) gomap"

text \<open>\<open>Header.Get\<close>, \<open>Values\<close>, \<open>Set\<close>, \<open>Add\<close>, \<open>Del\<close>.\<close>

definition hvalues :: "header \<Rightarrow> string \<Rightarrow> string list" where
  "hvalues h k = (case mget h (canon_key k) of None \<Rightarrow> [] | Some vv \<Rightarrow> vv)"

definition hget :: "header \<Rightarrow> string \<Rightarrow> string" where
  "hget h k = (case hvalues h k of [] \<Rightarrow> [] | v # _ \<Rightarrow> v)"

definition hset :: "string \<Rightarrow> string \<Rightarrow> header \<Rightarrow> header" where
  "hset k v h = mput (canon_key k) [v] h"

definition hadd :: "string \<Rightarrow> string \<Rightarrow> header \<Rightarrow> header" where
  "hadd k v h = mput (canon_key k) (hvalues h k @ [v]) h"

definition hdel :: "string \<Rightarrow> header \<Rightarrow> header" where
  "hdel k h = mdel (canon_key k) h"

lemma hvalues_hset [header_simps]:
  "hvalues (hset k v h) k' = (if canon_key k' = canon_key k then [v] else hvalues h k')"
  by (simp add: hvalues_def hset_def map_simps)

lemma hvalues_hadd [header_simps]:
  "hvalues (hadd k v h) k' =
     (if canon_key k' = canon_key k then hvalues h k' @ [v] else hvalues h k')"
  by (simp add: hvalues_def hadd_def map_simps)

lemma hvalues_hdel [header_simps]:
  "hvalues (hdel k h) k' = (if canon_key k' = canon_key k then [] else hvalues h k')"
  by (simp add: hvalues_def hdel_def map_simps)

lemma hget_hset [header_simps]:
  "hget (hset k v h) k' = (if canon_key k' = canon_key k then v else hget h k')"
  by (simp add: hget_def header_simps)

lemma hvalues_canon [simp]: "hvalues h (canon_key k) = hvalues h k"
  by (simp add: hvalues_def)

lemma hget_canon [simp]: "hget h (canon_key k) = hget h k"
  by (simp add: hget_def)

lemma hget_Nil_values: "hvalues h k = [] \<Longrightarrow> hget h k = []"
  by (simp add: hget_def)

lemma mwf_hset [wf_intros]: "mwf h \<Longrightarrow> mwf (hset k v h)"
  by (simp add: hset_def wf_intros)

lemma mwf_hadd [wf_intros]: "mwf h \<Longrightarrow> mwf (hadd k v h)"
  by (simp add: hadd_def wf_intros)

lemma mwf_hdel [wf_intros]: "mwf h \<Longrightarrow> mwf (hdel k h)"
  by (simp add: hdel_def wf_intros)

section \<open>Requests and cookies\<close>

text \<open>
  A request as the program reads it: \<open>r.Method\<close>, \<open>r.Host\<close>, \<open>r.URL.Path\<close> (decoded by the server),
  \<open>r.URL.RawQuery\<close> and \<open>r.Header\<close>.
\<close>

record request =
  r_method :: string
  r_host :: string
  r_path :: string
  r_query :: string
  r_header :: header

record cookie =
  ck_name :: string
  ck_value :: string

text \<open>\<open>strings.Cut(s, sep)\<close> with a one-byte separator.\<close>

definition cut :: "char \<Rightarrow> string \<Rightarrow> string \<times> string" where
  "cut c s = (case split_n2 c s of [p, q] \<Rightarrow> (p, q) | _ \<Rightarrow> (s, []))"

text \<open>\<open>validCookieValueByte\<close> and \<open>parseCookieValue(raw, true)\<close>.\<close>

definition cookie_value_char :: "char \<Rightarrow> bool" where
  "cookie_value_char c = (32 \<le> (of_char c :: nat) \<and> (of_char c :: nat) < 127 \<and>
     (of_char c :: nat) \<notin> {34, 59, 92})"

definition strip_quotes :: "string \<Rightarrow> string" where
  "strip_quotes s = (if length s > 1 \<and> (of_char (hd s) :: nat) = 34 \<and> (of_char (last s) :: nat) = 34
     then butlast (tl s) else s)"

definition parse_cookie_value :: "string \<Rightarrow> string option" where
  "parse_cookie_value raw = (let v = strip_quotes raw in
     if list_all cookie_value_char v then Some v else None)"

text \<open>One \<open>;\<close>-separated part of a \<open>Cookie\<close> line: \<open>None\<close> when \<open>readCookies\<close> skips it.\<close>

definition read_cookie_part :: "string \<Rightarrow> cookie option" where
  "read_cookie_part part0 = (let part = trim_space part0 in
     if part = [] then None
     else let (name, val) = cut (CHR ''='') part in
       if name = [] \<or> \<not> list_all is_token_char name then None
       else (case parse_cookie_value val of
               None \<Rightarrow> None
             | Some v \<Rightarrow> Some \<lparr>ck_name = name, ck_value = v\<rparr>))"

text \<open>\<open>r.Cookies()\<close> and \<open>r.Cookie(name)\<close>.\<close>

definition cookies :: "request \<Rightarrow> cookie list" where
  "cookies r = List.map_filter read_cookie_part
     (concat (map (\<lambda>line. split (CHR '';'') (trim_space line)) (hvalues (r_header r) ''Cookie'')))"

definition find_cookie :: "request \<Rightarrow> string \<Rightarrow> cookie option" where
  "find_cookie r name = (if name = [] then None else find (\<lambda>c. ck_name c = name) (cookies r))"

lemma cookies_no_header: "hvalues (r_header r) ''Cookie'' = [] \<Longrightarrow> cookies r = []"
  by (simp add: cookies_def map_filter_def)

section \<open>The server's response writer\<close>

text \<open>
  \<open>cl_header\<close> is the live header map, \<open>cl_sent\<close> the status and the header snapshot taken by the
  first \<open>WriteHeader\<close> (later calls are superfluous and ignored), \<open>cl_body\<close> the body bytes written.
  \<open>cl_flusher\<close> and \<open>cl_hijacker\<close> say which optional interfaces the writer implements; the counters
  record the calls of \<open>Flush\<close> and \<open>Hijack\<close>.
\<close>

record client =
  cl_header :: header
  cl_sent :: "(int \<times> header) option"
  cl_body :: bytes
  cl_flusher :: bool
  cl_hijacker :: bool
  cl_flushes :: nat
  cl_hijacked :: bool

definition new_client :: client where
  "new_client = \<lparr>cl_header = [], cl_sent = None, cl_body = [], cl_flusher = True,
     cl_hijacker = True, cl_flushes = 0, cl_hijacked = False\<rparr>"

definition cl_write_header :: "int \<Rightarrow> client \<Rightarrow> client" where
  "cl_write_header code w = (case cl_sent w of
     None \<Rightarrow> w\<lparr>cl_sent := Some (code, cl_header w)\<rparr>
   | Some _ \<Rightarrow> w)"

definition cl_write :: "bytes \<Rightarrow> client \<Rightarrow> client" where
  "cl_write b w = (let w1 = cl_write_header 200 w in w1\<lparr>cl_body := cl_body w1 @ b\<rparr>)"

definition cl_add :: "string \<Rightarrow> string \<Rightarrow> client \<Rightarrow> client" where
  "cl_add k v w = w\<lparr>cl_header := hadd k v (cl_header w)\<rparr>"

definition cl_set :: "string \<Rightarrow> string \<Rightarrow> client \<Rightarrow> client" where
  "cl_set k v w = w\<lparr>cl_header := hset k v (cl_header w)\<rparr>"

definition cl_flush :: "client \<Rightarrow> client" where
  "cl_flush w = (let w1 = cl_write_header 200 w in w1\<lparr>cl_flushes := Suc (cl_flushes w1)\<rparr>)"

text \<open>\<open>for k, vv := range h { for _, v := range vv { w.Header().Add(k, v) } }\<close>.\<close>

definition cl_add_all :: "header \<Rightarrow> client \<Rightarrow> client" where
  "cl_add_all h w = fold (\<lambda>(k, vv) w. fold (\<lambda>v w. cl_add k v w) vv w) h w"

lemma cl_write_header_fields [simp]:
  "cl_header (cl_write_header code w) = cl_header w"
  "cl_body (cl_write_header code w) = cl_body w"
  "cl_flusher (cl_write_header code w) = cl_flusher w"
  "cl_hijacker (cl_write_header code w) = cl_hijacker w"
  "cl_flushes (cl_write_header code w) = cl_flushes w"
  "cl_hijacked (cl_write_header code w) = cl_hijacked w"
  "cl_sent (cl_write_header code w) =
     (case cl_sent w of None \<Rightarrow> Some (code, cl_header w) | Some x \<Rightarrow> Some x)"
  by (simp_all add: cl_write_header_def split: option.split)

lemma cl_write_fields [simp]:
  "cl_header (cl_write b w) = cl_header w"
  "cl_body (cl_write b w) = cl_body w @ b"
  "cl_flusher (cl_write b w) = cl_flusher w"
  "cl_hijacker (cl_write b w) = cl_hijacker w"
  "cl_flushes (cl_write b w) = cl_flushes w"
  "cl_hijacked (cl_write b w) = cl_hijacked w"
  "cl_sent (cl_write b w) =
     (case cl_sent w of None \<Rightarrow> Some (200, cl_header w) | Some x \<Rightarrow> Some x)"
  by (simp_all add: cl_write_def Let_def)

lemma cl_add_fields [simp]:
  "cl_header (cl_add k v w) = hadd k v (cl_header w)"
  "cl_body (cl_add k v w) = cl_body w" "cl_sent (cl_add k v w) = cl_sent w"
  "cl_flusher (cl_add k v w) = cl_flusher w" "cl_hijacker (cl_add k v w) = cl_hijacker w"
  "cl_flushes (cl_add k v w) = cl_flushes w" "cl_hijacked (cl_add k v w) = cl_hijacked w"
  by (simp_all add: cl_add_def)

lemma cl_set_fields [simp]:
  "cl_header (cl_set k v w) = hset k v (cl_header w)"
  "cl_body (cl_set k v w) = cl_body w" "cl_sent (cl_set k v w) = cl_sent w"
  "cl_flusher (cl_set k v w) = cl_flusher w" "cl_hijacker (cl_set k v w) = cl_hijacker w"
  "cl_flushes (cl_set k v w) = cl_flushes w" "cl_hijacked (cl_set k v w) = cl_hijacked w"
  by (simp_all add: cl_set_def)

lemma cl_flush_fields [simp]:
  "cl_header (cl_flush w) = cl_header w" "cl_body (cl_flush w) = cl_body w"
  "cl_flusher (cl_flush w) = cl_flusher w" "cl_hijacker (cl_flush w) = cl_hijacker w"
  "cl_flushes (cl_flush w) = Suc (cl_flushes w)" "cl_hijacked (cl_flush w) = cl_hijacked w"
  "cl_sent (cl_flush w) =
     (case cl_sent w of None \<Rightarrow> Some (200, cl_header w) | Some x \<Rightarrow> Some x)"
  by (simp_all add: cl_flush_def Let_def)

lemma fold_cl_add_fields [simp]:
  "cl_body (fold (\<lambda>v w. cl_add k v w) vv w) = cl_body w"
  "cl_sent (fold (\<lambda>v w. cl_add k v w) vv w) = cl_sent w"
  "cl_flusher (fold (\<lambda>v w. cl_add k v w) vv w) = cl_flusher w"
  "cl_hijacker (fold (\<lambda>v w. cl_add k v w) vv w) = cl_hijacker w"
  "cl_flushes (fold (\<lambda>v w. cl_add k v w) vv w) = cl_flushes w"
  "cl_hijacked (fold (\<lambda>v w. cl_add k v w) vv w) = cl_hijacked w"
  by (induction vv arbitrary: w) auto

lemma cl_add_all_simps:
  "cl_add_all [] w = w"
  "cl_add_all ((k, vv) # h) w = cl_add_all h (fold (\<lambda>v w. cl_add k v w) vv w)"
  by (simp_all add: cl_add_all_def)

lemma cl_add_all_fields [simp]:
  "cl_body (cl_add_all h w) = cl_body w" "cl_sent (cl_add_all h w) = cl_sent w"
  "cl_flusher (cl_add_all h w) = cl_flusher w" "cl_hijacker (cl_add_all h w) = cl_hijacker w"
  "cl_flushes (cl_add_all h w) = cl_flushes w" "cl_hijacked (cl_add_all h w) = cl_hijacked w"
  by (induction h arbitrary: w) (auto simp: cl_add_all_simps)

end
