(* ===== verification/Store.thy ===== *)
theory Store
  imports Go_Http
begin

text \<open>
  \<open>store.go\<close> and \<open>ResponseEntry.WriteResponse\<close> of \<open>sharded_store.go\<close>: cached responses, the
  interface \<open>Store\<close> as a record of operations, its contract as the locale \<open>cache_store\<close>, and
  \<open>MemoryStore\<close> with the proof that it meets the contract.

  Times are nanoseconds (\<open>int\<close>); the zero \<open>time.Time\<close> is \<open>None\<close>. An operation reads the clock once,
  through its argument \<open>now\<close>. Entries are non-nil, so the nil checks of the operations are the
  \<open>option\<close> values where the code can meet a nil pointer. \<open>Set\<close> returns the entry it was given as
  well, because it mutates the caller's entry (\<open>ExpiresAt\<close>, \<open>Header\<close>).
\<close>

section \<open>Cached responses\<close>

record entry =
  e_body :: bytes
  e_header :: header
  e_ctype :: string
  e_status :: int
  e_created :: int
  e_expires :: "int option"
  e_vary :: "(string, string) gomap"

definition matches_vary :: "entry option \<Rightarrow> request \<Rightarrow> bool" where
  "matches_vary ent r = (case ent of
     None \<Rightarrow> False
   | Some e \<Rightarrow>
       if hget (e_header e) ''Vary'' = ''*'' then False
       else if e_vary e = [] then True
       else list_all (\<lambda>(headerName, expectedVal). hget (r_header r) headerName = expectedVal) (e_vary e))"

text \<open>The response headers without the internal \<open>X-Precog-Vary-*\<close> ones.\<close>

definition is_internal_key :: "string \<Rightarrow> bool" where
  "is_internal_key k = has_prefix (to_lower k) ''x-precog-vary''"

definition visible_header :: "header \<Rightarrow> header" where
  "visible_header h = filter (\<lambda>(k, vv). \<not> is_internal_key k) h"

definition write_response :: "entry \<Rightarrow> client \<Rightarrow> client" where
  "write_response e w0 = (let
     w1 = cl_add_all (visible_header (e_header e)) w0;
     w2 = (if e_ctype e \<noteq> [] \<and> hget (cl_header w1) ''Content-Type'' = []
           then cl_set ''Content-Type'' (e_ctype e) w1 else w1);
     w3 = cl_set ''X-Cache'' ''HIT'' w2;
     w4 = cl_set ''X-Precog'' ''ram-cache'' w3;
     w5 = (if 0 < e_status e then cl_write_header (e_status e) w4 else cl_write_header 200 w4)
   in cl_write (e_body e) w5)"

section \<open>The interface \<open>Store\<close> and its contract\<close>

record 's store_ops =
  st_get :: "int \<Rightarrow> string \<Rightarrow> 's \<Rightarrow> entry option \<times> 's"
  st_set :: "int \<Rightarrow> string \<Rightarrow> entry \<Rightarrow> int \<Rightarrow> 's \<Rightarrow> bool \<times> entry \<times> 's"
  st_del :: "string \<Rightarrow> 's \<Rightarrow> 's"
  st_close :: "'s \<Rightarrow> 's"

text \<open>
  Two entries give the same response if a client cannot tell them apart: same body, headers,
  content type and status, and they match the same requests. \<open>same_origin\<close> relates an entry to
  what \<open>Set\<close> turned it into: only internal headers and the expiry may differ.
\<close>

definition same_response :: "entry \<Rightarrow> entry \<Rightarrow> bool" where
  "same_response e f = (e_body e = e_body f \<and> e_header e = e_header f \<and> e_ctype e = e_ctype f \<and>
     e_status e = e_status f \<and> (\<forall>r. matches_vary (Some e) r = matches_vary (Some f) r))"

definition same_origin :: "entry \<Rightarrow> entry \<Rightarrow> bool" where
  "same_origin e f = (e_body e = e_body f \<and> e_ctype e = e_ctype f \<and> e_status e = e_status f \<and>
     e_vary e = e_vary f \<and> visible_header (e_header e) = visible_header (e_header f))"

definition deadline :: "int \<Rightarrow> int \<Rightarrow> int option" where
  "deadline now ttl = (if 0 < ttl then Some (now + ttl) else None)"

definition fresh :: "int \<Rightarrow> int option \<Rightarrow> bool" where
  "fresh now x = (case x of None \<Rightarrow> True | Some t \<Rightarrow> now \<le> t)"

text \<open>Nanosecond clocks and deadlines fit in \<open>int64\<close> (until the year 2262).\<close>

definition clock_ok :: "int \<Rightarrow> int \<Rightarrow> bool" where
  "clock_ok now ttl = (0 \<le> now \<and> now + max 0 ttl < 2 ^ 63)"

type_synonym 'k holding = "('k \<times> entry \<times> int option) set"

definition held_le :: "'k holding \<Rightarrow> 'k holding \<Rightarrow> bool" where
  "held_le A B = (\<forall>k e x. (k, e, x) \<in> A \<longrightarrow> (\<exists>f. (k, f, x) \<in> B \<and> same_response e f))"

text \<open>A predicate on slots and responses, closed under \<open>same_response\<close>, that every held entry
  satisfies holds of every answer.\<close>

definition every_held :: "('k \<Rightarrow> entry \<Rightarrow> bool) \<Rightarrow> 'k holding \<Rightarrow> bool" where
  "every_held P A = (\<forall>k e x. (k, e, x) \<in> A \<longrightarrow> P k e)"

lemma same_response_refl [simp, intro]: "same_response e e"
  by (simp add: same_response_def)

lemma same_response_sym: "same_response e f \<Longrightarrow> same_response f e"
  by (simp add: same_response_def)

lemma same_response_trans: "same_response e f \<Longrightarrow> same_response f g \<Longrightarrow> same_response e g"
  by (simp add: same_response_def)

lemma same_origin_refl [simp, intro]: "same_origin e e"
  by (simp add: same_origin_def)

lemma held_le_refl [simp, intro]: "held_le A A"
  by (auto simp: held_le_def)

lemma held_le_subset: "A \<subseteq> B \<Longrightarrow> held_le A B"
  by (auto simp: held_le_def)

lemma held_le_trans: "held_le A B \<Longrightarrow> held_le B C \<Longrightarrow> held_le A C"
  by (meson held_le_def same_response_trans)

lemma held_le_mono: "held_le A B \<Longrightarrow> B \<subseteq> C \<Longrightarrow> held_le A C"
  by (auto simp: held_le_def) blast

lemma held_le_Un: "held_le A C \<Longrightarrow> held_le B C \<Longrightarrow> held_le (A \<union> B) C"
  by (auto simp: held_le_def)

text \<open>
  The abstract store the implementations are compared with: a log of what was accepted and not
  since replaced, deleted or closed. \<open>serves f e\<close>: an answer \<open>f\<close> shows the client the response \<open>e\<close>.
\<close>

datatype store_call =
    CGet int string
  | CSet int string entry int
  | CDel string
  | CClose

definition serves :: "entry \<Rightarrow> entry \<Rightarrow> bool" where
  "serves f e = (e_body f = e_body e \<and> e_ctype f = e_ctype e \<and> e_status f = e_status e \<and>
     visible_header (e_header f) = visible_header (e_header e))"

fun call_step :: "'s store_ops \<Rightarrow> (string \<Rightarrow> 'k) \<Rightarrow> store_call \<Rightarrow> 's \<times> 'k holding \<Rightarrow> 's \<times> 'k holding" where
  "call_step ops slot (CGet now k) (s, log) = (snd (st_get ops now k s), log)"
| "call_step ops slot (CSet now k e ttl) (s, log) = (case st_set ops now k e ttl s of (ok, e', s') \<Rightarrow>
     (s', if ok then insert (slot k, e, deadline now ttl) {t \<in> log. fst t \<noteq> slot k} else log))"
| "call_step ops slot (CDel k) (s, log) = (st_del ops k s, {t \<in> log. fst t \<noteq> slot k})"
| "call_step ops slot CClose (s, log) = (st_close ops s, {})"

definition run_calls :: "'s store_ops \<Rightarrow> (string \<Rightarrow> 'k) \<Rightarrow> store_call list \<Rightarrow> 's \<Rightarrow> 's \<times> 'k holding" where
  "run_calls ops slot calls s = fold (call_step ops slot) calls (s, {})"

fun call_ok :: "(entry \<Rightarrow> bool) \<Rightarrow> store_call \<Rightarrow> bool" where
  "call_ok storable (CSet now k e ttl) = (storable e \<and> clock_ok now ttl)"
| "call_ok storable c = True"

definition log_le :: "'k holding \<Rightarrow> 'k holding \<Rightarrow> bool" where
  "log_le A log = (\<forall>k f x. (k, f, x) \<in> A \<longrightarrow> (\<exists>e. (k, e, x) \<in> log \<and> serves f e))"

lemma log_le_held: "held_le A B \<Longrightarrow> log_le B log \<Longrightarrow> log_le A log"
  unfolding held_le_def log_le_def serves_def same_response_def by metis

lemma log_le_insert:
  assumes "log_le B log" "same_origin e e'"
  shows "log_le (insert (k, e', x) {t \<in> B. fst t \<noteq> k}) (insert (k, e, x) {t \<in> log. fst t \<noteq> k})"
  using assms by (fastforce simp: log_le_def serves_def same_origin_def)

lemma log_le_remove: "log_le B log \<Longrightarrow> log_le {t \<in> B. fst t \<noteq> k} {t \<in> log. fst t \<noteq> k}"
  by (fastforce simp: log_le_def)

text \<open>
  The contract. \<open>held s\<close> is what the store may return: slot, entry, deadline. \<open>slot\<close> is the
  identity a store gives to a key (the key itself, or its hash), \<open>storable\<close> the entries it can
  represent.
\<close>

locale cache_store =
  fixes ops :: "'s store_ops"
    and inv :: "'s \<Rightarrow> bool"
    and held :: "'s \<Rightarrow> 'k holding"
    and slot :: "string \<Rightarrow> 'k"
    and storable :: "entry \<Rightarrow> bool"
  assumes get_inv: "inv s \<Longrightarrow> inv (snd (st_get ops now k s))"
    and get_held: "inv s \<Longrightarrow> held_le (held (snd (st_get ops now k s))) (held s)"
    and get_sound: "inv s \<Longrightarrow> st_get ops now k s = (Some e, s') \<Longrightarrow>
      \<exists>f x. (slot k, f, x) \<in> held s \<and> same_response e f \<and> fresh now x"
    and set_inv: "inv s \<Longrightarrow> storable e \<Longrightarrow> clock_ok now ttl \<Longrightarrow>
      st_set ops now k e ttl s = (ok, e', s') \<Longrightarrow> inv s'"
    and set_origin: "inv s \<Longrightarrow> storable e \<Longrightarrow> st_set ops now k e ttl s = (ok, e', s') \<Longrightarrow>
      same_origin e e' \<and> storable e'"
    and set_held: "inv s \<Longrightarrow> storable e \<Longrightarrow> clock_ok now ttl \<Longrightarrow>
      st_set ops now k e ttl s = (True, e', s') \<Longrightarrow>
      held_le (held s') (insert (slot k, e', deadline now ttl) {t \<in> held s. fst t \<noteq> slot k})"
    and set_fail: "inv s \<Longrightarrow> storable e \<Longrightarrow> st_set ops now k e ttl s = (False, e', s') \<Longrightarrow>
      held_le (held s') (held s)"
    and set_get: "inv s \<Longrightarrow> storable e \<Longrightarrow> clock_ok now ttl \<Longrightarrow>
      st_set ops now k e ttl s = (True, e', s') \<Longrightarrow> fresh now' (deadline now ttl) \<Longrightarrow>
      \<exists>f. fst (st_get ops now' k s') = Some f \<and> same_response f e'"
    and del_inv: "inv s \<Longrightarrow> inv (st_del ops k s)"
    and del_held: "inv s \<Longrightarrow> held_le (held (st_del ops k s)) {t \<in> held s. fst t \<noteq> slot k}"
    and close_inv: "inv s \<Longrightarrow> inv (st_close ops s)"
    and close_held: "inv s \<Longrightarrow> held (st_close ops s) = {}"
begin

text \<open>Facts every store owes its clients, proved once.\<close>

lemma get_after_del: "inv s \<Longrightarrow> slot k' = slot k \<Longrightarrow> fst (st_get ops now k' (st_del ops k s)) = None"
proof (rule ccontr)
  assume inv: "inv s" and k: "slot k' = slot k" and "fst (st_get ops now k' (st_del ops k s)) \<noteq> None"
  then obtain e s' where "st_get ops now k' (st_del ops k s) = (Some e, s')"
    by (cases "st_get ops now k' (st_del ops k s)") auto
  from get_sound [OF del_inv [OF inv] this] del_held [OF inv, of k] k show False
    by (auto simp: held_le_def)
qed

lemma get_after_close: "inv s \<Longrightarrow> fst (st_get ops now k (st_close ops s)) = None"
proof (rule ccontr)
  assume inv: "inv s" and "fst (st_get ops now k (st_close ops s)) \<noteq> None"
  then obtain e s' where "st_get ops now k (st_close ops s) = (Some e, s')"
    by (cases "st_get ops now k (st_close ops s)") auto
  from get_sound [OF close_inv [OF inv] this] close_held [OF inv] show False by simp
qed

lemma get_after_set_expired:
  assumes "inv s" "storable e" "clock_ok now ttl" "st_set ops now k e ttl s = (True, e', s')"
    and "0 < ttl" "now + ttl < now'"
  shows "fst (st_get ops now' k s') = None"
proof (rule ccontr)
  assume "fst (st_get ops now' k s') \<noteq> None"
  then obtain f s'' where "st_get ops now' k s' = (Some f, s'')"
    by (cases "st_get ops now' k s'") auto
  from get_sound [OF set_inv [OF assms(1-4)] this] obtain g x
    where g: "(slot k, g, x) \<in> held s'" "fresh now' x" by blast
  with set_held [OF assms(1-4)] have "x = deadline now ttl"
    by (fastforce simp: held_le_def)
  with g(2) assms(5,6) show False by (simp add: deadline_def fresh_def)
qed

lemma all_held_get:
  assumes "inv s" "every_held P (held s)" "\<And>k e f. same_response e f \<Longrightarrow> P k f \<Longrightarrow> P k e"
    and "st_get ops now k s = (r, s')"
  shows "every_held P (held s') \<and> (\<forall>e. r = Some e \<longrightarrow> P (slot k) e)"
proof
  show "every_held P (held s')"
    using get_held [OF assms(1), of now k] assms(2-4) unfolding every_held_def held_le_def
    by (metis snd_conv)
  show "\<forall>e. r = Some e \<longrightarrow> P (slot k) e"
    using get_sound [OF assms(1)] assms(2-4) unfolding every_held_def by metis
qed

lemma all_held_set:
  assumes "inv s" "every_held P (held s)" "\<And>k e f. same_response e f \<Longrightarrow> P k f \<Longrightarrow> P k e"
    and "storable e" "clock_ok now ttl" "st_set ops now k e ttl s = (ok, e', s')" "P (slot k) e'"
  shows "every_held P (held s')"
proof (cases ok)
  case True
  with assms(6) have "st_set ops now k e ttl s = (True, e', s')" by simp
  from set_held [OF assms(1,4,5) this] assms(2,3,7) show ?thesis
    unfolding every_held_def held_le_def by (metis (mono_tags, lifting) insertE mem_Collect_eq prod.inject)
next
  case False
  with assms(6) have "st_set ops now k e ttl s = (False, e', s')" by simp
  from set_fail [OF assms(1,4) this] assms(2,3) show ?thesis
    unfolding every_held_def held_le_def by metis
qed

lemma call_step_log:
  assumes "inv s" "log_le (held s) log" "call_ok storable c"
  shows "inv (fst (call_step ops slot c (s, log))) \<and>
    log_le (held (fst (call_step ops slot c (s, log)))) (snd (call_step ops slot c (s, log)))"
proof (cases c)
  case (CGet now k)
  with get_inv [OF assms(1)] log_le_held [OF get_held [OF assms(1)] assms(2)] show ?thesis by simp
next
  case (CSet now k e ttl)
  obtain ok e' s' where set: "st_set ops now k e ttl s = (ok, e', s')"
    by (cases "st_set ops now k e ttl s") auto
  from CSet assms(3) have ok: "storable e" "clock_ok now ttl" by simp_all
  have "log_le (held s') (snd (call_step ops slot c (s, log)))"
  proof (cases ok)
    case True
    then have "held_le (held s') (insert (slot k, e', deadline now ttl) {t \<in> held s. fst t \<noteq> slot k})"
      using set by (intro set_held [OF assms(1) ok]) simp
    moreover have "same_origin e e'" using set_origin [OF assms(1) ok(1) set] ..
    ultimately show ?thesis
      using CSet set True log_le_held log_le_insert [OF assms(2)] by fastforce
  next
    case False
    then have "held_le (held s') (held s)" using set by (intro set_fail [OF assms(1) ok(1)]) simp
    with CSet set False show ?thesis using log_le_held assms(2) by fastforce
  qed
  with CSet set set_inv [OF assms(1) ok set] show ?thesis by simp
next
  case (CDel k)
  with del_inv [OF assms(1)] log_le_held [OF del_held [OF assms(1)] log_le_remove [OF assms(2)]]
  show ?thesis by simp
next
  case CClose
  with close_inv [OF assms(1)] close_held [OF assms(1)] show ?thesis by (simp add: log_le_def)
qed

lemma run_calls_log:
  assumes "inv s" "held s = {}" "list_all (call_ok storable) calls"
  shows "inv (fst (run_calls ops slot calls s)) \<and>
    log_le (held (fst (run_calls ops slot calls s))) (snd (run_calls ops slot calls s))"
proof -
  have "inv (fst (fold (call_step ops slot) calls (s, log))) \<and>
      log_le (held (fst (fold (call_step ops slot) calls (s, log))))
        (snd (fold (call_step ops slot) calls (s, log)))"
    if "inv s" "log_le (held s) log" for s log
    using that assms(3)
  proof (induction calls arbitrary: s log)
    case (Cons c calls)
    have ok: "call_ok storable c" "list_all (call_ok storable) calls" using Cons.prems(3) by simp_all
    obtain s1 log1 where step: "call_step ops slot c (s, log) = (s1, log1)" by fastforce
    have "inv s1" "log_le (held s1) log1"
      using call_step_log [OF Cons.prems(1,2) ok(1)] unfolding step by simp_all
    from Cons.IH [OF this ok(2)] show ?case by (simp add: step)
  qed simp
  from this [of s "{}"] assms(1,2) show ?thesis by (simp add: run_calls_def log_le_def)
qed

text \<open>Every answer of a store after any calls was accepted, is not overwritten, deleted or expired.\<close>

lemma answers_logged:
  assumes "inv s" "held s = {}" "list_all (call_ok storable) calls"
    and "fst (st_get ops now k (fst (run_calls ops slot calls s))) = Some f"
  shows "\<exists>e x. (slot k, e, x) \<in> snd (run_calls ops slot calls s) \<and> serves f e \<and> fresh now x"
proof -
  let ?s = "fst (run_calls ops slot calls s)"
  note run = run_calls_log [OF assms(1-3)]
  obtain s' where "st_get ops now k ?s = (Some f, s')"
    using assms(4) by (cases "st_get ops now k ?s") auto
  then obtain g x where g: "(slot k, g, x) \<in> held ?s" "same_response f g" "fresh now x"
    using get_sound run by blast
  with run obtain e where "(slot k, e, x) \<in> snd (run_calls ops slot calls s)" "serves g e"
    unfolding log_le_def by blast
  with g show ?thesis unfolding serves_def same_response_def by metis
qed

end

text \<open>
  A store keyed by a 64-bit hash of the key, whose answers carry their deadline in \<open>ExpiresAt\<close>:
  what \<open>TieredStore\<close> needs of its second tier.
\<close>

locale hashed_store = cache_store ops inv held xx storable
  for ops :: "'s store_ops" and inv :: "'s \<Rightarrow> bool" and held :: "'s \<Rightarrow> 64 word holding"
    and xx :: "string \<Rightarrow> 64 word" and storable :: "entry \<Rightarrow> bool" +
  assumes get_expires: "inv s \<Longrightarrow> st_get ops now k s = (Some e, s') \<Longrightarrow>
      \<exists>f. (xx k, f, e_expires e) \<in> held s \<and> same_response e f \<and> fresh now (e_expires e)"
    and get_deadline: "inv s \<Longrightarrow> st_get ops now k s = (Some e, s') \<Longrightarrow> e_expires e \<noteq> Some 0"
    and storable_expires: "storable (e\<lparr>e_expires := x\<rparr>) = storable e"

section \<open>\<open>MemoryStore\<close>\<close>

record mem_item =
  mi_entry :: entry
  mi_expires :: "int option"

type_synonym memory_store = "(string, mem_item) gomap"

definition new_memory_store :: memory_store where
  "new_memory_store = []"

definition mem_get :: "int \<Rightarrow> string \<Rightarrow> memory_store \<Rightarrow> entry option \<times> memory_store" where
  "mem_get now key s = (case mget s key of
     None \<Rightarrow> (None, s)
   | Some item \<Rightarrow>
       (case mi_expires item of
          Some t \<Rightarrow> if now > t then (None, s) else (Some (mi_entry item), s)
        | None \<Rightarrow> (Some (mi_entry item), s)))"

definition mem_set :: "int \<Rightarrow> string \<Rightarrow> entry \<Rightarrow> int \<Rightarrow> memory_store \<Rightarrow> bool \<times> entry \<times> memory_store" where
  "mem_set now key ent ttl s = (let expi = (if 0 < ttl then Some (now + ttl) else None) in
     (True, ent, mput key \<lparr>mi_entry = ent, mi_expires = expi\<rparr> s))"

definition mem_del :: "string \<Rightarrow> memory_store \<Rightarrow> memory_store" where
  "mem_del key s = mdel key s"

definition mem_close :: "memory_store \<Rightarrow> memory_store" where
  "mem_close s = []"

definition memory_ops :: "memory_store store_ops" where
  "memory_ops = \<lparr>st_get = mem_get, st_set = mem_set, st_del = mem_del, st_close = mem_close\<rparr>"

definition mem_held :: "memory_store \<Rightarrow> string holding" where
  "mem_held s = {(k, mi_entry i, mi_expires i) | k i. mget s k = Some i}"

lemma mem_get_Some:
  "mem_get now k s = (Some e, s') \<longleftrightarrow> s' = s \<and> (\<exists>i. mget s k = Some i \<and> e = mi_entry i \<and> fresh now (mi_expires i))"
  by (auto simp: mem_get_def fresh_def split: option.splits if_splits)

lemma mem_get_state [simp]: "snd (mem_get now k s) = s"
  by (auto simp: mem_get_def split: option.splits)

interpretation memory: cache_store memory_ops mwf mem_held "\<lambda>k. k" "\<lambda>e. True"
proof
  fix s :: memory_store and now k e s'
  assume "st_get memory_ops now k s = (Some e, s')"
  then show "\<exists>f x. (k, f, x) \<in> mem_held s \<and> same_response e f \<and> fresh now x"
    by (auto simp: memory_ops_def mem_get_Some mem_held_def)
next
  fix s :: memory_store and e e' :: entry and now ttl now' :: int and k s'
  assume set: "st_set memory_ops now k e ttl s = (True, e', s')"
  then have s': "s' = mput k \<lparr>mi_entry = e', mi_expires = deadline now ttl\<rparr> s"
    by (auto simp: memory_ops_def mem_set_def deadline_def)
  then show "held_le (mem_held s') (insert (k, e', deadline now ttl) {t \<in> mem_held s. fst t \<noteq> k})"
    by (intro held_le_subset) (auto simp: mem_held_def map_simps split: if_splits)
  assume "fresh now' (deadline now ttl)"
  with s' show "\<exists>f. fst (st_get memory_ops now' k s') = Some f \<and> same_response f e'"
    by (auto simp: memory_ops_def mem_get_def map_simps fresh_def split: option.splits)
next
  fix s :: memory_store and k
  show "held_le (mem_held (st_del memory_ops k s)) {t \<in> mem_held s. fst t \<noteq> k}"
    by (intro held_le_subset)
      (auto simp: memory_ops_def mem_del_def mem_held_def map_simps split: if_splits)
qed (auto simp: memory_ops_def mem_set_def mem_del_def mem_close_def mem_held_def wf_intros)

section \<open>Properties\<close>

text \<open>
  C27: \<open>MemoryStore\<close> is a map with deadlines: a stored entry is returned until its deadline and not
  after it, a deleted key is gone, other keys are not affected.
\<close>

theorem memory_store_spec:
  assumes "mwf s"
  shows "fst (mem_get now' k (snd (snd (mem_set now k e ttl s)))) =
      (if fresh now' (deadline now ttl) then Some e else None) \<and>
    (k' \<noteq> k \<longrightarrow> fst (mem_get now' k' (snd (snd (mem_set now k e ttl s)))) = fst (mem_get now' k' s)) \<and>
    fst (mem_get now' k' (mem_del k s)) = (if k' = k then None else fst (mem_get now' k' s)) \<and>
    fst (mem_get now' k (mem_close s)) = None"
  using memory.get_after_close [OF assms, of now' k]
  by (auto simp: memory_ops_def mem_set_def mem_del_def mem_get_def map_simps fresh_def
      deadline_def split: option.splits)

theorem memory_store_spec_witness:
  "fst (mem_get 5 ''k'' (snd (snd (mem_set 0 ''k''
     \<lparr>e_body = ''x'', e_header = [], e_ctype = [], e_status = 200, e_created = 0, e_expires = None,
      e_vary = []\<rparr> 10 [])))) \<noteq> None"
  using memory_store_spec [of "[]" 5 "''k''" 0 _ 10 "''k''"] by (simp add: fresh_def deadline_def)

lemma is_internal_canon [simp]: "is_internal_key (canon_key k) = is_internal_key k"
proof -
  have "to_lower (canon_key k) = to_lower k"
    by (simp add: canon_key_def)
  then show ?thesis by (simp add: is_internal_key_def)
qed

lemma keys_fold_cl_add:
  "set (map fst (cl_header (fold (\<lambda>v w. cl_add k v w) vv w))) \<subseteq>
     insert (canon_key k) (set (map fst (cl_header w)))"
proof (induction vv arbitrary: w)
  case (Cons v vv)
  from Cons.IH [of "cl_add k v w"] show ?case
    using keys_mput [of "canon_key k" _ "cl_header w"] by (auto simp: hadd_def)
qed auto

lemma keys_cl_add_all:
  "set (map fst (cl_header (cl_add_all h w))) \<subseteq>
     canon_key ` set (map fst h) \<union> set (map fst (cl_header w))"
proof (induction h arbitrary: w)
  case (Cons x h)
  obtain k vv where x: "x = (k, vv)" by (cases x)
  let ?w = "fold (\<lambda>v w. cl_add k v w) vv w"
  have "set (map fst (cl_header (cl_add_all (x # h) w))) \<subseteq>
      canon_key ` set (map fst h) \<union> set (map fst (cl_header ?w))"
    using Cons.IH [of ?w] by (simp only: x cl_add_all_simps)
  also have "\<dots> \<subseteq> canon_key ` set (map fst (x # h)) \<union> set (map fst (cl_header w))"
    using keys_fold_cl_add [of k vv w] unfolding x by (simp only: list.map fst_conv) auto
  finally show ?case .
qed (simp add: cl_add_all_simps)

lemma keys_visible: "k \<in> set (map fst (visible_header h)) \<Longrightarrow> \<not> is_internal_key k"
  by (auto simp: visible_header_def)

lemma no_internal_sets:
  assumes "\<forall>k \<in> set (map fst (cl_header w)). \<not> is_internal_key k" "\<not> is_internal_key k"
  shows "\<forall>k \<in> set (map fst (cl_header (cl_set k v w))). \<not> is_internal_key k"
  using assms keys_mput [of "canon_key k" "[v]" "cl_header w"] by (auto simp: hset_def)

lemma no_internal_cl_add_all:
  assumes "\<forall>k \<in> set (map fst (cl_header w)). \<not> is_internal_key k"
  shows "\<forall>k \<in> set (map fst (cl_header (cl_add_all (visible_header h) w))). \<not> is_internal_key k"
proof
  fix k
  assume "k \<in> set (map fst (cl_header (cl_add_all (visible_header h) w)))"
  then consider q where "k = canon_key q" "q \<in> set (map fst (visible_header h))"
    | "k \<in> set (map fst (cl_header w))"
    using keys_cl_add_all [of "visible_header h" w] by blast
  then show "\<not> is_internal_key k"
  proof cases
    case 1
    then show ?thesis by (simp only: is_internal_canon keys_visible not_False_eq_True)
  next
    case 2
    with assms show ?thesis by blast
  qed
qed

lemma not_internal_literals [simp]:
  "\<not> is_internal_key ''Content-Type''" "\<not> is_internal_key ''X-Cache''"
  "\<not> is_internal_key ''X-Precog''"
  by code_simp+

lemma canon_key_literals [simp]:
  "canon_key ''X-Cache'' = ''X-Cache''" "canon_key ''X-Precog'' = ''X-Precog''"
  "canon_key ''Content-Type'' = ''Content-Type''"
  by code_simp+

lemma write_response_facts:
  assumes "cl_sent w = None" "cl_body w = []"
    and "\<forall>k \<in> set (map fst (cl_header w)). \<not> is_internal_key k"
  shows "\<exists>h. cl_sent (write_response e w) = Some (if 0 < e_status e then e_status e else 200, h) \<and>
    cl_body (write_response e w) = e_body e \<and> hget h ''X-Cache'' = ''HIT'' \<and>
    (\<forall>k \<in> set (map fst h). \<not> is_internal_key k)"
proof -
  define w1 where "w1 = cl_add_all (visible_header (e_header e)) w"
  define w2 where "w2 = (if e_ctype e \<noteq> [] \<and> hget (cl_header w1) ''Content-Type'' = []
    then cl_set ''Content-Type'' (e_ctype e) w1 else w1)"
  define w3 where "w3 = cl_set ''X-Cache'' ''HIT'' w2"
  define w4 where "w4 = cl_set ''X-Precog'' ''ram-cache'' w3"
  have w: "write_response e w = cl_write (e_body e)
      (cl_write_header (if 0 < e_status e then e_status e else 200) w4)"
    by (simp add: write_response_def Let_def w1_def w2_def w3_def w4_def del: cl_set_fields)
  have k1: "\<forall>k \<in> set (map fst (cl_header w1)). \<not> is_internal_key k"
    unfolding w1_def using assms(3) by (rule no_internal_cl_add_all)
  have k2: "\<forall>k \<in> set (map fst (cl_header w2)). \<not> is_internal_key k"
    using no_internal_sets [OF k1 not_internal_literals(1)] k1 by (simp add: w2_def)
  have k3: "\<forall>k \<in> set (map fst (cl_header w3)). \<not> is_internal_key k"
    unfolding w3_def by (rule no_internal_sets [OF k2 not_internal_literals(2)])
  have k4: "\<forall>k \<in> set (map fst (cl_header w4)). \<not> is_internal_key k"
    unfolding w4_def by (rule no_internal_sets [OF k3 not_internal_literals(3)])
  have f: "cl_sent w4 = None" "cl_body w4 = []"
    using assms(1,2) by (simp_all add: w1_def w2_def w3_def w4_def)
  have "hget (cl_header w4) ''X-Cache'' = ''HIT''"
    by (simp add: w4_def w3_def header_simps)
  with k4 f show ?thesis
    unfolding w by simp
qed

text \<open>
  replaying a cached entry on a fresh response sends exactly the entry's status (200 when it
  has none) and body, marks the response as a hit, and never sends an internal \<open>X-Precog-Vary\<close>
  header.
\<close>

theorem write_response_spec:
  assumes "cl_sent w = None" "cl_body w = []"
    and "\<forall>k \<in> set (map fst (cl_header w)). \<not> is_internal_key k"
  shows "\<exists>h. cl_sent (write_response e w) = Some (if 0 < e_status e then e_status e else 200, h) \<and>
    cl_body (write_response e w) = e_body e \<and> hget h ''X-Cache'' = ''HIT'' \<and>
    (\<forall>k \<in> set (map fst h). \<not> is_internal_key k)"
  using assms by (rule write_response_facts)

theorem write_response_spec_witness:
  "cl_body (write_response \<lparr>e_body = ''x'', e_header = [(''X-Precog-Vary-Accept'', [''a''])],
     e_ctype = ''text/plain'', e_status = 0, e_created = 0, e_expires = None, e_vary = []\<rparr> new_client) = ''x''"
  using write_response_spec [of new_client \<open>\<lparr>e_body = ''x'', e_header = [(''X-Precog-Vary-Accept'', [''a''])],
     e_ctype = ''text/plain'', e_status = 0, e_created = 0, e_expires = None, e_vary = []\<rparr>\<close>]
  by (auto simp: new_client_def)

end
