(* ===== verification/Vary.thy ===== *)
theory Vary
  imports Normalizer Store
begin

text \<open>
  The variant helpers at the end of \<open>middleware.go\<close>: the signature and key of a variant, and the map
  from the headers named by \<open>Vary\<close> to the values of the request that produced the response.
\<close>

text \<open>The loop of \<open>varySignature\<close>; \<open>i\<close> is the index of the part.\<close>

fun vary_sig_loop :: "nat \<Rightarrow> string list \<Rightarrow> request \<Rightarrow> string" where
  "vary_sig_loop i [] r = []"
| "vary_sig_loop i (p # ps) r = (let h = trim_space p in
     (if h \<noteq> [] then (if 0 < i then ''&'' else []) @ to_lower h @ ''='' @ hget (r_header r) h else []) @
     vary_sig_loop (Suc i) ps r)"

definition vary_signature :: "string \<Rightarrow> request \<Rightarrow> string" where
  "vary_signature varyHeader r = vary_sig_loop 0 (split (CHR '','') varyHeader) r"

text \<open>\<open>fmt.Sprintf("%x", h)\<close>.\<close>

definition format_hex :: "64 word \<Rightarrow> string" where
  "format_hex h = (case dropWhile (\<lambda>c. c = CHR ''0'') (hex_key h) of [] \<Rightarrow> ''0'' | s \<Rightarrow> s)"

definition vary_key :: "(string \<Rightarrow> 64 word) \<Rightarrow> string \<Rightarrow> string \<Rightarrow> request \<Rightarrow> string" where
  "vary_key xx primaryKey varyHeader r = (if varyHeader = [] \<or> varyHeader = ''*'' then primaryKey
     else primaryKey @ ''_v'' @ format_hex (xx (vary_signature varyHeader r)))"

definition vary_names :: "string \<Rightarrow> string list" where
  "vary_names varyHeader = filter (\<lambda>n. n \<noteq> []) (map trim_space (split (CHR '','') varyHeader))"

definition extract_vary_map :: "request \<Rightarrow> string \<Rightarrow> (string, string) gomap" where
  "extract_vary_map r varyHeader = (if varyHeader = [] \<or> varyHeader = ''*'' then []
     else fold (\<lambda>name m. mput name (hget (r_header r) name) m) (vary_names varyHeader) [])"

lemma fold_mput_mem:
  "(n, v) \<in> set (fold (\<lambda>name m. mput name (f name) m) ns m) \<Longrightarrow> (n, v) \<in> set m \<or> (n \<in> set ns \<and> v = f n)"
proof (induction ns arbitrary: m)
  case (Cons a ns)
  from Cons.prems have "(n, v) \<in> set (fold (\<lambda>name m. mput name (f name) m) ns (mput a (f a) m))" by simp
  from Cons.IH [OF this] set_mput_subset [of a "f a" m] show ?case by auto
qed simp

lemma extract_vary_mem:
  "(n, v) \<in> set (extract_vary_map r vh) \<Longrightarrow> n \<in> set (vary_names vh) \<and> v = hget (r_header r) n"
  using fold_mput_mem [of n v "\<lambda>n. hget (r_header r) n" "vary_names vh" "[]"]
  by (auto simp: extract_vary_map_def split: if_splits)

lemma fold_mput_keys:
  "fst ` set (fold (\<lambda>name m. mput name (f name) m) ns m) = set ns \<union> fst ` set m"
proof (induction ns arbitrary: m)
  case (Cons a ns)
  have "fst ` set (mput a (f a) m) = insert a (fst ` set m)"
    using keys_mput [of a "f a" m] by simp
  with Cons.IH [of "mput a (f a) m"] show ?case by auto
qed simp

lemma extract_vary_keys:
  "vh \<noteq> [] \<Longrightarrow> vh \<noteq> ''*'' \<Longrightarrow> fst ` set (extract_vary_map r vh) = set (vary_names vh)"
  using fold_mput_keys [of "\<lambda>n. hget (r_header r) n" "vary_names vh" "[]"]
  by (simp add: extract_vary_map_def)

lemma vary_sig_cong:
  "(\<And>n. n \<in> set (filter (\<lambda>n. n \<noteq> []) (map trim_space ps)) \<Longrightarrow> hget (r_header r) n = hget (r_header r') n) \<Longrightarrow>
    vary_sig_loop i ps r = vary_sig_loop i ps r'"
  by (induction ps arbitrary: i) (auto simp: Let_def)

section \<open>Properties\<close>

text \<open>
  C28: the recorded variant identifies exactly the requests that agree on the headers the response
  names: a response with \<open>Vary\<close> other than \<open>*\<close> and the map extracted from request \<open>r\<close> matches \<open>r'\<close> iff
  \<open>r'\<close> has the same values for all named headers, in particular it matches \<open>r\<close>; and then the two
  requests have the same variant key.
\<close>

theorem vary_variant_identity:
  assumes "hget (e_header e) ''Vary'' = vh" "vh \<noteq> ''*''" "e_vary e = extract_vary_map r vh"
  shows "(matches_vary (Some e) r' \<longleftrightarrow>
      vh = [] \<or> (\<forall>n \<in> set (vary_names vh). hget (r_header r') n = hget (r_header r) n)) \<and>
    matches_vary (Some e) r \<and>
    (matches_vary (Some e) r' \<longrightarrow> vary_key xx k vh r' = vary_key xx k vh r)"
proof -
  have m: "matches_vary (Some e) q \<longleftrightarrow>
      vh = [] \<or> (\<forall>n \<in> set (vary_names vh). hget (r_header q) n = hget (r_header r) n)" for q
  proof (cases "vh = []")
    case True
    with assms show ?thesis by (simp add: matches_vary_def extract_vary_map_def)
  next
    case False
    note keys = extract_vary_keys [OF False assms(2), of r]
    have "matches_vary (Some e) q \<longleftrightarrow> (\<forall>(n, v) \<in> set (extract_vary_map r vh). hget (r_header q) n = v)"
      using assms by (auto simp: matches_vary_def list_all_iff)
    also have "\<dots> \<longleftrightarrow> (\<forall>n \<in> set (vary_names vh). hget (r_header q) n = hget (r_header r) n)"
      using extract_vary_mem [of _ _ r vh] unfolding keys [symmetric] by fastforce
    finally show ?thesis using False by simp
  qed
  have "vary_key xx k vh r' = vary_key xx k vh r" if "matches_vary (Some e) r'"
  proof (cases "vh = []")
    case False
    with that m have "vary_signature vh r' = vary_signature vh r"
      unfolding vary_signature_def by (intro vary_sig_cong) (auto simp: vary_names_def)
    then show ?thesis by (simp add: vary_key_def)
  qed (simp add: vary_key_def)
  with m show ?thesis by blast
qed

theorem vary_variant_identity_witness:
  "matches_vary (Some \<lparr>e_body = [], e_header = [(''Vary'', [''Accept''])], e_ctype = [], e_status = 200,
     e_created = 0, e_expires = None, e_vary = extract_vary_map
       \<lparr>r_method = ''GET'', r_host = [], r_path = ''/'', r_query = [], r_header = [(''Accept'', [''a''])]\<rparr> ''Accept''\<rparr>)
     \<lparr>r_method = ''GET'', r_host = [], r_path = ''/'', r_query = [], r_header = [(''Accept'', [''a''])]\<rparr>"
proof -
  have v: "hget [(''Vary'', [''Accept''])] ''Vary'' = ''Accept''" by code_simp
  show ?thesis
    by (rule vary_variant_identity [THEN conjunct2, THEN conjunct1]) (simp_all add: v)
qed

end
