(* ===== verification/Sharded_Store.thy ===== *)
theory Sharded_Store
  imports Store
begin

text \<open>
  \<open>sharded_store.go\<close>: the sharded byte arena. A shard is an index from 64-bit hashes to 32-bit
  offsets and one growing byte buffer; an entry is a 28-byte little-endian header followed by
  content type, encoded headers and body. Lengths and offsets are stored at the code's widths,
  with the code's truncating conversions. Theorems about the codec come first, then the shard
  invariant and the interpretation of the contract \<open>cache_store\<close>.
\<close>

section \<open>Header codec\<close>

definition encode_values :: "string list \<Rightarrow> bytes" where
  "encode_values vv = concat (map (\<lambda>v. put_uint32 (of_nat (length v)) @ v) vv)"

definition encode_kv :: "string \<times> string list \<Rightarrow> bytes" where
  "encode_kv kv = (case kv of (k, vv) \<Rightarrow>
     put_uint16 (of_nat (length k)) @ k @ put_uint16 (of_nat (length vv)) @ encode_values vv)"

definition encode_headers :: "header \<Rightarrow> bytes" where
  "encode_headers h = (if h = [] then []
     else put_uint16 (of_nat (length h)) @ concat (map encode_kv h))"

text \<open>The loops of \<open>decodeHeaders\<close>, on the index \<open>idx\<close>; \<open>break\<close> ends the recursion.\<close>

fun decode_values :: "bytes \<Rightarrow> nat \<Rightarrow> nat \<Rightarrow> string list \<Rightarrow> string list \<times> nat" where
  "decode_values b 0 idx vals = (vals, idx)"
| "decode_values b (Suc n) idx vals =
     (if idx + 4 \<le> length b then
        (let vLen = unat (get_uint32 (go_slice idx (idx + 4) b)); idx1 = idx + 4 in
         if idx1 + vLen > length b then (vals, idx1)
         else decode_values b n (idx1 + vLen) (vals @ [go_slice idx1 (idx1 + vLen) b]))
      else (vals, idx))"

fun decode_loop :: "bytes \<Rightarrow> nat \<Rightarrow> nat \<Rightarrow> header \<Rightarrow> header" where
  "decode_loop b 0 idx h = h"
| "decode_loop b (Suc n) idx h =
     (if idx + 2 \<le> length b then
        (let kLen = unat (get_uint16 (go_slice idx (idx + 2) b)); idx1 = idx + 2 in
         if idx1 + kLen > length b then h
         else (let key = go_slice idx1 (idx1 + kLen) b; idx2 = idx1 + kLen in
           if idx2 + 2 > length b then h
           else (let numValues = unat (get_uint16 (go_slice idx2 (idx2 + 2) b));
                     (vals, idx3) = decode_values b numValues (idx2 + 2) []
                 in decode_loop b n idx3 (mput key vals h))))
      else h)"

definition decode_headers :: "bytes \<Rightarrow> header" where
  "decode_headers b = (if length b < 2 then []
     else decode_loop b (unat (get_uint16 (go_slice 0 2 b))) 2 [])"

definition header_fits :: "header \<Rightarrow> bool" where
  "header_fits h = (mwf h \<and> length h < 65536 \<and>
     (\<forall>(k, vv) \<in> set h. length k < 65536 \<and> length vv < 65536 \<and>
        (\<forall>v \<in> set vv. length v < 4294967296)))"

lemma encode_values_simps [simp]:
  "encode_values [] = []"
  "encode_values (v # vv) = put_uint32 (of_nat (length v)) @ v @ encode_values vv"
  by (simp_all add: encode_values_def)

lemma decode_encode_values:
  assumes "\<forall>v \<in> set vv. length v < 4294967296"
  shows "decode_values (pre @ encode_values vv @ post) (length vv) (length pre) vals =
    (vals @ vv, length pre + length (encode_values vv))"
  using assms
proof (induction vv arbitrary: pre vals)
  case (Cons v vv)
  let ?L = "put_uint32 (of_nat (length v))"
  let ?b = "pre @ encode_values (v # vv) @ post"
  have len: "unat (get_uint32 (go_slice (length pre) (length pre + 4) ?b)) = length v"
    using slice_offset [of pre 0 4 "encode_values (v # vv) @ post"] Cons.prems
    by (simp add: go_slice_def le_simps)
  have val: "go_slice (length pre + 4) (length pre + 4 + length v) ?b = v"
    using slice_offset [of "pre @ ?L" 0 "length v" "v @ encode_values vv @ post"]
    by (simp add: go_slice_def)
  have IH: "decode_values ((pre @ ?L @ v) @ encode_values vv @ post) (length vv)
      (length (pre @ ?L @ v)) (vals @ [v]) =
      ((vals @ [v]) @ vv, length (pre @ ?L @ v) + length (encode_values vv))"
    by (rule Cons.IH) (use Cons.prems in simp)
  show ?case
    using IH len val by (simp add: Let_def add.assoc)
qed simp

lemma decode_loop_step:
  assumes "unat (get_uint16 (go_slice idx (idx + 2) b)) = n"
    and "go_slice (idx + 2) (idx + 2 + n) b = key"
    and "unat (get_uint16 (go_slice (idx + 2 + n) (idx + 2 + n + 2) b)) = m"
    and "decode_values b m (idx + 2 + n + 2) [] = (vals, i)" "idx + 2 + n + 2 \<le> length b"
  shows "decode_loop b (Suc l) idx h = decode_loop b l i (mput key vals h)"
  using assms by (simp add: Let_def)

lemma decode_encode_loop:
  assumes "\<forall>(k, vv) \<in> set h. length k < 65536 \<and> length vv < 65536 \<and>
      (\<forall>v \<in> set vv. length v < 4294967296)"
    and "distinct (map fst (acc @ h))"
  shows "decode_loop (pre @ concat (map encode_kv h)) (length h) (length pre) acc = acc @ h"
  using assms
proof (induction h arbitrary: pre acc)
  case (Cons kv h)
  obtain k vv where kv: "kv = (k, vv)" by (cases kv)
  let ?K = "put_uint16 (of_nat (length k))" and ?N = "put_uint16 (of_nat (length vv))"
  let ?rest = "concat (map encode_kv h)"
  let ?b = "pre @ concat (map encode_kv (kv # h))"
  have b: "?b = pre @ ?K @ k @ ?N @ encode_values vv @ ?rest"
    by (simp add: kv encode_kv_def)
  from Cons.prems(1) have small: "length k < 65536" "length vv < 65536"
    "\<forall>v \<in> set vv. length v < 4294967296" by (simp_all add: kv)
  have klen: "unat (get_uint16 (go_slice (length pre) (length pre + 2) ?b)) = length k"
    unfolding b using slice_offset [of pre 0 2 "?K @ k @ ?N @ encode_values vv @ ?rest"] small
    by (simp add: go_slice_def le_simps)
  have key: "go_slice (length pre + 2) (length pre + 2 + length k) ?b = k"
    unfolding b using slice_offset [of "pre @ ?K" 0 "length k" "k @ ?N @ encode_values vv @ ?rest"]
    by (simp add: go_slice_def)
  have nlen: "unat (get_uint16 (go_slice (length pre + 2 + length k) (length pre + 2 + length k + 2) ?b))
      = length vv"
    unfolding b using slice_offset [of "pre @ ?K @ k" 0 2 "?N @ encode_values vv @ ?rest"] small
    by (simp add: go_slice_def le_simps add.assoc)
  have vals: "decode_values ?b (length vv) (length pre + 2 + length k + 2) [] =
      (vv, length pre + 2 + length k + 2 + length (encode_values vv))"
    unfolding b using decode_encode_values [OF small(3), of "pre @ ?K @ k @ ?N" ?rest "[]"]
    by (simp add: add.assoc)
  have fresh: "mput k vv acc = acc @ [kv]"
    using Cons.prems(2) by (simp add: kv mput_fresh map_of_eq_None_iff)
  have IH: "decode_loop ((pre @ ?K @ k @ ?N @ encode_values vv) @ ?rest) (length h)
      (length (pre @ ?K @ k @ ?N @ encode_values vv)) (acc @ [kv]) = (acc @ [kv]) @ h"
    by (rule Cons.IH) (use Cons.prems in auto)
  have fit: "length pre + 2 + length k + 2 \<le> length ?b" unfolding b by simp
  have "decode_loop ?b (Suc (length h)) (length pre) acc =
      decode_loop ?b (length h) (length pre + 2 + length k + 2 + length (encode_values vv)) (acc @ [kv])"
    unfolding fresh [symmetric] by (rule decode_loop_step [OF klen key nlen vals fit])
  also have "\<dots> = acc @ kv # h"
    using IH unfolding b by (simp add: add.assoc)
  finally show ?case by simp
qed simp

lemma decode_encode_headers: "header_fits h \<Longrightarrow> decode_headers (encode_headers h) = h"
  using decode_encode_loop [of h "[]" "put_uint16 (of_nat (length h))"]
  by (auto simp: header_fits_def encode_headers_def decode_headers_def go_slice_def le_simps)

text \<open>
  C14: encoding response headers and decoding them gives the headers back, whatever the order in
  which the map was visited, as long as the counts and lengths fit the 16- and 32-bit fields.
\<close>

theorem headers_roundtrip:
  "header_fits h \<Longrightarrow> decode_headers (encode_headers h) = h"
  by (rule decode_encode_headers)

theorem headers_roundtrip_witness:
  "decode_headers (encode_headers [(''Etag'', [''a'']), (''Vary'', [''Accept'', ''Origin''])]) =
     [(''Etag'', [''a'']), (''Vary'', [''Accept'', ''Origin''])]"
  by (rule headers_roundtrip) (simp add: header_fits_def)

section \<open>Shards\<close>

definition entryHeaderSize :: nat where
  "entryHeaderSize = 28"

definition DefaultShards :: int where
  "DefaultShards = 256"

definition DefaultMaxShardSize :: int where
  "DefaultMaxShardSize = 1024 * 1024"

record shard =
  sh_entries :: "(64 word, 32 word) gomap"
  sh_ring :: bytes
  sh_max :: "32 word"
  sh_closed :: bool

record sharded_store =
  ss_shards :: "shard list"
  ss_num :: "64 word"

record sharded_config =
  sc_num_shards :: int
  sc_max_cost_bytes :: int

definition shard_max_size :: "int \<Rightarrow> int \<Rightarrow> 32 word" where
  "shard_max_size numShards maxBytes = (let m = of_int (maxBytes div numShards) :: 32 word in
     if m < 64 * 1024 then 64 * 1024 else m)"

definition new_sharded_store :: "sharded_config option \<Rightarrow> sharded_store" where
  "new_sharded_store cfg = (let
     numShards = (case cfg of Some c \<Rightarrow> if 0 < sc_num_shards c then sc_num_shards c else DefaultShards
                  | None \<Rightarrow> DefaultShards);
     maxBytes = (case cfg of
         Some c \<Rightarrow> if 0 < sc_max_cost_bytes c then sc_max_cost_bytes c
                    else DefaultShards * DefaultMaxShardSize
       | None \<Rightarrow> DefaultShards * DefaultMaxShardSize);
     m = shard_max_size numShards maxBytes
   in \<lparr>ss_shards = replicate (nat numShards)
          \<lparr>sh_entries = [], sh_ring = [], sh_max = m, sh_closed = False\<rparr>,
       ss_num = of_int numShards\<rparr>)"

definition shard_index :: "64 word \<Rightarrow> sharded_store \<Rightarrow> nat" where
  "shard_index h s = unat (h mod ss_num s)"

definition shard_for :: "64 word \<Rightarrow> sharded_store \<Rightarrow> shard" where
  "shard_for h s = ss_shards s ! shard_index h s"

definition put_shard :: "64 word \<Rightarrow> shard \<Rightarrow> sharded_store \<Rightarrow> sharded_store" where
  "put_shard h sh s = s\<lparr>ss_shards := (ss_shards s)[shard_index h s := sh]\<rparr>"

subsection \<open>\<open>Get\<close>\<close>

record entry_head =
  eh_expire :: int
  eh_hash :: "64 word"
  eh_status :: int
  eh_ct_len :: nat
  eh_hdr_len :: nat
  eh_body_len :: nat

definition read_head :: "bytes \<Rightarrow> nat \<Rightarrow> entry_head" where
  "read_head ring offset = \<lparr>
     eh_expire = sint (get_uint64 (go_slice offset (offset + 8) ring)),
     eh_hash = get_uint64 (go_slice (offset + 8) (offset + 16) ring),
     eh_status = uint (get_uint16 (go_slice (offset + 16) (offset + 18) ring)),
     eh_ct_len = unat (get_uint16 (go_slice (offset + 18) (offset + 20) ring)),
     eh_hdr_len = unat (get_uint32 (go_slice (offset + 20) (offset + 24) ring)),
     eh_body_len = unat (get_uint32 (go_slice (offset + 24) (offset + 28) ring))\<rparr>"

definition vary_prefix :: string where
  "vary_prefix = ''x-precog-vary-''"

text \<open>The loop that rebuilds \<open>varyMap\<close> from the internal headers.\<close>

definition vary_pairs :: "header \<Rightarrow> (string \<times> string) list" where
  "vary_pairs hdr = map (\<lambda>(k, vv). (drop (length vary_prefix) k, hd vv))
     (filter (\<lambda>(k, vv). has_prefix (to_lower k) vary_prefix \<and> vv \<noteq> []) hdr)"

definition put_pairs :: "(string \<times> string) list \<Rightarrow> (string, string) gomap" where
  "put_pairs ps = fold (\<lambda>(k, v) m. mput k v m) ps []"

definition vary_map_of :: "header \<Rightarrow> (string, string) gomap" where
  "vary_map_of hdr = put_pairs (vary_pairs hdr)"

text \<open>The part of \<open>GetByHash\<close> after the hash and expiry checks.\<close>

definition read_payload :: "int \<Rightarrow> bytes \<Rightarrow> nat \<Rightarrow> entry_head \<Rightarrow> entry option" where
  "read_payload now ring offset ehd = (let cursor = offset + entryHeaderSize in
     if cursor + eh_ct_len ehd + eh_hdr_len ehd + eh_body_len ehd > length ring then None
     else (let
         contentType = go_slice cursor (cursor + eh_ct_len ehd) ring;
         c1 = cursor + eh_ct_len ehd;
         hdr = decode_headers (go_slice c1 (c1 + eh_hdr_len ehd) ring);
         c2 = c1 + eh_hdr_len ehd;
         varyMap = vary_map_of hdr;
         body = go_slice c2 (c2 + eh_body_len ehd) ring;
         expTime = (if 0 < eh_expire ehd then Some (eh_expire ehd) else None)
       in Some \<lparr>e_body = body, e_header = hdr, e_ctype = contentType, e_status = eh_status ehd,
                e_created = now, e_expires = expTime, e_vary = varyMap\<rparr>))"

definition shard_get :: "int \<Rightarrow> 64 word \<Rightarrow> shard \<Rightarrow> entry option" where
  "shard_get now h sh = (if sh_closed sh then None
     else (case mget (sh_entries sh) h of
       None \<Rightarrow> None
     | Some off \<Rightarrow>
        (let offset = unat off; ehd = read_head (sh_ring sh) offset in
         if offset + entryHeaderSize > length (sh_ring sh) then None
         else if eh_hash ehd \<noteq> h then None
         else if 0 < eh_expire ehd \<and> now > eh_expire ehd then None
         else read_payload now (sh_ring sh) offset ehd)))"

definition get_by_hash :: "int \<Rightarrow> 64 word \<Rightarrow> sharded_store \<Rightarrow> entry option" where
  "get_by_hash now h s = shard_get now h (shard_for h s)"

subsection \<open>\<open>Set\<close>\<close>

definition vary_key_name :: "string \<Rightarrow> string" where
  "vary_key_name k = ''X-Precog-Vary-'' @ to_lower k"

definition persist_vary :: "entry \<Rightarrow> header" where
  "persist_vary e = fold (\<lambda>(k, v) h. hset (vary_key_name k) v h) (e_vary e) (e_header e)"

definition entry_bytes :: "64 word \<Rightarrow> int \<Rightarrow> entry \<Rightarrow> bytes" where
  "entry_bytes h expireNano e = (let hdrBytes = encode_headers (e_header e) in
     put_uint64 (of_int expireNano) @ put_uint64 h @ put_uint16 (of_int (e_status e)) @
     put_uint16 (of_nat (length (e_ctype e))) @ put_uint32 (of_nat (length hdrBytes)) @
     put_uint32 (of_nat (length (e_body e))) @ e_ctype e @ hdrBytes @ e_body e)"

definition entry_len :: "entry \<Rightarrow> nat" where
  "entry_len e = entryHeaderSize + length (e_ctype e) + length (encode_headers (e_header e)) +
     length (e_body e)"

definition shard_set :: "64 word \<Rightarrow> int \<Rightarrow> entry \<Rightarrow> shard \<Rightarrow> bool \<times> shard" where
  "shard_set h expireNano e sh = (let total = of_nat (entry_len e) :: 32 word in
     if sh_closed sh then (False, sh)
     else if total > sh_max sh then (False, sh)
     else (let
         sh1 = (if of_nat (length (sh_ring sh)) + total > sh_max sh
                then sh\<lparr>sh_ring := [], sh_entries := []\<rparr> else sh);
         offset = of_nat (length (sh_ring sh1)) :: 32 word
       in (True, sh1\<lparr>sh_ring := sh_ring sh1 @ entry_bytes h expireNano e,
                     sh_entries := mput h offset (sh_entries sh1)\<rparr>)))"

definition set_by_hash ::
  "int \<Rightarrow> 64 word \<Rightarrow> entry \<Rightarrow> int \<Rightarrow> sharded_store \<Rightarrow> bool \<times> entry \<times> sharded_store" where
  "set_by_hash now h e ttl s = (let
     expireNano = (if 0 < ttl then now + ttl else 0);
     e1 = (if 0 < ttl then e\<lparr>e_expires := Some expireNano\<rparr> else e);
     e2 = e1\<lparr>e_header := persist_vary e1\<rparr>;
     (ok, sh) = shard_set h expireNano e2 (shard_for h s)
   in (ok, e2, put_shard h sh s))"

subsection \<open>\<open>Del\<close>, \<open>Close\<close> and the \<open>Store\<close> operations\<close>

definition del_by_hash :: "64 word \<Rightarrow> sharded_store \<Rightarrow> sharded_store" where
  "del_by_hash h s = (let sh = shard_for h s in
     if \<not> sh_closed sh then put_shard h (sh\<lparr>sh_entries := mdel h (sh_entries sh)\<rparr>) s else s)"

definition sharded_close :: "sharded_store \<Rightarrow> sharded_store" where
  "sharded_close s = s\<lparr>ss_shards :=
     map (\<lambda>sh. sh\<lparr>sh_closed := True, sh_ring := [], sh_entries := []\<rparr>) (ss_shards s)\<rparr>"

definition sharded_ops :: "(string \<Rightarrow> 64 word) \<Rightarrow> sharded_store store_ops" where
  "sharded_ops xx = \<lparr>st_get = (\<lambda>now key s. (get_by_hash now (xx key) s, s)),
     st_set = (\<lambda>now key e ttl s. set_by_hash now (xx key) e ttl s),
     st_del = (\<lambda>key s. del_by_hash (xx key) s),
     st_close = sharded_close\<rparr>"

section \<open>\<open>Vary\<close> through the internal headers\<close>

text \<open>
  An entry is \<open>vary_ok\<close> if its \<open>Vary\<close> map is what \<open>extractVaryMap\<close> builds: token names, names equal
  up to case carry the same value, and the only internal headers are the ones of these names.
\<close>

definition vary_consistent :: "(string \<times> string) list \<Rightarrow> bool" where
  "vary_consistent vs = (\<forall>n v n' v'. (n, v) \<in> set vs \<longrightarrow> (n', v') \<in> set vs \<longrightarrow>
     to_lower n = to_lower n' \<longrightarrow> v = v')"

definition vary_ok :: "entry \<Rightarrow> bool" where
  "vary_ok e = (
     (\<forall>(n, v) \<in> set (e_vary e). list_all is_token_char n) \<and>
     vary_consistent (e_vary e) \<and>
     (\<forall>k \<in> set (map fst (e_header e)). has_prefix (to_lower k) vary_prefix \<longrightarrow>
        (\<exists>(n, v) \<in> set (e_vary e). k = canon_key (vary_key_name n))))"

lemma token_vary_prefix: "list_all is_token_char ''X-Precog-Vary-''"
  by code_simp

lemma canon_vary_key:
  assumes "list_all is_token_char n"
  shows "canon_key (vary_key_name n) = ''X-Precog-Vary-'' @ canon_key n"
proof -
  have h: "''X-Precog-Vary-'' @ to_lower n = ''X-Precog-Vary'' @ CHR ''-'' # to_lower n" by simp
  have c: "canon_from True ''X-Precog-Vary'' = ''X-Precog-Vary''" by code_simp
  have t: "list_all is_token_char (vary_key_name n)"
    using token_vary_prefix token_to_lower [OF assms] by (simp add: vary_key_name_def)
  have "canon_key (vary_key_name n) = canon_from True (''X-Precog-Vary'' @ CHR ''-'' # to_lower n)"
    using t by (simp add: canon_key_def vary_key_name_def h)
  also have "\<dots> = ''X-Precog-Vary'' @ CHR ''-'' # canon_from True (to_lower n)"
    unfolding canon_from_append_hyphen c by (rule refl)
  finally show ?thesis
    using assms by (simp add: canon_key_def)
qed

lemma lower_vary_key: "has_prefix (to_lower (canon_key (vary_key_name n))) vary_prefix"
proof -
  have "to_lower (canon_key k) = to_lower k" for k
    by (simp add: canon_key_def)
  moreover have "to_lower ''X-Precog-Vary-'' = vary_prefix" by code_simp
  ultimately have "to_lower (canon_key (vary_key_name n)) = vary_prefix @ to_lower n"
    by (simp add: vary_key_name_def del: append.simps)
  then show ?thesis by simp
qed

lemma vary_prefix_internal:
  assumes "has_prefix (to_lower k) vary_prefix"
  shows "is_internal_key k"
proof -
  have "vary_prefix = ''x-precog-vary'' @ ''-''" by (simp add: vary_prefix_def)
  with assms show ?thesis
    unfolding is_internal_key_def has_prefix_iff by (metis append.assoc)
qed

lemma canon_eq_lower_eq:
  assumes "canon_key (vary_key_name n) = canon_key (vary_key_name n')"
  shows "to_lower n = to_lower n'"
proof -
  have "to_lower (canon_key (vary_key_name m)) = to_lower ''X-Precog-Vary-'' @ to_lower m" for m
    by (simp add: canon_key_def vary_key_name_def)
  with assms show ?thesis by (metis same_append_eq)
qed

lemma mget_fold_hset_other:
  "\<forall>(n, v) \<in> set vs. q \<noteq> canon_key (vary_key_name n) \<Longrightarrow>
    mget (fold (\<lambda>(k, v) h. hset (vary_key_name k) v h) vs h) q = mget h q"
  by (induction vs arbitrary: h) (auto simp: hset_def map_simps)

lemma mget_fold_hset:
  "vary_consistent vs \<Longrightarrow> (n, v) \<in> set vs \<Longrightarrow>
    mget (fold (\<lambda>(k, v) h. hset (vary_key_name k) v h) vs h) (canon_key (vary_key_name n)) = Some [v]"
proof (induction vs arbitrary: h n v)
  case (Cons x vs)
  obtain m w where x: "x = (m, w)" by (cases x)
  have con: "vary_consistent vs"
    using Cons.prems(1) by (auto simp: vary_consistent_def)
  show ?case
  proof (cases "\<exists>n' v'. (n', v') \<in> set vs \<and> canon_key (vary_key_name n) = canon_key (vary_key_name n')")
    case True
    then obtain n' v' where n': "(n', v') \<in> set vs" "canon_key (vary_key_name n) = canon_key (vary_key_name n')"
      by blast
    from n'(2) have "to_lower n = to_lower n'" by (rule canon_eq_lower_eq)
    with Cons.prems n'(1) have "v' = v"
      unfolding vary_consistent_def by (metis list.set_intros(2))
    with Cons.IH [OF con n'(1)] n'(2) show ?thesis by (simp add: x)
  next
    case False
    with Cons.prems(2) have "x = (n, v)" by auto
    from False have f: "\<forall>(n', v') \<in> set vs. canon_key (vary_key_name n) \<noteq> canon_key (vary_key_name n')"
      by blast
    show ?thesis
      by (simp add: \<open>x = (n, v)\<close> mget_fold_hset_other [OF f]) (simp add: hset_def map_simps)
  qed
qed simp

lemma mget_persist_vary:
  assumes "vary_ok e"
  shows "(n, v) \<in> set (e_vary e) \<Longrightarrow> mget (persist_vary e) (canon_key (vary_key_name n)) = Some [v]"
    and "\<forall>(n, v) \<in> set (e_vary e). q \<noteq> canon_key (vary_key_name n) \<Longrightarrow>
      mget (persist_vary e) q = mget (e_header e) q"
  using assms by (auto simp: persist_vary_def mget_fold_hset mget_fold_hset_other vary_ok_def)

lemma mwf_persist_vary: "mwf (e_header e) \<Longrightarrow> mwf (persist_vary e)"
proof -
  have "mwf h \<Longrightarrow> mwf (fold (\<lambda>(k, v) h. hset (vary_key_name k) v h) vs h)" for vs h
    by (induction vs arbitrary: h) (auto simp: wf_intros)
  then show "mwf (e_header e) \<Longrightarrow> mwf (persist_vary e)" by (simp add: persist_vary_def)
qed

lemma hset_same: "mget h (canon_key k) = Some [v] \<Longrightarrow> hset k v h = h"
  by (simp add: hset_def update_triv)

lemma fold_hset_same:
  "\<forall>(n, v) \<in> set vs. mget h (canon_key (vary_key_name n)) = Some [v] \<Longrightarrow>
    fold (\<lambda>(k, v) h. hset (vary_key_name k) v h) vs h = h"
  by (induction vs) (auto simp: hset_same)

lemma persist_vary_idem:
  "vary_ok e \<Longrightarrow> persist_vary (e\<lparr>e_header := persist_vary e\<rparr>) = persist_vary e"
  using mget_persist_vary(1) [of e]
  by (subst persist_vary_def) (auto intro!: fold_hset_same)

lemma filter_update_false: "\<forall>w. \<not> P (k, w) \<Longrightarrow> filter P (AList.update k v m) = filter P m"
  by (induction m) auto

lemma visible_hset_internal: "is_internal_key (vary_key_name n) \<Longrightarrow>
    visible_header (hset (vary_key_name n) v h) = visible_header h"
  by (simp add: visible_header_def hset_def filter_update_false)

lemma internal_vary_key: "is_internal_key (vary_key_name n)"
  using vary_prefix_internal [OF lower_vary_key, of n] by simp

lemma visible_persist_vary: "visible_header (persist_vary e) = visible_header (e_header e)"
proof -
  have "visible_header (fold (\<lambda>(k, v) h. hset (vary_key_name k) v h) vs h) = visible_header h" for vs h
    by (induction vs arbitrary: h) (auto simp: visible_hset_internal internal_vary_key)
  then show ?thesis by (simp add: persist_vary_def)
qed

lemma keys_persist_vary:
  assumes "vary_ok e" "k \<in> set (map fst (persist_vary e))" "has_prefix (to_lower k) vary_prefix"
  shows "\<exists>(n, v) \<in> set (e_vary e). k = canon_key (vary_key_name n)"
proof (rule ccontr)
  assume no: "\<not> ?thesis"
  then have "\<forall>(n, v) \<in> set (e_vary e). k \<noteq> canon_key (vary_key_name n)" by blast
  from mget_persist_vary(2) [OF assms(1) this] have "k \<in> set (map fst (e_header e))"
    using assms(2) by (metis list.set_map map_of_eq_None_iff)
  with assms(1,3) no show False by (auto simp: vary_ok_def)
qed

lemma vary_ok_persist: "vary_ok e \<Longrightarrow> vary_ok (e\<lparr>e_header := persist_vary e\<rparr>)"
  using keys_persist_vary [of e] by (auto simp: vary_ok_def)

subsection \<open>The rebuilt \<open>Vary\<close> map matches the same requests\<close>

lemma put_pairs_aux:
  "set (fold (\<lambda>(k, v) m. mput k v m) ps m) \<subseteq> set ps \<union> set m"
  "fst ` set (fold (\<lambda>(k, v) m. mput k v m) ps m) = fst ` set ps \<union> fst ` set m"
proof (induction ps arbitrary: m)
  case (Cons p ps)
  obtain k v where p: "p = (k, v)" by (cases p)
  {
    case 1
    from Cons.IH(1) [of "mput k v m"] set_mput_subset [of k v m] show ?case by (auto simp: p)
  next
    case 2
    from Cons.IH(2) [of "mput k v m"] show ?case by (auto simp: p dom_update)
  }
qed auto

lemma list_all_put_pairs:
  assumes "\<forall>n v v'. (n, v) \<in> set ps \<longrightarrow> (n, v') \<in> set ps \<longrightarrow> v = v'"
  shows "list_all Q (put_pairs ps) = list_all Q ps"
proof -
  have sub: "set (put_pairs ps) \<subseteq> set ps" and dom: "fst ` set (put_pairs ps) = fst ` set ps"
    using put_pairs_aux [of ps "[]"] by (auto simp: put_pairs_def)
  have "set ps \<subseteq> set (put_pairs ps)"
  proof
    fix x
    assume "x \<in> set ps"
    with dom have "fst x \<in> fst ` set (put_pairs ps)" by blast
    then obtain v' where "(fst x, v') \<in> set (put_pairs ps)" by force
    with sub assms \<open>x \<in> set ps\<close> show "x \<in> set (put_pairs ps)"
      by (metis prod.collapse subsetD)
  qed
  with sub show ?thesis by (auto simp: list_all_iff)
qed

lemma set_vary_pairs_persist:
  assumes "vary_ok e" "mwf (e_header e)"
  shows "set (vary_pairs (persist_vary e)) = (\<lambda>(n, v). (canon_key n, v)) ` set (e_vary e)"
proof -
  have w: "mwf (persist_vary e)" using assms(2) by (rule mwf_persist_vary)
  have tok: "(n, v) \<in> set (e_vary e) \<Longrightarrow> list_all is_token_char n" for n v
    using assms(1) by (auto simp: vary_ok_def)
  have name: "(n, v) \<in> set (e_vary e) \<Longrightarrow>
      drop (length vary_prefix) (canon_key (vary_key_name n)) = canon_key n" for n v
    using canon_vary_key [OF tok] by (simp add: vary_prefix_def)
  have mem: "(n, v) \<in> set (e_vary e) \<Longrightarrow> (canon_key (vary_key_name n), [v]) \<in> set (persist_vary e)" for n v
    using mget_persist_vary(1) [OF assms(1)] by (auto dest: map_of_SomeD)
  show ?thesis
  proof (intro equalityI subsetI)
    fix x
    assume "x \<in> set (vary_pairs (persist_vary e))"
    then obtain k vv where kv: "(k, vv) \<in> set (persist_vary e)" "has_prefix (to_lower k) vary_prefix"
      and x: "x = (drop (length vary_prefix) k, hd vv)"
      by (auto simp: vary_pairs_def)
    from kv have "k \<in> set (map fst (persist_vary e))" by force
    with keys_persist_vary [OF assms(1) _ kv(2)] obtain n v
      where nv: "(n, v) \<in> set (e_vary e)" "k = canon_key (vary_key_name n)" by auto
    from w kv(1) have "mget (persist_vary e) k = Some vv" by simp
    with mget_persist_vary(1) [OF assms(1) nv(1)] nv(2) have "vv = [v]" by simp
    with x nv name [OF nv(1)] show "x \<in> (\<lambda>(n, v). (canon_key n, v)) ` set (e_vary e)" by force
  next
    fix x
    assume "x \<in> (\<lambda>(n, v). (canon_key n, v)) ` set (e_vary e)"
    then obtain n v where nv: "(n, v) \<in> set (e_vary e)" "x = (canon_key n, v)" by auto
    with mem [OF nv(1)] name [OF nv(1)] lower_vary_key [of n]
    show "x \<in> set (vary_pairs (persist_vary e))"
      by (force simp: vary_pairs_def)
  qed
qed

lemma list_all_vary_map_of:
  assumes "vary_ok e" "mwf (e_header e)"
  shows "list_all (\<lambda>(n, v). hget h n = v) (vary_map_of (persist_vary e)) =
    list_all (\<lambda>(n, v). hget h n = v) (e_vary e)"
proof -
  have pairs: "set (vary_pairs (persist_vary e)) = (\<lambda>(n, v). (canon_key n, v)) ` set (e_vary e)"
    using assms by (rule set_vary_pairs_persist)
  have low: "to_lower (canon_key n) = to_lower n" for n by (simp add: canon_key_def)
  have "\<forall>n v v'. (n, v) \<in> set (vary_pairs (persist_vary e)) \<longrightarrow>
      (n, v') \<in> set (vary_pairs (persist_vary e)) \<longrightarrow> v = v'"
    using assms(1) unfolding pairs vary_ok_def vary_consistent_def by (auto) (metis low)
  then have "list_all (\<lambda>(n, v). hget h n = v) (vary_map_of (persist_vary e)) =
      list_all (\<lambda>(n, v). hget h n = v) (vary_pairs (persist_vary e))"
    by (simp add: vary_map_of_def list_all_put_pairs)
  then show ?thesis
    unfolding list_all_iff pairs by auto
qed

lemma list_all_vary_Nil: "vs = [] \<or> list_all Q vs \<longleftrightarrow> list_all Q vs"
  by auto

lemma matches_vary_Some:
  "matches_vary (Some e) r \<longleftrightarrow> hget (e_header e) ''Vary'' \<noteq> ''*'' \<and>
     list_all (\<lambda>(n, v). hget (r_header r) n = v) (e_vary e)"
  by (auto simp: matches_vary_def)

lemma matches_vary_decoded:
  assumes "vary_ok e" "mwf (e_header e)" "e_header f = persist_vary e" "e_header g = persist_vary e"
    and "e_vary f = vary_map_of (persist_vary e)" "e_vary g = e_vary e"
  shows "matches_vary (Some f) r = matches_vary (Some g) r"
  using assms by (simp add: matches_vary_Some list_all_vary_map_of)

section \<open>Entries in the ring\<close>

text \<open>
  \<open>storable\<close>: the sizes fit the width of their fields and the internal headers are consistent.
  \<open>stored_at\<close> is what the ring holds for a hash at an offset, without the expiry check.
\<close>

definition storable :: "entry \<Rightarrow> bool" where
  "storable e = (vary_ok e \<and> mwf (e_header e) \<and> header_fits (persist_vary e) \<and>
     length (e_ctype e) < 65536 \<and> 0 \<le> e_status e \<and> e_status e < 65536 \<and>
     entry_len (e\<lparr>e_header := persist_vary e\<rparr>) < 4294967296)"

definition stored_at :: "bytes \<Rightarrow> nat \<Rightarrow> 64 word \<Rightarrow> entry option" where
  "stored_at ring off h = (if off + entryHeaderSize > length ring \<or> eh_hash (read_head ring off) \<noteq> h
     then None else read_payload 0 ring off (read_head ring off))"

definition canonical_entry :: "int \<Rightarrow> entry \<Rightarrow> entry" where
  "canonical_entry expireNano e = \<lparr>e_body = e_body e, e_header = e_header e, e_ctype = e_ctype e,
     e_status = e_status e, e_created = 0,
     e_expires = (if 0 < expireNano then Some expireNano else None),
     e_vary = vary_map_of (e_header e)\<rparr>"

lemma read_payload_created:
  "read_payload now ring off ehd = map_option (\<lambda>e. e\<lparr>e_created := now\<rparr>) (read_payload 0 ring off ehd)"
  by (simp add: read_payload_def Let_def)

lemma read_payload_expires:
  "read_payload now ring off ehd = Some e \<Longrightarrow>
    e_expires e = (if 0 < eh_expire ehd then Some (eh_expire ehd) else None)"
  by (auto simp: read_payload_def Let_def split: if_splits)

lemma shard_get_eq:
  "shard_get now h sh = (if sh_closed sh then None else (case mget (sh_entries sh) h of
     None \<Rightarrow> None
   | Some off \<Rightarrow> (case stored_at (sh_ring sh) (unat off) h of
       None \<Rightarrow> None
     | Some e \<Rightarrow> if fresh now (e_expires e) then Some (e\<lparr>e_created := now\<rparr>) else None)))"
proof (cases "mget (sh_entries sh) h")
  case (Some off)
  let ?ehd = "read_head (sh_ring sh) (unat off)"
  show ?thesis
  proof (cases "read_payload 0 (sh_ring sh) (unat off) ?ehd")
    case None
    with Some show ?thesis
      by (simp add: shard_get_def Let_def stored_at_def read_payload_created [of now])
  next
    case (Some e)
    from read_payload_expires [OF Some] Some \<open>mget (sh_entries sh) h = Some off\<close> show ?thesis
      by (auto simp: shard_get_def Let_def stored_at_def read_payload_created [of now] fresh_def)
  qed
qed (simp add: shard_get_def)

lemma stored_at_expires: "stored_at ring off h = Some e \<Longrightarrow> e_expires e \<noteq> Some 0"
  by (auto simp: stored_at_def split: if_splits dest: read_payload_expires)

lemma read_head_append:
  "off + 28 \<le> length ring \<Longrightarrow> read_head (ring @ zs) off = read_head ring off"
  by (simp add: read_head_def slice_append_left)

lemma read_payload_append:
  "read_payload now ring off ehd = Some e \<Longrightarrow> read_payload now (ring @ zs) off ehd = Some e"
  by (auto simp: read_payload_def Let_def slice_append_left split: if_splits)

lemma stored_at_append: "stored_at ring off h = Some e \<Longrightarrow> stored_at (ring @ zs) off h = Some e"
  by (auto simp: stored_at_def entryHeaderSize_def read_head_append read_payload_append split: if_splits)

lemma length_entry_bytes: "length (entry_bytes h exp e) = entry_len e"
  by (simp add: entry_bytes_def entry_len_def Let_def entryHeaderSize_def)

lemma sint_of_int64: "0 \<le> x \<Longrightarrow> x < 2 ^ 63 \<Longrightarrow> sint (of_int x :: 64 word) = x"
  by (simp add: signed_of_int signed_take_bit_int_eq_self)

lemma uint_of_int16: "0 \<le> x \<Longrightarrow> x < 65536 \<Longrightarrow> uint (of_int x :: 16 word) = x"
  by (simp add: unsigned_of_int take_bit_int_eq_self)

lemma read_head_new:
  assumes "0 \<le> exp" "exp < 2 ^ 63" "length (e_ctype e) < 65536" "0 \<le> e_status e"
    and "e_status e < 65536" "entry_len e < 4294967296"
  shows "read_head (ring @ entry_bytes h exp e) (length ring) = \<lparr>eh_expire = exp, eh_hash = h,
    eh_status = e_status e, eh_ct_len = length (e_ctype e),
    eh_hdr_len = length (encode_headers (e_header e)), eh_body_len = length (e_body e)\<rparr>"
proof -
  let ?B = "entry_bytes h exp e"
  let ?H = "encode_headers (e_header e)"
  have s: "go_slice (length ring + i) (length ring + j) (ring @ ?B) = go_slice i j ?B" for i j
    by (rule slice_offset)
  have s0: "go_slice (length ring) (length ring + j) (ring @ ?B) = go_slice 0 j ?B" for j
    using s [of 0 j] by simp
  have len: "length ?H < 4294967296" "length (e_body e) < 4294967296"
    using assms(6) by (simp_all add: entry_len_def)
  have "go_slice 0 8 ?B = put_uint64 (of_int exp)" "go_slice 8 16 ?B = put_uint64 h"
    "go_slice 16 18 ?B = put_uint16 (of_int (e_status e))"
    "go_slice 18 20 ?B = put_uint16 (of_nat (length (e_ctype e)))"
    "go_slice 20 24 ?B = put_uint32 (of_nat (length ?H))"
    "go_slice 24 28 ?B = put_uint32 (of_nat (length (e_body e)))"
    by (simp_all add: go_slice_def entry_bytes_def Let_def)
  then show ?thesis
    using assms(1-5) len
    by (simp add: read_head_def s s0 le_simps sint_of_int64 uint_of_int16)
qed

lemma stored_at_new:
  assumes "0 \<le> exp" "exp < 2 ^ 63" "length (e_ctype e) < 65536" "0 \<le> e_status e"
    and "e_status e < 65536" "entry_len e < 4294967296" "header_fits (e_header e)"
  shows "stored_at (ring @ entry_bytes h exp e) (length ring) h = Some (canonical_entry exp e)"
proof -
  let ?B = "entry_bytes h exp e"
  let ?H = "encode_headers (e_header e)"
  let ?c = "length ring + 28" and ?ct = "length (e_ctype e)" and ?hl = "length ?H"
  have B: "?B = take 28 ?B @ e_ctype e @ ?H @ e_body e" and t: "length (take 28 ?B) = 28"
    by (simp_all add: entry_bytes_def Let_def)
  have "go_slice ?c (?c + ?ct) (ring @ ?B) = e_ctype e"
    using slice_offset [of "ring @ take 28 ?B" 0 ?ct "e_ctype e @ ?H @ e_body e"] t
    by (subst B) (simp add: go_slice_def)
  moreover have "go_slice (?c + ?ct) (?c + ?ct + ?hl) (ring @ ?B) = ?H"
    using slice_offset [of "ring @ take 28 ?B @ e_ctype e" 0 ?hl "?H @ e_body e"] t
    by (subst B) (simp add: go_slice_def add.assoc)
  moreover have "go_slice (?c + ?ct + ?hl) (?c + ?ct + ?hl + length (e_body e)) (ring @ ?B) = e_body e"
    using slice_offset [of "ring @ take 28 ?B @ e_ctype e @ ?H" 0 "length (e_body e)" "e_body e"] t
    by (subst B) (simp add: go_slice_def add.assoc)
  moreover have "length (ring @ ?B) = ?c + ?ct + ?hl + length (e_body e)"
    by (simp add: length_entry_bytes entry_len_def entryHeaderSize_def)
  ultimately show ?thesis
    using assms(7) unfolding stored_at_def read_head_new [OF assms(1-6)]
    by (simp add: read_payload_def Let_def entryHeaderSize_def decode_encode_headers
        canonical_entry_def)
qed

section \<open>The shard invariant\<close>

definition shard_inv :: "shard \<Rightarrow> bool" where
  "shard_inv sh = (unat (sh_max sh) < 2 ^ 31 \<and> length (sh_ring sh) \<le> unat (sh_max sh) \<and>
     mwf (sh_entries sh) \<and>
     (\<forall>h off. mget (sh_entries sh) h = Some off \<longrightarrow> stored_at (sh_ring sh) (unat off) h \<noteq> None))"

definition shard_held :: "shard \<Rightarrow> 64 word holding" where
  "shard_held sh = {(h, e, e_expires e) | h off e. \<not> sh_closed sh \<and>
     mget (sh_entries sh) h = Some off \<and> stored_at (sh_ring sh) (unat off) h = Some e}"

lemma shard_held_unique:
  "(h, e, x) \<in> shard_held sh \<Longrightarrow> (h, f, y) \<in> shard_held sh \<Longrightarrow> e = f \<and> x = y"
  by (auto simp: shard_held_def)

lemma shard_get_Some:
  "shard_get now h sh = Some e \<longleftrightarrow>
    (\<exists>f. (h, f, e_expires f) \<in> shard_held sh \<and> fresh now (e_expires f) \<and> e = f\<lparr>e_created := now\<rparr>)"
  by (auto simp: shard_get_eq shard_held_def split: option.splits if_splits)

lemma shard_set_cases:
  assumes "shard_inv sh" "0 \<le> exp" "exp < 2 ^ 63" "header_fits (e_header e)"
    and "length (e_ctype e) < 65536" "0 \<le> e_status e" "e_status e < 65536" "entry_len e < 4294967296"
  obtains (refused) "shard_set h exp e sh = (False, sh)"
      "sh_closed sh \<or> unat (sh_max sh) < entry_len e"
  | (stored) sh0 where "sh0 = sh \<or> sh0 = sh\<lparr>sh_ring := [], sh_entries := []\<rparr>"
      "\<not> sh_closed sh" "length (sh_ring sh0) + entry_len e \<le> unat (sh_max sh)"
      "shard_set h exp e sh = (True, sh0\<lparr>sh_ring := sh_ring sh0 @ entry_bytes h exp e,
         sh_entries := mput h (of_nat (length (sh_ring sh0))) (sh_entries sh0)\<rparr>)"
proof -
  have max: "unat (sh_max sh) < 2147483648" and ring: "length (sh_ring sh) \<le> unat (sh_max sh)"
    using assms(1) by (simp_all add: shard_inv_def)
  have tot: "unat (of_nat (entry_len e) :: 32 word) = entry_len e"
    using assms(8) by (simp add: le_simps)
  have big: "(of_nat (entry_len e) :: 32 word) > sh_max sh \<longleftrightarrow> unat (sh_max sh) < entry_len e"
    by (simp add: word_less_nat_alt tot)
  show ?thesis
  proof (cases "sh_closed sh \<or> unat (sh_max sh) < entry_len e")
    case True
    with big show ?thesis by (intro refused) (auto simp: shard_set_def Let_def)
  next
    case False
    have len: "unat (of_nat (length (sh_ring sh)) :: 32 word) = length (sh_ring sh)"
      using ring max by (simp add: le_simps)
    have "unat (of_nat (length (sh_ring sh)) + of_nat (entry_len e) :: 32 word) =
        length (sh_ring sh) + entry_len e"
      using False ring max by (simp add: unat_word_ariths len tot)
    then have cap: "(of_nat (length (sh_ring sh)) + of_nat (entry_len e) :: 32 word) > sh_max sh
        \<longleftrightarrow> unat (sh_max sh) < length (sh_ring sh) + entry_len e"
      by (simp add: word_less_nat_alt)
    show ?thesis
      by (rule stored [of "if unat (sh_max sh) < length (sh_ring sh) + entry_len e
            then sh\<lparr>sh_ring := [], sh_entries := []\<rparr> else sh"])
        (use False big cap in \<open>auto simp: shard_set_def Let_def\<close>)
  qed
qed

lemma shard_set_stored:
  assumes inv: "shard_inv sh" and exp: "0 \<le> exp" "exp < 2 ^ 63"
    and fit: "header_fits (e_header e)" "length (e_ctype e) < 65536" "0 \<le> e_status e"
      "e_status e < 65536" "entry_len e < 4294967296"
    and set: "shard_set h exp e sh = (True, sh')"
  shows "shard_inv sh'" "\<not> sh_closed sh'"
    and "shard_held sh' \<subseteq> insert (h, canonical_entry exp e, e_expires (canonical_entry exp e))
           {t \<in> shard_held sh. fst t \<noteq> h}"
    and "(h, canonical_entry exp e, e_expires (canonical_entry exp e)) \<in> shard_held sh'"
proof -
  from inv exp fit obtain sh0 where
    sh0: "sh0 = sh \<or> sh0 = sh\<lparr>sh_ring := [], sh_entries := []\<rparr>" and opn: "\<not> sh_closed sh"
    and cap: "length (sh_ring sh0) + entry_len e \<le> unat (sh_max sh)"
    and sh': "sh' = sh0\<lparr>sh_ring := sh_ring sh0 @ entry_bytes h exp e,
         sh_entries := mput h (of_nat (length (sh_ring sh0))) (sh_entries sh0)\<rparr>"
    by (cases rule: shard_set_cases [of sh exp e h]) (use set in auto)
  have max: "unat (sh_max sh) < 2147483648" using inv by (simp add: shard_inv_def)
  have off: "unat (of_nat (length (sh_ring sh0)) :: 32 word) = length (sh_ring sh0)"
    using cap max by (simp add: le_simps)
  have new: "stored_at (sh_ring sh') (length (sh_ring sh0)) h = Some (canonical_entry exp e)"
    using stored_at_new [OF exp fit(2-5,1)] by (simp add: sh')
  have old: "stored_at (sh_ring sh) (unat p) k = Some f \<and> stored_at (sh_ring sh') (unat p) k = Some f
      \<and> mget (sh_entries sh) k = Some p"
    if "mget (sh_entries sh0) k = Some p" "stored_at (sh_ring sh) (unat p) k = Some f" for k p f
    using that sh0 by (auto simp: sh' stored_at_append)
  have idx: "mget (sh_entries sh') k = (if k = h then Some (of_nat (length (sh_ring sh0)))
      else mget (sh_entries sh0) k)" for k
    by (simp add: sh' map_simps)
  have inv0: "mwf (sh_entries sh0)" "\<And>k p. mget (sh_entries sh0) k = Some p \<Longrightarrow>
      \<exists>f. stored_at (sh_ring sh) (unat p) k = Some f"
    using sh0 inv by (auto simp: shard_inv_def)
  show closed: "\<not> sh_closed sh'" using sh0 opn by (auto simp: sh')
  show "(h, canonical_entry exp e, e_expires (canonical_entry exp e)) \<in> shard_held sh'"
    using closed new off idx [of h] by (auto simp: shard_held_def)
  have "stored_at (sh_ring sh') (unat p) k \<noteq> None" if "mget (sh_entries sh') k = Some p" for k p
  proof (cases "k = h")
    case True
    with that new off show ?thesis by (simp add: idx)
  next
    case False
    with that have "mget (sh_entries sh0) k = Some p" by (simp add: idx)
    with inv0(2) old show ?thesis by (metis option.distinct(1))
  qed
  moreover have "length (sh_ring sh') \<le> unat (sh_max sh')" "sh_max sh' = sh_max sh"
    using sh0 cap by (auto simp: sh' length_entry_bytes)
  ultimately show "shard_inv sh'"
    using max inv0(1) by (simp add: shard_inv_def sh' wf_intros)
  show "shard_held sh' \<subseteq> insert (h, canonical_entry exp e, e_expires (canonical_entry exp e))
      {t \<in> shard_held sh. fst t \<noteq> h}"
  proof
    fix t
    assume "t \<in> shard_held sh'"
    then obtain k p f where t: "t = (k, f, e_expires f)" "mget (sh_entries sh') k = Some p"
      "stored_at (sh_ring sh') (unat p) k = Some f"
      by (auto simp: shard_held_def)
    show "t \<in> insert (h, canonical_entry exp e, e_expires (canonical_entry exp e))
        {t \<in> shard_held sh. fst t \<noteq> h}"
    proof (cases "k = h")
      case True
      with t new off show ?thesis by (simp add: idx)
    next
      case False
      with t(2) have p: "mget (sh_entries sh0) k = Some p" by (simp add: idx)
      with inv0(2) obtain g where "stored_at (sh_ring sh) (unat p) k = Some g" by blast
      from old [OF p this] t(3) False opn t(1) show ?thesis by (auto simp: shard_held_def)
    qed
  qed
qed

section \<open>The store and its contract\<close>

definition sharded_inv :: "sharded_store \<Rightarrow> bool" where
  "sharded_inv s = (0 < length (ss_shards s) \<and> unat (ss_num s) = length (ss_shards s) \<and>
     (\<forall>sh \<in> set (ss_shards s). shard_inv sh))"

definition sharded_held :: "sharded_store \<Rightarrow> 64 word holding" where
  "sharded_held s = {(h, e, x) | h e x. (h, e, x) \<in> shard_held (shard_for h s)}"

lemma shard_index_less: "sharded_inv s \<Longrightarrow> shard_index h s < length (ss_shards s)"
  by (auto simp: sharded_inv_def shard_index_def unat_mod_distrib intro!: mod_less_divisor)

lemma shard_for_inv: "sharded_inv s \<Longrightarrow> shard_inv (shard_for h s)"
  using shard_index_less [of s h] by (simp add: sharded_inv_def shard_for_def)

lemma shard_index_put [simp]: "shard_index k (put_shard h sh s) = shard_index k s"
  by (simp add: shard_index_def put_shard_def)

lemma shard_for_put:
  "sharded_inv s \<Longrightarrow> shard_for k (put_shard h sh s) =
    (if shard_index k s = shard_index h s then sh else shard_for k s)"
  using shard_index_less [of s h] by (simp add: shard_for_def) (simp add: put_shard_def)

lemma shard_for_same_index: "shard_index k s = shard_index h s \<Longrightarrow> shard_for k s = shard_for h s"
  by (simp add: shard_for_def)

lemma sharded_inv_put: "sharded_inv s \<Longrightarrow> shard_inv sh \<Longrightarrow> sharded_inv (put_shard h sh s)"
  by (auto simp: sharded_inv_def put_shard_def dest!: set_update_subset_insert [THEN subsetD])

lemma persist_vary_expires [simp]: "persist_vary (e\<lparr>e_expires := x\<rparr>) = persist_vary e"
  by (simp add: persist_vary_def)

text \<open>The entry as \<open>SetByHash\<close> leaves it for the caller.\<close>

definition set_entry :: "int \<Rightarrow> int \<Rightarrow> entry \<Rightarrow> entry" where
  "set_entry now ttl e = (if 0 < ttl then e\<lparr>e_expires := Some (now + ttl)\<rparr> else e)
     \<lparr>e_header := persist_vary e\<rparr>"

lemma set_by_hash_eq:
  "set_by_hash now h e ttl s = (let (ok, sh) =
     shard_set h (if 0 < ttl then now + ttl else 0) (set_entry now ttl e) (shard_for h s)
   in (ok, set_entry now ttl e, put_shard h sh s))"
  by (simp add: set_by_hash_def set_entry_def Let_def)

lemma set_entry_fields [simp]:
  "e_body (set_entry now ttl e) = e_body e" "e_ctype (set_entry now ttl e) = e_ctype e"
  "e_status (set_entry now ttl e) = e_status e" "e_vary (set_entry now ttl e) = e_vary e"
  "e_header (set_entry now ttl e) = persist_vary e"
  by (simp_all add: set_entry_def)

lemma entry_len_set_entry: "entry_len (set_entry now ttl e) = entry_len (e\<lparr>e_header := persist_vary e\<rparr>)"
  by (simp add: entry_len_def)

lemma persist_set_entry: "vary_ok e \<Longrightarrow> persist_vary (set_entry now ttl e) = persist_vary e"
  using persist_vary_idem [of e] by (simp add: persist_vary_def)

lemma storable_expires [simp]: "storable (e\<lparr>e_expires := x\<rparr>) = storable e"
  by (simp add: storable_def vary_ok_def entry_len_def)

lemma storable_set_entry:
  assumes "storable e"
  shows "storable (set_entry now ttl e)"
proof -
  have "vary_ok (set_entry now ttl e)"
    using vary_ok_persist [of e] assms by (simp add: storable_def vary_ok_def)
  with assms persist_set_entry [of e now ttl] show ?thesis
    by (simp add: storable_def mwf_persist_vary entry_len_def)
qed

lemma same_origin_set_entry: "same_origin e (set_entry now ttl e)"
  by (simp add: same_origin_def visible_persist_vary)

lemma canonical_set_entry:
  assumes "storable e" "clock_ok now ttl"
  shows "same_response (canonical_entry (if 0 < ttl then now + ttl else 0) (set_entry now ttl e))
      (set_entry now ttl e)"
    and "e_expires (canonical_entry (if 0 < ttl then now + ttl else 0) (set_entry now ttl e)) =
      deadline now ttl"
proof -
  let ?c = "canonical_entry (if 0 < ttl then now + ttl else 0) (set_entry now ttl e)"
  have "matches_vary (Some ?c) r = matches_vary (Some (set_entry now ttl e)) r" for r
    by (rule matches_vary_decoded [of e]) (use assms in \<open>simp_all add: storable_def canonical_entry_def\<close>)
  then show "same_response ?c (set_entry now ttl e)"
    by (simp add: same_response_def canonical_entry_def)
  show "e_expires ?c = deadline now ttl"
    using assms(2) by (auto simp: canonical_entry_def deadline_def clock_ok_def)
qed

lemma get_by_hash_Some:
  "get_by_hash now h s = Some e \<longleftrightarrow>
    (\<exists>f. (h, f, e_expires f) \<in> sharded_held s \<and> fresh now (e_expires f) \<and> e = f\<lparr>e_created := now\<rparr>)"
  by (auto simp: get_by_hash_def shard_get_Some sharded_held_def)

lemma same_response_created: "same_response (f\<lparr>e_created := now\<rparr>) f"
  by (simp add: same_response_def matches_vary_def)

text \<open>Everything the contract asks of a successful \<open>Set\<close>.\<close>

lemma set_by_hash_stored:
  assumes inv: "sharded_inv s" and st: "storable e" and clk: "clock_ok now ttl"
    and set: "set_by_hash now h e ttl s = (True, e', s')"
  shows "e' = set_entry now ttl e" "sharded_inv s'"
    and "held_le (sharded_held s') (insert (h, e', deadline now ttl) {t \<in> sharded_held s. fst t \<noteq> h})"
    and "\<exists>f. (h, f, deadline now ttl) \<in> sharded_held s' \<and> e_expires f = deadline now ttl \<and> same_response f e'"
proof -
  let ?exp = "if 0 < ttl then now + ttl else 0"
  let ?c = "canonical_entry ?exp (set_entry now ttl e)"
  show e': "e' = set_entry now ttl e"
    using set by (auto simp: set_by_hash_eq Let_def split: prod.splits)
  obtain sh where sh: "shard_set h ?exp (set_entry now ttl e) (shard_for h s) = (True, sh)"
    and s': "s' = put_shard h sh s"
    using set by (auto simp: set_by_hash_eq Let_def split: prod.splits)
  have exp: "0 \<le> ?exp" "?exp < 2 ^ 63" using clk by (auto simp: clock_ok_def)
  have fits: "header_fits (e_header (set_entry now ttl e))" "length (e_ctype (set_entry now ttl e)) < 65536"
    "0 \<le> e_status (set_entry now ttl e)" "e_status (set_entry now ttl e) < 65536"
    "entry_len (set_entry now ttl e) < 4294967296"
    using st by (simp_all add: storable_def entry_len_set_entry)
  note res = shard_set_stored [OF shard_for_inv [OF inv] exp fits sh]
  show "sharded_inv s'"
    unfolding s' using inv res(1) by (rule sharded_inv_put)
  have can: "same_response ?c e'" "e_expires ?c = deadline now ttl"
    using canonical_set_entry [OF st clk] unfolding e' by simp_all
  have "sharded_held s' \<subseteq> insert (h, ?c, deadline now ttl) {t \<in> sharded_held s. fst t \<noteq> h}"
  proof
    fix t
    assume "t \<in> sharded_held s'"
    then obtain k f x where t: "t = (k, f, x)" "(k, f, x) \<in> shard_held (shard_for k s')"
      by (auto simp: sharded_held_def)
    show "t \<in> insert (h, ?c, deadline now ttl) {t \<in> sharded_held s. fst t \<noteq> h}"
    proof (cases "shard_index k s = shard_index h s")
      case True
      with t(2) have "(k, f, x) \<in> shard_held sh" by (simp add: s' shard_for_put [OF inv])
      with res(3) can(2) shard_for_same_index [OF True] t(1) show ?thesis
        by (auto simp: sharded_held_def)
    next
      case False
      with t show ?thesis by (auto simp: s' shard_for_put [OF inv] sharded_held_def)
    qed
  qed
  with can(1) show "held_le (sharded_held s') (insert (h, e', deadline now ttl) {t \<in> sharded_held s. fst t \<noteq> h})"
    by (fastforce simp: held_le_def)
  have "(h, ?c, deadline now ttl) \<in> sharded_held s'"
    using res(4) can(2) by (auto simp: sharded_held_def s' shard_for_put [OF inv])
  with can show "\<exists>f. (h, f, deadline now ttl) \<in> sharded_held s' \<and> e_expires f = deadline now ttl \<and> same_response f e'"
    by blast
qed

lemma shard_set_False: "shard_set h exp e sh = (False, sh') \<Longrightarrow> sh' = sh"
  by (auto simp: shard_set_def Let_def split: if_splits)

lemma put_shard_for: "sharded_inv s \<Longrightarrow> put_shard h (shard_for h s) s = s"
  by (simp add: put_shard_def shard_for_def)

lemma set_by_hash_refused:
  assumes "sharded_inv s" "set_by_hash now h e ttl s = (False, e', s')"
  shows "e' = set_entry now ttl e" "s' = s"
proof -
  obtain sh where "shard_set h (if 0 < ttl then now + ttl else 0) (set_entry now ttl e) (shard_for h s) = (False, sh)"
    and s': "s' = put_shard h sh s" and e': "e' = set_entry now ttl e"
    using assms(2) by (auto simp: set_by_hash_eq Let_def split: prod.splits)
  show "e' = set_entry now ttl e" by (rule e')
  have "sh = shard_for h s" by (rule shard_set_False) fact
  then show "s' = s" by (simp add: s' put_shard_for [OF assms(1)])
qed

lemma shard_inv_del: "shard_inv sh \<Longrightarrow> shard_inv (sh\<lparr>sh_entries := mdel h (sh_entries sh)\<rparr>)"
  by (auto simp: shard_inv_def wf_intros map_simps)

lemma shard_held_del: "shard_held (sh\<lparr>sh_entries := mdel h (sh_entries sh)\<rparr>) = {t \<in> shard_held sh. fst t \<noteq> h}"
  by (auto simp: shard_held_def map_simps split: if_splits)

lemma sharded_inv_del: "sharded_inv s \<Longrightarrow> sharded_inv (del_by_hash h s)"
  by (auto simp: del_by_hash_def Let_def intro!: sharded_inv_put shard_inv_del shard_for_inv)

lemma sharded_held_del:
  assumes "sharded_inv s"
  shows "sharded_held (del_by_hash h s) \<subseteq> {t \<in> sharded_held s. fst t \<noteq> h}"
proof (cases "sh_closed (shard_for h s)")
  case True
  then have "(h, f, x) \<notin> shard_held (shard_for h s)" for f x
    by (simp add: shard_held_def)
  with True show ?thesis by (auto simp: del_by_hash_def sharded_held_def)
next
  case False
  let ?sh = "shard_for h s"
  have d: "del_by_hash h s = put_shard h (?sh\<lparr>sh_entries := mdel h (sh_entries ?sh)\<rparr>) s"
    using False by (simp add: del_by_hash_def Let_def)
  show ?thesis
  proof
    fix t
    assume "t \<in> sharded_held (del_by_hash h s)"
    then obtain k f x where t: "t = (k, f, x)" "(k, f, x) \<in> shard_held (shard_for k (del_by_hash h s))"
      by (auto simp: sharded_held_def)
    show "t \<in> {t \<in> sharded_held s. fst t \<noteq> h}"
    proof (cases "shard_index k s = shard_index h s")
      case True
      with t(2) have "(k, f, x) \<in> {t \<in> shard_held ?sh. fst t \<noteq> h}"
        unfolding d by (simp only: shard_for_put [OF assms] simp_thms if_True shard_held_del)
      with t(1) shard_for_same_index [OF True] show ?thesis by (simp add: sharded_held_def)
    next
      case False
      with t(2) have "(k, f, x) \<in> shard_held (shard_for k s)"
        unfolding d by (simp only: shard_for_put [OF assms] if_False)
      with t(1) False show ?thesis by (auto simp: sharded_held_def)
    qed
  qed
qed

lemma sharded_inv_close: "sharded_inv s \<Longrightarrow> sharded_inv (sharded_close s)"
  by (auto simp: sharded_inv_def sharded_close_def shard_inv_def)

lemma sharded_held_close: "sharded_inv s \<Longrightarrow> sharded_held (sharded_close s) = {}"
proof -
  assume inv: "sharded_inv s"
  have "shard_index h (sharded_close s) = shard_index h s" for h
    by (simp add: shard_index_def sharded_close_def)
  with shard_index_less [OF inv] have "sh_closed (shard_for h (sharded_close s))" for h
    by (simp add: shard_for_def) (simp add: sharded_close_def)
  then show ?thesis by (simp add: sharded_held_def shard_held_def)
qed

interpretation sharded: hashed_store "sharded_ops xx" sharded_inv sharded_held xx storable
  for xx :: "string \<Rightarrow> 64 word"
proof
  fix s now k e s'
  assume inv: "sharded_inv s" and get: "st_get (sharded_ops xx) now k s = (Some e, s')"
  then obtain f where f: "(xx k, f, e_expires f) \<in> sharded_held s" "fresh now (e_expires f)"
    "e = f\<lparr>e_created := now\<rparr>"
    by (auto simp: sharded_ops_def get_by_hash_Some)
  then show "\<exists>f x. (xx k, f, x) \<in> sharded_held s \<and> same_response e f \<and> fresh now x"
    "\<exists>f. (xx k, f, e_expires e) \<in> sharded_held s \<and> same_response e f \<and> fresh now (e_expires e)"
    using same_response_created [of now f] by auto
  from f show "e_expires e \<noteq> Some 0"
    by (auto simp: sharded_held_def shard_held_def dest: stored_at_expires)
next
  fix s e now ttl k e' s' ok
  assume a: "sharded_inv s" "storable e" "clock_ok now ttl"
    and set: "st_set (sharded_ops xx) now k e ttl s = (ok, e', s')"
  then show "sharded_inv s'"
    by (cases ok) (auto simp: sharded_ops_def dest: set_by_hash_stored(2) set_by_hash_refused(2))
next
  fix s e now ttl k e' s' ok
  assume a: "sharded_inv s" "storable e"
    and set: "st_set (sharded_ops xx) now k e ttl s = (ok, e', s')"
  then have "e' = set_entry now ttl e"
    by (auto simp: sharded_ops_def set_by_hash_eq Let_def split: prod.splits)
  with a show "same_origin e e' \<and> storable e'"
    by (simp add: same_origin_set_entry storable_set_entry)
next
  fix s e now ttl k e' s' now'
  assume a: "sharded_inv s" "storable e" "clock_ok now ttl"
    and "st_set (sharded_ops xx) now k e ttl s = (True, e', s')"
  then have set: "set_by_hash now (xx k) e ttl s = (True, e', s')"
    by (simp add: sharded_ops_def)
  show "held_le (sharded_held s') (insert (xx k, e', deadline now ttl) {t \<in> sharded_held s. fst t \<noteq> xx k})"
    using a set by (rule set_by_hash_stored(3))
  assume fr: "fresh now' (deadline now ttl)"
  obtain f where f: "(xx k, f, deadline now ttl) \<in> sharded_held s'" "e_expires f = deadline now ttl"
    "same_response f e'"
    using set_by_hash_stored(4) [OF a set] by blast
  with fr have "get_by_hash now' (xx k) s' = Some (f\<lparr>e_created := now'\<rparr>)"
    unfolding get_by_hash_Some by (intro exI [of _ f]) simp
  with f(3) same_response_created [of now' f]
  show "\<exists>f. fst (st_get (sharded_ops xx) now' k s') = Some f \<and> same_response f e'"
    by (auto simp: sharded_ops_def intro: same_response_trans)
next
  fix s e now k ttl e' s'
  assume "sharded_inv s" "storable e" "st_set (sharded_ops xx) now k e ttl s = (False, e', s')"
  then show "held_le (sharded_held s') (sharded_held s)"
    by (auto simp: sharded_ops_def dest: set_by_hash_refused(2))
next
  fix s k
  assume "sharded_inv s"
  from sharded_held_del [OF this]
  show "held_le (sharded_held (st_del (sharded_ops xx) k s)) {t \<in> sharded_held s. fst t \<noteq> xx k}"
    by (simp add: sharded_ops_def held_le_subset)
qed (auto simp: sharded_ops_def sharded_inv_del sharded_inv_close sharded_held_close)

section \<open>Properties\<close>

lemma get_by_hash_held_le:
  assumes "held_le (sharded_held s') H" "{t \<in> H. fst t = h} \<subseteq> sharded_held s"
    and "get_by_hash now h s' = Some f"
  shows "\<exists>g. get_by_hash now h s = Some g \<and> same_response f g"
proof -
  obtain f0 where f0: "(h, f0, e_expires f0) \<in> sharded_held s'" "fresh now (e_expires f0)"
    "f = f0\<lparr>e_created := now\<rparr>"
    using assms(3) by (auto simp: get_by_hash_Some)
  then obtain g0 where g0: "(h, g0, e_expires f0) \<in> sharded_held s" "same_response f0 g0"
    using assms(1,2) by (fastforce simp: held_le_def)
  then have "e_expires f0 = e_expires g0" by (auto simp: sharded_held_def shard_held_def)
  with f0(2) g0(1) have g: "get_by_hash now h s = Some (g0\<lparr>e_created := now\<rparr>)"
    unfolding get_by_hash_Some by (intro exI [of _ g0]) simp
  have "same_response f f0" "same_response g0 (g0\<lparr>e_created := now\<rparr>)"
    using f0(3) same_response_created same_response_sym by auto
  with g0(2) have "same_response f (g0\<lparr>e_created := now\<rparr>)"
    by (blast intro: same_response_trans)
  with g show ?thesis by blast
qed


definition sample_entry :: entry where
  "sample_entry = \<lparr>e_body = ''hello'', e_header = [(''Vary'', [''Accept''])], e_ctype = ''text/plain'',
     e_status = 200, e_created = 0, e_expires = None, e_vary = [(''Accept'', ''text/html'')]\<rparr>"

lemma persist_sample:
  "persist_vary sample_entry = [(''Vary'', [''Accept'']), (''X-Precog-Vary-Accept'', [''text/html''])]"
  by code_simp

lemma entry_len_sample: "entry_len (sample_entry\<lparr>e_header := persist_vary sample_entry\<rparr>) < 500"
  unfolding persist_sample
  by (simp add: sample_entry_def entry_len_def entryHeaderSize_def encode_headers_def encode_kv_def)

lemma storable_sample: "storable sample_entry"
proof -
  have t: "list_all is_token_char ''Accept''" by code_simp
  have k: "\<not> has_prefix (to_lower ''Vary'') vary_prefix" by code_simp
  show ?thesis
    unfolding storable_def using t k entry_len_sample
    unfolding persist_sample
    by (simp add: sample_entry_def vary_ok_def vary_consistent_def header_fits_def)
qed

lemma shard_max_default: "shard_max_size 256 (256 * 1048576) = 1048576"
  by (simp add: shard_max_size_def)

lemma new_sharded_default: "new_sharded_store None = \<lparr>ss_shards = replicate 256
    \<lparr>sh_entries = [], sh_ring = [], sh_max = 1048576, sh_closed = False\<rparr>, ss_num = 256\<rparr>"
  using shard_max_default
  by (simp add: new_sharded_store_def Let_def DefaultShards_def DefaultMaxShardSize_def)

lemma sharded_inv_new: "sharded_inv (new_sharded_store None)"
  by (simp add: new_sharded_default sharded_inv_def shard_inv_def)

lemma shard_for_new: "shard_for h (new_sharded_store None) =
    \<lparr>sh_entries = [], sh_ring = [], sh_max = 1048576, sh_closed = False\<rparr>"
  using shard_index_less [OF sharded_inv_new, of h]
  by (simp add: shard_for_def new_sharded_default)

lemma set_by_hash_accepts:
  assumes "sharded_inv s" "storable e" "clock_ok now ttl"
  shows "fst (set_by_hash now h e ttl s) \<longleftrightarrow> \<not> sh_closed (shard_for h s) \<and>
    entry_len (e\<lparr>e_header := persist_vary e\<rparr>) \<le> unat (sh_max (shard_for h s))"
proof -
  let ?exp = "if 0 < ttl then now + ttl else 0"
  have exp: "0 \<le> ?exp" "?exp < 2 ^ 63" using assms(3) by (auto simp: clock_ok_def)
  have fits: "header_fits (e_header (set_entry now ttl e))" "length (e_ctype (set_entry now ttl e)) < 65536"
    "0 \<le> e_status (set_entry now ttl e)" "e_status (set_entry now ttl e) < 65536"
    "entry_len (set_entry now ttl e) < 4294967296"
    using assms(2) by (simp_all add: storable_def entry_len_set_entry)
  have f: "fst (set_by_hash now h e ttl s) = fst (shard_set h ?exp (set_entry now ttl e) (shard_for h s))"
    by (simp add: set_by_hash_eq Let_def split: prod.splits)
  from shard_for_inv [OF assms(1)] exp fits show ?thesis
    unfolding f
    by (cases rule: shard_set_cases [of "shard_for h s" ?exp "set_entry now ttl e" h])
      (auto simp: entry_len_set_entry)
qed


lemma sharded_limits:
  "map sh_max (ss_shards (snd (snd (set_by_hash now h e ttl s)))) = map sh_max (ss_shards s)"
  "map sh_max (ss_shards (del_by_hash h s)) = map sh_max (ss_shards s)"
  "map sh_max (ss_shards (sharded_close s)) = map sh_max (ss_shards s)"
proof -
  have upd: "map sh_max (ss_shards (put_shard h sh s)) = map sh_max (ss_shards s)"
    if "sh_max sh = sh_max (shard_for h s)" for sh
    using that by (simp add: put_shard_def shard_for_def map_update) (metis list_update_id map_update)
  have "sh_max (snd (shard_set h x f sh)) = sh_max sh" for x f sh
    by (simp add: shard_set_def Let_def)
  then show "map sh_max (ss_shards (snd (snd (set_by_hash now h e ttl s)))) = map sh_max (ss_shards s)"
    by (simp add: set_by_hash_eq Let_def upd split: prod.splits) (metis snd_conv upd)
  show "map sh_max (ss_shards (del_by_hash h s)) = map sh_max (ss_shards s)"
    by (simp add: del_by_hash_def Let_def upd)
  show "map sh_max (ss_shards (sharded_close s)) = map sh_max (ss_shards s)"
    by (simp add: sharded_close_def)
qed



text \<open>
  the default store never accepts a response whose body has a megabyte or more, whatever it
  holds: the shard limit is 1 MiB, half of the default \<open>MaxResponseSize\<close>.
\<close>

theorem default_store_rejects_megabyte:
  assumes "sharded_inv s" "sh_max (shard_for h s) = sh_max (shard_for h (new_sharded_store None))"
    and "storable e" "clock_ok now ttl" "1024 * 1024 \<le> length (e_body e)"
  shows "fst (set_by_hash now h e ttl s) = False \<and> snd (snd (set_by_hash now h e ttl s)) = s"
proof -
  have "\<not> fst (set_by_hash now h e ttl s)"
    using assms(2,5) set_by_hash_accepts [OF assms(1,3,4), of h]
    by (simp add: shard_for_new entry_len_def entryHeaderSize_def)
  then show ?thesis
    using set_by_hash_refused(2) [OF assms(1), of now h e ttl]
    by (cases "set_by_hash now h e ttl s") auto
qed

theorem default_store_rejects_megabyte_witness:
  "fst (set_by_hash 0 7 (sample_entry\<lparr>e_body := replicate 1500000 (CHR ''x'')\<rparr>) 10 (new_sharded_store None)) = False"
proof -
  let ?e = "sample_entry\<lparr>e_body := replicate 1500000 (CHR ''x'')\<rparr>"
  have p: "persist_vary ?e = persist_vary sample_entry" by (simp add: persist_vary_def)
  have "entry_len (?e\<lparr>e_header := persist_vary sample_entry\<rparr>) \<le>
      entry_len (sample_entry\<lparr>e_header := persist_vary sample_entry\<rparr>) + 1500000"
    by (simp add: entry_len_def)
  then have "entry_len (?e\<lparr>e_header := persist_vary sample_entry\<rparr>) < 4294967296"
    using entry_len_sample by linarith
  then have "storable ?e"
    using storable_sample by (simp add: storable_def vary_ok_def p)
  from default_store_rejects_megabyte [OF sharded_inv_new refl this, of 0 10 7] show ?thesis
    by (simp add: clock_ok_def)
qed

text \<open>
  the size of a shard is computed in 32 bits: four gigabytes for one shard wrap to zero and
  are replaced by the 64 KiB minimum, while one byte less gives the full size.
\<close>

theorem shard_size_wraps:
  "shard_max_size 1 4294967296 = 65536 \<and> shard_max_size 1 4294967295 = 4294967295"
  by (simp add: shard_max_size_def)

end
