(* ===== verification/Tiered_Store.thy ===== *)
theory Tiered_Store
  imports Sharded_Store
begin

unbundle bit_operations_syntax

text \<open>
  \<open>store_tier.go\<close>: the direct-mapped first tier of 256 slots in front of any hashed store. The
  operations take the second tier as the record of its operations, as the Go type holds a value of
  the interface \<open>Store\<close>. An \<open>l1_expire\<close> of zero means no expiry.
\<close>

definition L1Slots :: nat where
  "L1Slots = 256"

record l1_entry =
  l1_hash :: "64 word"
  l1_expire :: int
  l1_item :: entry

record 's tiered_store =
  t_l1 :: "l1_entry option list"
  t_l2 :: 's

definition new_tiered_store :: "'s \<Rightarrow> 's tiered_store" where
  "new_tiered_store l2 = \<lparr>t_l1 = replicate L1Slots None, t_l2 = l2\<rparr>"

text \<open>\<open>h & (L1Slots - 1)\<close>.\<close>

definition slot_idx :: "64 word \<Rightarrow> nat" where
  "slot_idx h = unat (h AND (of_nat L1Slots - 1))"

definition promote_l1 :: "64 word \<Rightarrow> entry \<Rightarrow> int \<Rightarrow> 's tiered_store \<Rightarrow> 's tiered_store" where
  "promote_l1 h e x t = t\<lparr>t_l1 := (t_l1 t)[slot_idx h := Some \<lparr>l1_hash = h, l1_expire = x, l1_item = e\<rparr>]\<rparr>"

definition l1_probe :: "int \<Rightarrow> 64 word \<Rightarrow> 's tiered_store \<Rightarrow> entry option" where
  "l1_probe now h t = (case t_l1 t ! slot_idx h of
     None \<Rightarrow> None
   | Some item \<Rightarrow> if l1_hash item = h \<and> (l1_expire item = 0 \<or> now \<le> l1_expire item)
                   then Some (l1_item item) else None)"

definition tiered_get ::
  "(string \<Rightarrow> 64 word) \<Rightarrow> 's store_ops \<Rightarrow> int \<Rightarrow> string \<Rightarrow> 's tiered_store \<Rightarrow> entry option \<times> 's tiered_store" where
  "tiered_get xx ops now key t = (let h = xx key in
     case l1_probe now h t of
       Some e \<Rightarrow> (Some e, t)
     | None \<Rightarrow>
        (let (r, l2) = st_get ops now key (t_l2 t); t1 = t\<lparr>t_l2 := l2\<rparr> in
         case r of
           None \<Rightarrow> (None, t1)
         | Some e \<Rightarrow>
            (case e_expires e of
               None \<Rightarrow> (Some e, promote_l1 h e 0 t1)
             | Some x \<Rightarrow> if now > x then (None, t1) else (Some e, promote_l1 h e x t1))))"

definition tiered_set ::
  "(string \<Rightarrow> 64 word) \<Rightarrow> 's store_ops \<Rightarrow> int \<Rightarrow> string \<Rightarrow> entry \<Rightarrow> int \<Rightarrow> 's tiered_store \<Rightarrow>
     bool \<times> entry \<times> 's tiered_store" where
  "tiered_set xx ops now key e ttl t = (let
     expi = (if 0 < ttl then now + ttl else 0);
     e1 = (if 0 < ttl then e\<lparr>e_expires := Some (now + ttl)\<rparr> else e);
     (ok, e2, l2) = st_set ops now key e1 ttl (t_l2 t);
     t1 = t\<lparr>t_l2 := l2\<rparr>
   in if \<not> ok then (False, e2, t1) else (True, e2, promote_l1 (xx key) e2 expi t1))"

definition tiered_del :: "(string \<Rightarrow> 64 word) \<Rightarrow> 's store_ops \<Rightarrow> string \<Rightarrow> 's tiered_store \<Rightarrow> 's tiered_store" where
  "tiered_del xx ops key t = (let h = xx key;
     t1 = (case t_l1 t ! slot_idx h of
             None \<Rightarrow> t
           | Some item \<Rightarrow> if l1_hash item = h then t\<lparr>t_l1 := (t_l1 t)[slot_idx h := None]\<rparr> else t)
   in t1\<lparr>t_l2 := st_del ops key (t_l2 t1)\<rparr>)"

definition tiered_close :: "'s store_ops \<Rightarrow> 's tiered_store \<Rightarrow> 's tiered_store" where
  "tiered_close ops t = \<lparr>t_l1 = replicate L1Slots None, t_l2 = st_close ops (t_l2 t)\<rparr>"

definition tiered_ops :: "(string \<Rightarrow> 64 word) \<Rightarrow> 's store_ops \<Rightarrow> 's tiered_store store_ops" where
  "tiered_ops xx ops = \<lparr>st_get = tiered_get xx ops, st_set = tiered_set xx ops,
     st_del = tiered_del xx ops, st_close = tiered_close ops\<rparr>"

section \<open>The two tiers together meet the contract\<close>

definition l1_deadline :: "l1_entry \<Rightarrow> int option" where
  "l1_deadline item = (if l1_expire item = 0 then None else Some (l1_expire item))"

definition l1_inv :: "l1_entry option list \<Rightarrow> bool" where
  "l1_inv l1 = (length l1 = L1Slots \<and>
     (\<forall>i item. i < L1Slots \<longrightarrow> l1 ! i = Some item \<longrightarrow> slot_idx (l1_hash item) = i))"

definition l1_held :: "l1_entry option list \<Rightarrow> 64 word holding" where
  "l1_held l1 = {(l1_hash item, l1_item item, l1_deadline item) | item. Some item \<in> set l1}"

definition tiered_inv :: "('s \<Rightarrow> bool) \<Rightarrow> 's tiered_store \<Rightarrow> bool" where
  "tiered_inv l2_inv t = (l1_inv (t_l1 t) \<and> l2_inv (t_l2 t))"

definition tiered_held :: "('s \<Rightarrow> 64 word holding) \<Rightarrow> 's tiered_store \<Rightarrow> 64 word holding" where
  "tiered_held held t = l1_held (t_l1 t) \<union> held (t_l2 t)"

lemma slot_idx_less: "slot_idx h < L1Slots"
proof -
  have "unat (h AND 255) \<le> unat (255 :: 64 word)"
    by (rule word_and_le1 [THEN word_le_nat_alt [THEN iffD1]])
  then show ?thesis by (simp add: slot_idx_def L1Slots_def)
qed

lemma l1_inv_update:
  "l1_inv l1 \<Longrightarrow> (\<forall>item. x = Some item \<longrightarrow> slot_idx (l1_hash item) = slot_idx h) \<Longrightarrow>
    l1_inv (l1[slot_idx h := x])"
  by (auto simp: l1_inv_def nth_list_update slot_idx_less split: if_splits)

lemma l1_held_update:
  assumes "l1_inv l1"
  shows "l1_held (l1[slot_idx h := None]) \<subseteq> {t \<in> l1_held l1. fst t \<noteq> h}"
    and "l1_held (l1[slot_idx h := Some \<lparr>l1_hash = h, l1_expire = x, l1_item = e\<rparr>]) \<subseteq>
      insert (h, e, if x = 0 then None else Some x) {t \<in> l1_held l1. fst t \<noteq> h}"
proof -
  have len: "length l1 = L1Slots" using assms by (simp add: l1_inv_def)
  have old: "Some item \<in> set l1 \<and> l1_hash item \<noteq> h"
    if "i < L1Slots" "i \<noteq> slot_idx h" "l1 ! i = Some item" for i item
    using that assms len by (metis l1_inv_def nth_mem)
  have mem: "Some item \<in> set (l1[slot_idx h := y]) \<Longrightarrow>
      Some item = y \<or> (Some item \<in> set l1 \<and> l1_hash item \<noteq> h)" for item y
    using old slot_idx_less [of h] len
    by (auto simp: in_set_conv_nth nth_list_update split: if_splits)
  show "l1_held (l1[slot_idx h := None]) \<subseteq> {t \<in> l1_held l1. fst t \<noteq> h}"
    using mem [where y = None] by (fastforce simp: l1_held_def)
  show "l1_held (l1[slot_idx h := Some \<lparr>l1_hash = h, l1_expire = x, l1_item = e\<rparr>]) \<subseteq>
      insert (h, e, if x = 0 then None else Some x) {t \<in> l1_held l1. fst t \<noteq> h}"
  proof
    fix u
    assume "u \<in> l1_held (l1[slot_idx h := Some \<lparr>l1_hash = h, l1_expire = x, l1_item = e\<rparr>])"
    then obtain item where item: "u = (l1_hash item, l1_item item, l1_deadline item)"
      "Some item \<in> set (l1[slot_idx h := Some \<lparr>l1_hash = h, l1_expire = x, l1_item = e\<rparr>])"
      by (auto simp: l1_held_def)
    from mem [OF item(2)]
    have "item = \<lparr>l1_hash = h, l1_expire = x, l1_item = e\<rparr> \<or> (Some item \<in> set l1 \<and> l1_hash item \<noteq> h)"
      by simp
    then show "u \<in> insert (h, e, if x = 0 then None else Some x) {t \<in> l1_held l1. fst t \<noteq> h}"
    proof
      assume "item = \<lparr>l1_hash = h, l1_expire = x, l1_item = e\<rparr>"
      then show ?thesis by (simp add: item(1) l1_deadline_def)
    next
      assume "Some item \<in> set l1 \<and> l1_hash item \<noteq> h"
      then show ?thesis unfolding item(1) l1_held_def by auto
    qed
  qed
qed

lemma l1_probe_Some:
  assumes "l1_inv (t_l1 t)" "l1_probe now h t = Some e"
  shows "\<exists>x. (h, e, x) \<in> l1_held (t_l1 t) \<and> fresh now x"
proof -
  obtain item where item: "t_l1 t ! slot_idx h = Some item" "l1_hash item = h" "l1_item item = e"
    "l1_expire item = 0 \<or> now \<le> l1_expire item"
    using assms(2) by (auto simp: l1_probe_def split: option.splits if_splits)
  have "Some item \<in> set (t_l1 t)"
    using item(1) assms(1) slot_idx_less [of h] by (metis l1_inv_def nth_mem)
  with item show ?thesis
    by (intro exI [of _ "l1_deadline item"]) (auto simp: l1_held_def l1_deadline_def fresh_def)
qed

lemma l1_probe_promoted:
  "l1_inv (t_l1 t) \<Longrightarrow> x = 0 \<or> now \<le> x \<Longrightarrow> l1_probe now h (promote_l1 h e x t) = Some e"
  using slot_idx_less [of h] by (auto simp: l1_probe_def promote_l1_def l1_inv_def)

lemma l1_probe_l2 [simp]: "l1_probe now h (t\<lparr>t_l2 := l2\<rparr>) = l1_probe now h t"
  by (simp add: l1_probe_def)

text \<open>What one \<open>Get\<close> does, by cases on the tier that answers.\<close>

lemma tiered_get_cases:
  obtains (l1) e where "l1_probe now (xx k) t = Some e" "tiered_get xx ops now k t = (Some e, t)"
  | (l2) e l2 x where "st_get ops now k (t_l2 t) = (Some e, l2)" "fresh now (e_expires e)"
      "x = (case e_expires e of None \<Rightarrow> 0 | Some y \<Rightarrow> y)"
      "tiered_get xx ops now k t = (Some e, promote_l1 (xx k) e x (t\<lparr>t_l2 := l2\<rparr>))"
  | (miss) r l2 where "st_get ops now k (t_l2 t) = (r, l2)"
      "r = None \<or> (\<exists>e. r = Some e \<and> \<not> fresh now (e_expires e))"
      "tiered_get xx ops now k t = (None, t\<lparr>t_l2 := l2\<rparr>)"
proof (cases "l1_probe now (xx k) t")
  case (Some e)
  then show ?thesis by (intro l1) (auto simp: tiered_get_def)
next
  case None
  obtain r l2 where get: "st_get ops now k (t_l2 t) = (r, l2)"
    by (cases "st_get ops now k (t_l2 t)")
  show ?thesis
  proof (cases r)
    case (Some e)
    show ?thesis
    proof (cases "fresh now (e_expires e)")
      case True
      with None get Some show ?thesis
        by (intro l2 [of e l2 "case e_expires e of None \<Rightarrow> 0 | Some y \<Rightarrow> y"])
          (auto simp: tiered_get_def Let_def fresh_def split: option.splits)
    next
      case False
      with None get Some show ?thesis
        by (intro miss [of r l2]) (auto simp: tiered_get_def Let_def fresh_def split: option.splits)
    qed
  next
    assume "r = None"
    with None get show ?thesis
      by (intro miss [of r l2]) (auto simp: tiered_get_def Let_def)
  qed
qed

lemma held_le_insert_promote:
  assumes "l1_inv (t_l1 t)"
  shows "tiered_held H (promote_l1 h e x t) \<subseteq>
    insert (h, e, if x = 0 then None else Some x) ({u \<in> l1_held (t_l1 t). fst u \<noteq> h} \<union> H (t_l2 t))"
  using l1_held_update(2) [OF assms, of h x e] by (auto simp: tiered_held_def promote_l1_def)

lemma tiered_inv_promote:
  "tiered_inv I t \<Longrightarrow> tiered_inv I (promote_l1 h e x t)"
  by (auto simp: tiered_inv_def promote_l1_def intro: l1_inv_update)

lemma tiered_inv_l2: "tiered_inv I t \<Longrightarrow> I l2 \<Longrightarrow> tiered_inv I (t\<lparr>t_l2 := l2\<rparr>)"
  by (simp add: tiered_inv_def)

lemma held_le_tiered_l2:
  "held_le (H l2) (H (t_l2 t)) \<Longrightarrow> held_le (tiered_held H (t\<lparr>t_l2 := l2\<rparr>)) (tiered_held H t)"
  unfolding tiered_held_def
  by (rule held_le_Un) (auto intro: held_le_subset held_le_mono)

lemma held_le_insert:
  "held_le A C \<Longrightarrow> (h, f, x) \<in> C \<Longrightarrow> same_response e f \<Longrightarrow> held_le (insert (h, e, x) A) C"
  by (auto simp: held_le_def)

lemma l1_inv_replicate: "l1_inv (replicate L1Slots None)"
  by (simp add: l1_inv_def)

lemma l1_held_replicate: "l1_held (replicate L1Slots None) = {}"
  by (auto simp: l1_held_def L1Slots_def)

context hashed_store
begin

text \<open>The obligations of the contract for the two tiers, one per operation.\<close>

lemma tiered_get_keeps:
  assumes "tiered_inv inv t"
  shows "tiered_inv inv (snd (tiered_get xx ops now k t))"
    and "held_le (tiered_held held (snd (tiered_get xx ops now k t))) (tiered_held held t)"
    and "fst (tiered_get xx ops now k t) = Some e \<Longrightarrow>
      \<exists>f x. (xx k, f, x) \<in> tiered_held held t \<and> same_response e f \<and> fresh now x"
proof -
  have i1: "l1_inv (t_l1 t)" and i2: "inv (t_l2 t)"
    using assms by (simp_all add: tiered_inv_def)
  have "tiered_inv inv (snd (tiered_get xx ops now k t)) \<and>
      held_le (tiered_held held (snd (tiered_get xx ops now k t))) (tiered_held held t) \<and>
      (\<forall>e. fst (tiered_get xx ops now k t) = Some e \<longrightarrow>
        (\<exists>f x. (xx k, f, x) \<in> tiered_held held t \<and> same_response e f \<and> fresh now x))"
  proof (cases rule: tiered_get_cases [of now xx k t ops])
    case (l1 e)
    with l1_probe_Some [OF i1 l1(1)] assms show ?thesis
      by (auto simp: tiered_held_def)
  next
    case (l2 e l2 x)
    have inv: "inv l2" and le: "held_le (held l2) (held (t_l2 t))"
      using get_inv [OF i2, of now k] get_held [OF i2, of now k] l2(1) by simp_all
    obtain f where f: "(xx k, f, e_expires e) \<in> held (t_l2 t)" "same_response e f"
      using get_expires [OF i2 l2(1)] by blast
    have x: "(if x = 0 then None else Some x) = e_expires e"
      using get_deadline [OF i2 l2(1)] l2(3) by (auto split: option.splits)
    have "held_le (tiered_held held (promote_l1 (xx k) e x (t\<lparr>t_l2 := l2\<rparr>)))
        (tiered_held held t)"
    proof (rule held_le_trans)
      show "held_le (tiered_held held (promote_l1 (xx k) e x (t\<lparr>t_l2 := l2\<rparr>)))
          (insert (xx k, e, e_expires e) (tiered_held held (t\<lparr>t_l2 := l2\<rparr>)))"
        using held_le_insert_promote [of "t\<lparr>t_l2 := l2\<rparr>" held "xx k" e x] i1
        unfolding x by (intro held_le_subset) (auto simp: tiered_held_def)
      show "held_le (insert (xx k, e, e_expires e) (tiered_held held (t\<lparr>t_l2 := l2\<rparr>)))
          (tiered_held held t)"
        using f by (intro held_le_insert [OF held_le_tiered_l2 [where H = held, OF le]])
          (auto simp: tiered_held_def)
    qed
    with l2 f inv assms show ?thesis
      by (auto simp: tiered_held_def intro!: tiered_inv_promote tiered_inv_l2)
  next
    case (miss r l2)
    have "inv l2" "held_le (held l2) (held (t_l2 t))"
      using get_inv [OF i2, of now k] get_held [OF i2, of now k] miss(1) by simp_all
    with miss assms show ?thesis
      by (auto intro: tiered_inv_l2 held_le_tiered_l2)
  qed
  then show "tiered_inv inv (snd (tiered_get xx ops now k t))"
    "held_le (tiered_held held (snd (tiered_get xx ops now k t))) (tiered_held held t)"
    "fst (tiered_get xx ops now k t) = Some e \<Longrightarrow>
      \<exists>f x. (xx k, f, x) \<in> tiered_held held t \<and> same_response e f \<and> fresh now x"
    by blast+
qed

lemma tiered_set_split:
  assumes "tiered_set xx ops now k e ttl t = (ok, e', t')"
  obtains e1 l2 where "e1 = e \<or> (\<exists>x. e1 = e\<lparr>e_expires := x\<rparr>)"
    "st_set ops now k e1 ttl (t_l2 t) = (ok, e', l2)"
    "t' = (if ok then promote_l1 (xx k) e' (if 0 < ttl then now + ttl else 0) (t\<lparr>t_l2 := l2\<rparr>)
           else t\<lparr>t_l2 := l2\<rparr>)"
proof -
  let ?e1 = "if 0 < ttl then e\<lparr>e_expires := Some (now + ttl)\<rparr> else e"
  obtain ok2 e2 l2 where set: "st_set ops now k ?e1 ttl (t_l2 t) = (ok2, e2, l2)"
    by (cases "st_set ops now k ?e1 ttl (t_l2 t)") auto
  with assms have "ok2 = ok" "e2 = e'"
    "t' = (if ok then promote_l1 (xx k) e' (if 0 < ttl then now + ttl else 0) (t\<lparr>t_l2 := l2\<rparr>)
           else t\<lparr>t_l2 := l2\<rparr>)"
    by (auto simp: tiered_set_def Let_def split: if_splits)
  with set show thesis by (intro that [of ?e1 l2]) auto
qed

lemma storable_e1: "storable e \<Longrightarrow> e1 = e \<or> (\<exists>x. e1 = e\<lparr>e_expires := x\<rparr>) \<Longrightarrow> storable e1"
  by (auto simp: storable_expires)

lemma tiered_set_origin:
  assumes "tiered_inv inv t" "storable e" "tiered_set xx ops now k e ttl t = (ok, e', t')"
  shows "same_origin e e' \<and> storable e'"
proof -
  obtain e1 l2 where e1: "e1 = e \<or> (\<exists>x. e1 = e\<lparr>e_expires := x\<rparr>)"
    and set: "st_set ops now k e1 ttl (t_l2 t) = (ok, e', l2)"
    by (rule tiered_set_split [OF assms(3)])
  have "same_origin e e1" using e1 by (auto simp: same_origin_def)
  moreover have "same_origin e1 e' \<and> storable e'"
    using assms(1) by (intro set_origin [OF _ storable_e1 [OF assms(2) e1] set]) (simp add: tiered_inv_def)
  ultimately show ?thesis by (simp add: same_origin_def)
qed

lemma tiered_set_keeps:
  assumes "tiered_inv inv t" "storable e" "clock_ok now ttl"
    and "tiered_set xx ops now k e ttl t = (ok, e', t')"
  shows "tiered_inv inv t'"
    and "ok \<Longrightarrow> held_le (tiered_held held t')
      (insert (xx k, e', deadline now ttl) {u \<in> tiered_held held t. fst u \<noteq> xx k})"
    and "ok \<Longrightarrow> fresh now' (deadline now ttl) \<Longrightarrow> fst (tiered_get xx ops now' k t') = Some e'"
proof -
  have i1: "l1_inv (t_l1 t)" and i2: "inv (t_l2 t)"
    using assms(1) by (simp_all add: tiered_inv_def)
  obtain e1 l2 where e1: "e1 = e \<or> (\<exists>x. e1 = e\<lparr>e_expires := x\<rparr>)"
    and set: "st_set ops now k e1 ttl (t_l2 t) = (ok, e', l2)"
    and t': "t' = (if ok then promote_l1 (xx k) e' (if 0 < ttl then now + ttl else 0) (t\<lparr>t_l2 := l2\<rparr>)
           else t\<lparr>t_l2 := l2\<rparr>)"
    by (rule tiered_set_split [OF assms(4)])
  have st: "storable e1" using assms(2) e1 by (rule storable_e1)
  have inv: "inv l2" using set_inv [OF i2 st assms(3) set] .
  then show "tiered_inv inv t'"
    using assms(1) by (auto simp: t' intro: tiered_inv_promote tiered_inv_l2)
  have dl: "(if (if 0 < ttl then now + ttl else 0) = 0 then None else Some (if 0 < ttl then now + ttl else 0))
      = deadline now ttl"
    using assms(3) by (auto simp: deadline_def clock_ok_def)
  show "held_le (tiered_held held t')
      (insert (xx k, e', deadline now ttl) {u \<in> tiered_held held t. fst u \<noteq> xx k})" if ok
  proof -
    let ?C = "insert (xx k, e', deadline now ttl) {u \<in> tiered_held held t. fst u \<noteq> xx k}"
    have l2: "held_le (held l2) (insert (xx k, e', deadline now ttl) {u \<in> held (t_l2 t). fst u \<noteq> xx k})"
      using that set by (intro set_held [OF i2 st assms(3)]) simp
    have sub: "tiered_held held t' \<subseteq>
        insert (xx k, e', deadline now ttl) ({u \<in> l1_held (t_l1 t). fst u \<noteq> xx k} \<union> held l2)"
      using held_le_insert_promote [of "t\<lparr>t_l2 := l2\<rparr>" held "xx k" e'
          "if 0 < ttl then now + ttl else 0"] i1 that
      unfolding t' dl by simp
    have "held_le ({u \<in> l1_held (t_l1 t). fst u \<noteq> xx k} \<union> held l2) ?C"
    proof (rule held_le_Un)
      show "held_le {u \<in> l1_held (t_l1 t). fst u \<noteq> xx k} ?C"
        by (rule held_le_subset) (auto simp: tiered_held_def)
      show "held_le (held l2) ?C"
        by (rule held_le_mono [OF l2]) (auto simp: tiered_held_def)
    qed
    then have "held_le (insert (xx k, e', deadline now ttl)
        ({u \<in> l1_held (t_l1 t). fst u \<noteq> xx k} \<union> held l2)) ?C"
      by (rule held_le_insert) auto
    with sub show ?thesis by (blast intro: held_le_trans held_le_subset)
  qed
  show "fst (tiered_get xx ops now' k t') = Some e'" if ok "fresh now' (deadline now ttl)"
  proof -
    have "(if 0 < ttl then now + ttl else 0) = 0 \<or> now' \<le> (if 0 < ttl then now + ttl else 0)"
      using that(2) by (auto simp: fresh_def deadline_def split: if_splits)
    then have "l1_probe now' (xx k) t' = Some e'"
      using i1 that(1) unfolding t' by (simp add: l1_probe_promoted)
    then show ?thesis by (simp add: tiered_get_def)
  qed
qed

lemma tiered_del_keeps:
  assumes "tiered_inv inv t"
  shows "tiered_inv inv (tiered_del xx ops k t)"
    and "held_le (tiered_held held (tiered_del xx ops k t)) {u \<in> tiered_held held t. fst u \<noteq> xx k}"
proof -
  have i1: "l1_inv (t_l1 t)" and i2: "inv (t_l2 t)"
    using assms by (simp_all add: tiered_inv_def)
  obtain l1 where l1: "tiered_del xx ops k t = \<lparr>t_l1 = l1, t_l2 = st_del ops k (t_l2 t)\<rparr>"
    "l1_inv l1" "l1_held l1 \<subseteq> {u \<in> l1_held (t_l1 t). fst u \<noteq> xx k}"
  proof (cases "\<exists>item. t_l1 t ! slot_idx (xx k) = Some item \<and> l1_hash item = xx k")
    case True
    with l1_held_update(1) [OF i1, of "xx k"] l1_inv_update [OF i1, of None "xx k"] show ?thesis
      by (intro that [of "(t_l1 t)[slot_idx (xx k) := None]"]) (auto simp: tiered_del_def Let_def)
  next
    case False
    have "fst u \<noteq> xx k" if "u \<in> l1_held (t_l1 t)" for u
    proof
      assume "fst u = xx k"
      with that obtain item where "Some item \<in> set (t_l1 t)" "l1_hash item = xx k"
        by (auto simp: l1_held_def)
      then obtain i where "i < L1Slots" "t_l1 t ! i = Some item"
        using i1 by (auto simp: in_set_conv_nth l1_inv_def)
      with i1 \<open>l1_hash item = xx k\<close> False show False by (auto simp: l1_inv_def)
    qed
    with False i1 show ?thesis
      by (intro that [of "t_l1 t"]) (auto simp: tiered_del_def Let_def split: option.splits)
  qed
  show "tiered_inv inv (tiered_del xx ops k t)"
    using l1 del_inv [OF i2] by (simp add: tiered_inv_def)
  have "held_le (l1_held l1) {u \<in> tiered_held held t. fst u \<noteq> xx k}"
    using l1(3) by (intro held_le_subset) (auto simp: tiered_held_def)
  moreover have "held_le (held (st_del ops k (t_l2 t))) {u \<in> tiered_held held t. fst u \<noteq> xx k}"
    by (rule held_le_mono [OF del_held [OF i2]]) (auto simp: tiered_held_def)
  ultimately show "held_le (tiered_held held (tiered_del xx ops k t)) {u \<in> tiered_held held t. fst u \<noteq> xx k}"
    unfolding l1(1) by (simp add: tiered_held_def [of held "\<lparr>t_l1 = _, t_l2 = _\<rparr>"] held_le_Un)
qed

end

sublocale hashed_store \<subseteq> tiered: cache_store "tiered_ops xx ops" "tiered_inv inv"
    "tiered_held held" xx storable
proof
  fix t now k e t'
  assume "tiered_inv inv t" "st_get (tiered_ops xx ops) now k t = (Some e, t')"
  then show "\<exists>f x. (xx k, f, x) \<in> tiered_held held t \<and> same_response e f \<and> fresh now x"
    using tiered_get_keeps(3) [of t now k e] by (simp add: tiered_ops_def)
next
  fix t e now k ttl e' t'
  assume a: "tiered_inv inv t" "storable e"
    and "st_set (tiered_ops xx ops) now k e ttl t = (False, e', t')"
  then have set: "tiered_set xx ops now k e ttl t = (False, e', t')" by (simp add: tiered_ops_def)
  obtain e1 l2 where e1: "e1 = e \<or> (\<exists>x. e1 = e\<lparr>e_expires := x\<rparr>)"
    and l2: "st_set ops now k e1 ttl (t_l2 t) = (False, e', l2)" and t': "t' = t\<lparr>t_l2 := l2\<rparr>"
    by (rule tiered_set_split [OF set]) simp
  have "held_le (held l2) (held (t_l2 t))"
    using a(1) by (intro set_fail [OF _ storable_e1 [OF a(2) e1] l2]) (simp add: tiered_inv_def)
  then show "held_le (tiered_held held t') (tiered_held held t)"
    unfolding t' by (rule held_le_tiered_l2)
next
  fix t
  assume "tiered_inv inv t"
  then show "tiered_held held (st_close (tiered_ops xx ops) t) = {}"
    by (simp add: tiered_ops_def tiered_close_def tiered_held_def l1_held_replicate close_held
        tiered_inv_def)
next
  fix t
  assume "tiered_inv inv t"
  then show "tiered_inv inv (st_close (tiered_ops xx ops) t)"
    by (simp add: tiered_ops_def tiered_close_def tiered_inv_def l1_inv_replicate close_inv)
next
  fix t e now k ttl e' t' now'
  assume "tiered_inv inv t" "storable e" "clock_ok now ttl"
    "st_set (tiered_ops xx ops) now k e ttl t = (True, e', t')" "fresh now' (deadline now ttl)"
  then show "\<exists>f. fst (st_get (tiered_ops xx ops) now' k t') = Some f \<and> same_response f e'"
    using tiered_set_keeps(3) [of t e now ttl k True e' t' now'] by (auto simp: tiered_ops_def)
qed (auto simp: tiered_ops_def tiered_get_keeps tiered_del_keeps
    dest: tiered_set_keeps(1) tiered_set_keeps(2) tiered_set_origin)

section \<open>Properties\<close>

lemma tiered_new_inv:
  "tiered_inv sharded_inv (new_tiered_store (new_sharded_store None))"
  by (simp add: tiered_inv_def new_tiered_store_def l1_inv_replicate sharded_inv_new)

lemma tiered_new_held:
  "tiered_held sharded_held (new_tiered_store (new_sharded_store None)) = {}"
  by (simp add: tiered_held_def new_tiered_store_def l1_held_replicate sharded_held_def
      shard_held_def shard_for_new)


text \<open>
  C23: once \<open>TieredStore.Set\<close> reports success, \<open>Get\<close> of that key returns the stored entry until
  its deadline and nothing after it, \<open>Del\<close> of the key removes it from both tiers, and \<open>Close\<close>
  leaves nothing to return for any key.
\<close>

theorem tiered_set_get:
  assumes "tiered_inv sharded_inv t" "storable e" "clock_ok now ttl"
    and "tiered_set xx (sharded_ops xx) now k e ttl t = (True, e', t')"
  shows "fst (tiered_get xx (sharded_ops xx) now' k t') =
      (if fresh now' (deadline now ttl) then Some e' else None) \<and>
    serves e' e \<and>
    fst (tiered_get xx (sharded_ops xx) now' k (tiered_del xx (sharded_ops xx) k t')) = None \<and>
    fst (tiered_get xx (sharded_ops xx) now' k2 (tiered_close (sharded_ops xx) t')) = None"
proof -
  let ?ops = "tiered_ops xx (sharded_ops xx)"
  have set: "st_set ?ops now k e ttl t = (True, e', t')"
    using assms(4) by (simp add: tiered_ops_def)
  note inv = sharded.tiered.set_inv [OF assms(1-3) set]
  have "fst (tiered_get xx (sharded_ops xx) now' k t') = Some e'" if "fresh now' (deadline now ttl)"
    using sharded.tiered_set_keeps(3) [OF assms] that by simp
  moreover have "fst (tiered_get xx (sharded_ops xx) now' k t') = None"
    if "\<not> fresh now' (deadline now ttl)"
    using that sharded.tiered.get_after_set_expired [OF assms(1-3) set, of now']
    by (auto simp: tiered_ops_def fresh_def deadline_def split: if_splits)
  moreover have "serves e' e"
    using sharded.tiered.set_origin [OF assms(1,2) set] by (simp add: serves_def same_origin_def)
  ultimately show ?thesis
    using sharded.tiered.get_after_del [OF inv, of xx k k now'] sharded.tiered.get_after_close [OF inv, of xx now' k2]
    by (simp add: tiered_ops_def)
qed

lemma tiered_set_sample:
  obtains e' t' where "tiered_set xx (sharded_ops xx) 0 ''k'' sample_entry 10
    (new_tiered_store (new_sharded_store None)) = (True, e', t')"
proof -
  have clk: "clock_ok 0 10" by (simp add: clock_ok_def)
  have "storable (sample_entry\<lparr>e_expires := Some 10\<rparr>)"
    by (simp add: storable_sample sharded.storable_expires)
  moreover have "persist_vary (sample_entry\<lparr>e_expires := Some 10\<rparr>) = persist_vary sample_entry"
    by (simp add: persist_vary_def)
  then have "entry_len (sample_entry\<lparr>e_expires := Some 10, e_header :=
      persist_vary (sample_entry\<lparr>e_expires := Some 10\<rparr>)\<rparr>) < 500"
    using entry_len_sample by (simp add: entry_len_def)
  ultimately have "fst (set_by_hash 0 (xx ''k'') (sample_entry\<lparr>e_expires := Some 10\<rparr>) 10
      (new_sharded_store None))"
    using set_by_hash_accepts [OF sharded_inv_new _ clk, of _ "xx ''k''"]
    by (simp add: shard_for_new)
  then obtain e' l2 where "set_by_hash 0 (xx ''k'') (sample_entry\<lparr>e_expires := Some 10\<rparr>) 10
      (new_sharded_store None) = (True, e', l2)" by (metis prod.collapse)
  then show thesis
    by (intro that) (simp add: tiered_set_def new_tiered_store_def sharded_ops_def)
qed


theorem tiered_set_get_witness:
  "\<exists>e' t'. tiered_set (\<lambda>_. 7) (sharded_ops (\<lambda>_. 7)) 0 ''k'' sample_entry 10
      (new_tiered_store (new_sharded_store None)) = (True, e', t') \<and>
    fst (tiered_get (\<lambda>_. 7) (sharded_ops (\<lambda>_. 7)) 5 ''k'' t') = Some e' \<and> e_body e' = ''hello''"
proof -
  have clk: "clock_ok 0 10" by (simp add: clock_ok_def)
  obtain e' t' where set: "tiered_set (\<lambda>_. 7) (sharded_ops (\<lambda>_. 7)) 0 ''k'' sample_entry 10
      (new_tiered_store (new_sharded_store None)) = (True, e', t')"
    by (rule tiered_set_sample)
  from tiered_set_get [OF tiered_new_inv storable_sample clk set, of 5] set show ?thesis
    by (auto simp: fresh_def deadline_def serves_def sample_entry_def)
qed

end
