(* ===== verification/Cache_Policy.thy ===== *)
theory Cache_Policy
  imports Vary Tiered_Store
begin

text \<open>
  What may be in the shared cache, as a predicate on entries, and the clients' side of the store
  contract: a store in which every entry is shareable stays so under look-ups and under storing a
  shareable entry, and every answer is shareable.
\<close>

definition shareable :: "entry \<Rightarrow> bool" where
  "shareable e = (e_status e = 200 \<and> hvalues (e_header e) ''Set-Cookie'' = [] \<and>
     \<not> contains (hget (e_header e) ''Cache-Control'') ''no-store'' \<and>
     \<not> contains (hget (e_header e) ''Cache-Control'') ''private'' \<and> hget (e_header e) ''Vary'' \<noteq> ''*'')"

definition says_public :: "entry \<Rightarrow> bool" where
  "says_public e = contains (hget (e_header e) ''Cache-Control'') ''public''"

lemma mget_visible: "\<not> is_internal_key k \<Longrightarrow> mget (visible_header h) k = mget h k"
  by (induction h) (auto simp: visible_header_def)

lemma not_internal_policy [simp]:
  "\<not> is_internal_key ''Set-Cookie''" "\<not> is_internal_key ''Cache-Control''"
  "\<not> is_internal_key ''Vary''"
  by code_simp+

lemma hvalues_visible:
  "\<not> is_internal_key k \<Longrightarrow> visible_header h = visible_header h' \<Longrightarrow> hvalues h k = hvalues h' k"
  unfolding hvalues_def by (metis mget_visible is_internal_canon)

lemma same_origin_policy:
  assumes "same_origin e e'"
  shows "shareable e' = shareable e" "says_public e' = says_public e"
proof -
  have v: "visible_header (e_header e) = visible_header (e_header e')" and st: "e_status e = e_status e'"
    using assms by (simp_all add: same_origin_def)
  have h: "hvalues (e_header e) k = hvalues (e_header e') k" if "\<not> is_internal_key k" for k
    by (rule hvalues_visible [OF that v])
  show "shareable e' = shareable e" "says_public e' = says_public e"
    by (simp_all add: shareable_def says_public_def hget_def h st)
qed

lemma same_response_policy:
  "same_response e f \<Longrightarrow> shareable e = shareable f"
  "same_response e f \<Longrightarrow> says_public e = says_public f"
  by (simp_all add: same_response_def shareable_def says_public_def)

definition clean :: "('s \<Rightarrow> bool) \<Rightarrow> ('s \<Rightarrow> 'k holding) \<Rightarrow> 's \<Rightarrow> bool" where
  "clean I H s = (I s \<and> every_held (\<lambda>k. shareable) (H s))"

context cache_store
begin

lemma clean_inv: "clean inv held s \<Longrightarrow> inv s"
  by (simp add: clean_def)

lemma clean_get:
  assumes "clean inv held s" "st_get ops now k s = (res, s')"
  shows "clean inv held s'" "held_le (held s') (held s)" "res = Some e \<Longrightarrow> shareable e"
proof -
  have inv: "inv s" and all: "every_held (\<lambda>k. shareable) (held s)" using assms(1) by (simp_all add: clean_def)
  have "every_held (\<lambda>k. shareable) (held s') \<and> (\<forall>e. res = Some e \<longrightarrow> shareable e)"
    using same_response_policy(1) by (intro all_held_get [OF inv all _ assms(2)]) blast
  then show "clean inv held s'" "res = Some e \<Longrightarrow> shareable e"
    using get_inv [OF inv, of now k] assms(2) by (simp_all add: clean_def)
  show "held_le (held s') (held s)" using get_held [OF inv, of now k] assms(2) by simp
qed

lemma clean_set:
  assumes "clean inv held s" "storable e" "clock_ok now ttl" "shareable e"
    and "st_set ops now k e ttl s = (ok, e', s')"
  shows "clean inv held s'" "shareable e'" "storable e'" "says_public e' = says_public e"
    "same_origin e e'"
proof -
  have inv: "inv s" and all: "every_held (\<lambda>k. shareable) (held s)" using assms(1) by (simp_all add: clean_def)
  have orig: "same_origin e e'" "storable e'" using set_origin [OF inv assms(2,5)] by simp_all
  then show "storable e'" "shareable e'" "says_public e' = says_public e" "same_origin e e'"
    using assms(4) by (simp_all add: same_origin_policy)
  then have "every_held (\<lambda>k. shareable) (held s')"
    by (intro all_held_set [OF inv all _ assms(2,3,5)]) (simp_all add: same_response_policy(1))
  with set_inv [OF inv assms(2,3,5)] show "clean inv held s'" by (simp add: clean_def)
qed

end

end
