(* ===== verification/Predictor.thy ===== *)
theory Predictor
  imports Complex_Main Normalizer
begin

text \<open>
  The interface \<open>Predictor\<close> of \<open>predictor.go\<close> with the contract its clients rely on, and what the two
  predictors share: session histories, the identifier tests and the ranking by \<open>sort.Slice\<close>.
  Probabilities are exact quotients; the source computes them in \<open>float64\<close>.
\<close>

section \<open>The interface\<close>

record prediction =
  pd_call :: string
  pd_pattern :: string
  pd_prob :: rat

text \<open>\<open>None\<close> is a run-time panic.\<close>

record 's predictor_ops =
  pr_record :: "string \<Rightarrow> string \<Rightarrow> string \<Rightarrow> string \<Rightarrow> 's \<Rightarrow> 's option"
  pr_predict :: "string \<Rightarrow> int \<Rightarrow> 's \<Rightarrow> prediction list option"
  pr_reset :: "string \<Rightarrow> 's \<Rightarrow> 's"

definition predictions_ok :: "prediction list \<Rightarrow> bool" where
  "predictions_ok ps = ((\<forall>p \<in> set ps. 0 < pd_prob p) \<and> sum_list (map pd_prob ps) \<le> 1 \<and>
     sorted_wrt (\<lambda>p q. pd_prob q \<le> pd_prob p) ps \<and> distinct (map pd_pattern ps))"

locale predictor_contract =
  fixes ops :: "'s predictor_ops"
    and inv :: "'s \<Rightarrow> bool"
  assumes record_ok: "inv s \<Longrightarrow> \<exists>s'. pr_record ops sid m p q s = Some s' \<and> inv s'"
    and predict_ok: "inv s \<Longrightarrow> 0 \<le> k \<Longrightarrow> \<exists>ps. pr_predict ops sid k s = Some ps \<and> predictions_ok ps \<and>
      (0 < k \<longrightarrow> int (length ps) \<le> k)"
    and reset_inv: "inv s \<Longrightarrow> inv (pr_reset ops sid s)"
    and reset_predict: "inv s \<Longrightarrow> 0 \<le> k \<Longrightarrow> pr_predict ops sid k (pr_reset ops sid s) = Some []"
    and reset_other: "inv s \<Longrightarrow> sid' \<noteq> sid \<Longrightarrow>
      pr_predict ops sid' k (pr_reset ops sid s) = pr_predict ops sid' k s"

section \<open>Ranking\<close>

text \<open>
  \<open>sort.Slice\<close> with a descending key gives some permutation of its input in descending order; which
  one, among equal keys, is unspecified, and so is the order in which a map is ranged over.
\<close>

definition sorts_desc :: "('a \<Rightarrow> 'b::linorder) \<Rightarrow> ('a list \<Rightarrow> 'a list) \<Rightarrow> bool" where
  "sorts_desc key srt = (\<forall>xs. mset (srt xs) = mset xs \<and>
     sorted_wrt (\<lambda>a b. key b \<le> key a) (srt xs))"

definition stable_desc :: "('a \<Rightarrow> 'b::linorder) \<Rightarrow> 'a list \<Rightarrow> 'a list" where
  "stable_desc key xs = rev (sort_key key (rev xs))"

lemma sorts_desc_stable: "sorts_desc key (stable_desc key)"
proof -
  have "sorted_wrt (\<lambda>a b. key a \<le> key b) (sort_key key (rev xs))" for xs
    using sorted_sort_key [of key "rev xs"] by (simp add: sorted_map)
  then show ?thesis
    by (simp add: sorts_desc_def stable_desc_def sorted_wrt_rev)
qed

lemma sorts_desc_set: "sorts_desc key srt \<Longrightarrow> set (srt xs) = set xs"
  unfolding sorts_desc_def by (metis set_mset_mset)

lemma sorts_desc_length [simp]: "sorts_desc key srt \<Longrightarrow> length (srt xs) = length xs"
  unfolding sorts_desc_def by (metis size_mset)

lemma sorts_desc_Nil: "sorts_desc key srt \<Longrightarrow> srt [] = []"
  using sorts_desc_length [of key srt "[]"] by (simp only: length_0_conv list.size(3))

lemma sum_list_take_le:
  fixes f :: "'a \<Rightarrow> rat"
  shows "(\<And>x. x \<in> set xs \<Longrightarrow> 0 \<le> f x) \<Longrightarrow> sum_list (map f (take n xs)) \<le> sum_list (map f xs)"
proof (induction xs arbitrary: n)
  case (Cons x xs)
  show ?case
  proof (cases n)
    case 0
    have "0 \<le> sum_list (map f (x # xs))"
      using Cons.prems by (intro sum_list_nonneg) auto
    with 0 show ?thesis by simp
  next
    case (Suc m)
    with Cons show ?thesis by simp
  qed
qed simp

lemma predictions_ok_take:
  assumes "predictions_ok ps"
  shows "predictions_ok (take n ps)"
proof -
  have "sum_list (map pd_prob (take n ps)) \<le> sum_list (map pd_prob ps)"
    using assms by (intro sum_list_take_le) (force simp: predictions_ok_def)
  moreover have "distinct (map pd_pattern (take n ps))"
    using assms by (simp only: predictions_ok_def take_map [symmetric] distinct_take)
  ultimately show ?thesis
    using assms by (auto simp: predictions_ok_def sorted_wrt_take dest: in_set_takeD)
qed

lemma predictions_ok_Nil [simp]: "predictions_ok []"
  by (simp add: predictions_ok_def)

lemma sum_list_mset:
  fixes f :: "'a \<Rightarrow> rat"
  shows "mset xs = mset ys \<Longrightarrow> sum_list (map f xs) = sum_list (map f ys)"
  by (metis mset_map sum_mset_sum_list)

lemma predictions_ok_ranked:
  assumes "sorts_desc key srt" "\<And>x. x \<in> set xs \<Longrightarrow> 0 < pd_prob (g x)"
    and "sum_list (map (pd_prob \<circ> g) xs) \<le> 1" "distinct (map (pd_pattern \<circ> g) xs)"
    and "\<And>x y. key y \<le> key x \<Longrightarrow> pd_prob (g y) \<le> pd_prob (g x)"
  shows "predictions_ok (map g (srt xs))"
proof -
  have m: "mset (srt xs) = mset xs" and sorted: "sorted_wrt (\<lambda>a b. key b \<le> key a) (srt xs)"
    using assms(1) by (simp_all add: sorts_desc_def)
  have "distinct (map (pd_pattern \<circ> g) (srt xs))"
    using assms(4) m by (metis mset_map mset_eq_imp_distinct_iff)
  moreover have "sorted_wrt (\<lambda>a b. pd_prob (g b) \<le> pd_prob (g a)) (srt xs)"
    using sorted by (rule sorted_wrt_mono_rel [rotated]) (rule assms(5))
  ultimately show ?thesis
    using assms(2,3) sum_list_mset [OF m, of "pd_prob \<circ> g"] sorts_desc_set [OF assms(1), of xs]
    by (auto simp: predictions_ok_def sorted_wrt_map comp_def)
qed

text \<open>
  What the contract means for a client that acts on the predictions at or above a threshold: there
  are at most \<open>1 / threshold\<close> of them, whatever was recorded.
\<close>

lemma above_threshold_bound:
  assumes "predictions_ok ps" "0 < \<tau>"
  shows "of_nat (length (filter (\<lambda>p. \<tau> \<le> pd_prob p) ps)) * \<tau> \<le> 1"
proof -
  have "of_nat (length (filter (\<lambda>p. \<tau> \<le> pd_prob p) ps)) * \<tau> \<le> sum_list (map pd_prob ps)"
    if "\<forall>p \<in> set ps. 0 < pd_prob p" for ps
    using that
  proof (induction ps)
    case (Cons p ps)
    then show ?case by (auto simp: distrib_right)
  qed simp
  from this [of ps] assms(1) show ?thesis unfolding predictions_ok_def by linarith
qed

context predictor_contract
begin

lemma predict_threshold:
  assumes "inv s" "0 \<le> k" "0 < \<tau>"
  shows "\<exists>ps. pr_predict ops sid k s = Some ps \<and>
    of_nat (length (filter (\<lambda>p. \<tau> \<le> pd_prob p) ps)) * \<tau> \<le> 1"
  using predict_ok [OF assms(1,2), of sid] above_threshold_bound [OF _ assms(3)] by blast

lemma records_ok:
  "inv s \<Longrightarrow> \<exists>s'. fold (\<lambda>(sid, m, p, q) st. Option.bind st (pr_record ops sid m p q)) calls (Some s) = Some s' \<and>
    inv s'"
proof (induction calls arbitrary: s)
  case (Cons c calls)
  obtain sid m p q where c: "c = (sid, m, p, q)" by (cases c)
  obtain s1 where "pr_record ops sid m p q s = Some s1" "inv s1"
    using record_ok [OF Cons.prems] by blast
  with Cons.IH [of s1] c show ?case by simp
qed simp

end

section \<open>Session histories\<close>

type_synonym 'h sessions = "(string, 'h list) gomap"

definition session_history :: "string \<Rightarrow> 'h sessions \<Rightarrow> 'h list" where
  "session_history sid ss = (case mget ss sid of None \<Rightarrow> [] | Some h \<Rightarrow> h)"

definition append_history :: "nat \<Rightarrow> 'h \<Rightarrow> 'h list \<Rightarrow> 'h list" where
  "append_history maxHistory step hist = (let h = hist @ [step] in
     if length h > maxHistory then drop (length h - maxHistory) h else h)"

text \<open>The eviction and the append that both \<open>Record\<close> methods perform under their lock.\<close>

definition record_session ::
  "('h sessions \<Rightarrow> nat) \<Rightarrow> nat \<Rightarrow> nat \<Rightarrow> string \<Rightarrow> 'h \<Rightarrow> 'h sessions \<Rightarrow> 'h sessions" where
  "record_session pick maxSessions maxHistory sid step ss = (let
     hist = session_history sid ss;
     ss1 = (if hist = [] \<and> maxSessions \<le> length ss then evict_one (pick ss) ss else ss)
   in mput sid (append_history maxHistory step hist) ss1)"

definition sessions_ok :: "nat \<Rightarrow> nat \<Rightarrow> ('h \<Rightarrow> bool) \<Rightarrow> 'h sessions \<Rightarrow> bool" where
  "sessions_ok maxSessions maxHistory P ss = (mwf ss \<and> length ss \<le> maxSessions \<and>
     (\<forall>sid h. mget ss sid = Some h \<longrightarrow> h \<noteq> [] \<and> length h \<le> maxHistory \<and> list_all P h))"

lemma sessions_ok_Nil [simp]: "sessions_ok n m P []"
  by (simp add: sessions_ok_def)

lemma append_history_facts:
  "0 < m \<Longrightarrow> append_history m x h \<noteq> []" "0 < m \<Longrightarrow> last (append_history m x h) = x"
  "length (append_history m x h) = min m (Suc (length h))"
  "list_all P h \<Longrightarrow> P x \<Longrightarrow> list_all P (append_history m x h)"
  by (auto simp: append_history_def Let_def list_all_iff Suc_diff_le dest!: in_set_dropD)

lemma session_history_ok: "sessions_ok n m P ss \<Longrightarrow> list_all P (session_history sid ss)"
  by (simp add: sessions_ok_def session_history_def split: option.split)

lemma session_history_None: "sessions_ok n m P ss \<Longrightarrow> session_history sid ss = [] \<longleftrightarrow> mget ss sid = None"
  by (auto simp: sessions_ok_def session_history_def split: option.splits)

lemma sessions_ok_record:
  assumes "sessions_ok n m P ss" "0 < n" "0 < m" "P x"
  shows "sessions_ok n m P (record_session pick n m sid x ss)"
proof -
  define ss1 where "ss1 = (if session_history sid ss = [] \<and> n \<le> length ss
    then evict_one (pick ss) ss else ss)"
  let ?h = "append_history m x (session_history sid ss)"
  have r: "record_session pick n m sid x ss = mput sid ?h ss1"
    by (simp add: record_session_def ss1_def Let_def)
  have sub: "mget ss1 k = Some h \<Longrightarrow> mget ss k = Some h" for k h
    by (auto simp: ss1_def dest: mget_evict_oneD split: if_splits)
  have wf: "mwf ss1" using assms(1) by (simp add: ss1_def sessions_ok_def wf_intros)
  have h: "?h \<noteq> []" "length ?h \<le> m" "list_all P ?h"
    using append_history_facts(1) [OF assms(3)] append_history_facts(3) [of m x "session_history sid ss"]
      append_history_facts(4) [where P = P, OF session_history_ok [OF assms(1)] assms(4)]
    by simp_all
  have len: "length (mput sid ?h ss1) \<le> n"
  proof (cases "mget ss1 sid = None")
    case True
    have "Suc (length ss1) \<le> n"
    proof (cases "n \<le> length ss")
      case full: True
      have "mget ss sid = None"
      proof (cases "session_history sid ss = []")
        case True
        then show ?thesis using session_history_None [OF assms(1)] by simp
      next
        case False
        with True show ?thesis by (simp add: ss1_def)
      qed
      then have "session_history sid ss = []" by (simp add: session_history_def)
      moreover have "ss \<noteq> []" "mwf ss" "length ss \<le> n"
        using full assms(1,2) by (auto simp: sessions_ok_def)
      ultimately show ?thesis
        using full length_evict_one [of ss "pick ss"] by (simp add: ss1_def)
    qed (simp add: ss1_def)
    with True show ?thesis by (simp add: length_mput)
  next
    case False
    have "length ss1 \<le> length ss"
    proof (cases "ss = []")
      case nonempty: False
      have "mwf ss" using assms(1) by (simp add: sessions_ok_def)
      from length_evict_one [OF this nonempty, of "pick ss"] show ?thesis by (simp add: ss1_def)
    qed (simp add: ss1_def evict_one_def)
    with False assms(1) show ?thesis by (auto simp: length_mput sessions_ok_def)
  qed
  have "h' \<noteq> [] \<and> length h' \<le> m \<and> list_all P h'" if "mget (mput sid ?h ss1) k = Some h'" for k h'
  proof (cases "k = sid")
    case True
    with that h show ?thesis by (simp add: map_simps)
  next
    case False
    with that have "mget ss k = Some h'" using sub [of k h'] by (simp add: map_simps)
    with assms(1) show ?thesis unfolding sessions_ok_def by blast
  qed
  with wf len show ?thesis unfolding r sessions_ok_def by (blast intro: mwf_mput)
qed

lemma sessions_ok_del: "sessions_ok n m P ss \<Longrightarrow> sessions_ok n m P (mdel sid ss)"
proof -
  assume ok: "sessions_ok n m P ss"
  have "length (mdel sid ss) \<le> length ss" by (rule length_delete_le)
  with ok show ?thesis by (auto simp: sessions_ok_def wf_intros map_simps)
qed

lemma history_record_same:
  "0 < m \<Longrightarrow> session_history sid (record_session pick n m sid x ss) =
    append_history m x (session_history sid ss)"
  by (simp add: record_session_def session_history_def map_simps Let_def)

lemma history_record_other:
  "sid' \<noteq> sid \<Longrightarrow> session_history sid' (record_session pick n m sid x ss) \<in> {[], session_history sid' ss}"
  by (auto simp: record_session_def session_history_def map_simps Let_def
      dest: mget_evict_oneD split: option.splits)

lemma history_del:
  "session_history sid (mdel sid' ss) = (if sid = sid' then [] else session_history sid ss)"
  by (simp add: session_history_def map_simps)

section \<open>Identifiers in a path\<close>

definition isNumeric :: "string \<Rightarrow> bool" where
  "isNumeric s = (s \<noteq> [] \<and> list_all is_digit s)"

definition isUUID :: "string \<Rightarrow> bool" where
  "isUUID s = (length s = 36 \<and> s ! 8 = CHR ''-'' \<and> s ! 13 = CHR ''-'' \<and> s ! 18 = CHR ''-'' \<and>
     s ! 23 = CHR ''-'')"

definition isHexID :: "string \<Rightarrow> bool" where
  "isHexID s = (length s = 24 \<and> list_all is_hex s)"

text \<open>\<open>!strings.Contains(pattern, ":id") && ...\<close>: a route without placeholders.\<close>

definition static_pattern :: "string \<Rightarrow> bool" where
  "static_pattern pattern = (\<not> contains pattern '':id'' \<and> \<not> contains pattern '':uuid'' \<and>
     \<not> contains pattern '':hex'')"

definition concrete_call :: "string \<Rightarrow> string \<Rightarrow> string \<Rightarrow> string" where
  "concrete_call method path rawQuery =
     method @ '' '' @ path @ (if rawQuery \<noteq> [] then ''?'' @ rawQuery else [])"

end
