(* ===== verification/Client_Assets.thy ===== *)
theory Client_Assets
  imports Predictor Go_Http
begin

text \<open>
  \<open>client.go\<close>: the embedded browser assets and the \<open>Link\<close> header with speculation rules. The embedded
  files are data of the model; \<open>a_wasm\<close> is \<open>None\<close> when \<open>precog.wasm\<close> could not be read.
\<close>

record assets =
  a_script :: bytes
  a_wasm_exec :: bytes
  a_wasm :: "bytes option"

definition client_script_tag :: string where
  "client_script_tag = ''<script src='' @ [char_of (34 :: nat)] @ ''/precog/precog.js'' @
     [char_of (34 :: nat)] @ '' defer></script>''"

definition serve_file :: "string \<Rightarrow> string \<Rightarrow> bytes \<Rightarrow> client \<Rightarrow> client" where
  "serve_file contentType cacheControl data w =
     cl_write data (cl_set ''Cache-Control'' cacheControl (cl_set ''Content-Type'' contentType w))"

text \<open>\<open>http.NotFound\<close>.\<close>

definition http_not_found :: "client \<Rightarrow> client" where
  "http_not_found w = cl_write (''404 page not found'' @ [char_of (10 :: nat)])
     (cl_write_header 404 (cl_set ''X-Content-Type-Options'' ''nosniff''
       (cl_set ''Content-Type'' ''text/plain; charset=utf-8'' w)))"

definition serve_client_assets :: "assets \<Rightarrow> request \<Rightarrow> client \<Rightarrow> bool \<times> client" where
  "serve_client_assets a r w = (
     if r_path r = ''/precog/precog.js''
     then (True, serve_file ''application/javascript; charset=utf-8'' ''public, max-age=3600'' (a_script a) w)
     else if r_path r = ''/precog/wasm_exec.js''
     then (True, serve_file ''application/javascript; charset=utf-8'' ''public, max-age=3600'' (a_wasm_exec a) w)
     else if r_path r = ''/precog/precog.wasm''
     then (True, case a_wasm a of
             Some b \<Rightarrow> serve_file ''application/wasm'' ''public, max-age=86400'' b w
           | None \<Rightarrow> http_not_found w)
     else (False, w))"

text \<open>\<open>strings.Contains(url, ":id") || ...\<close>: a placeholder that was not filled in.\<close>

definition unhydrated :: "string \<Rightarrow> bool" where
  "unhydrated url = (contains url '':id'' \<or> contains url '':uuid'' \<or> contains url '':hex'')"

definition call_url :: "string \<Rightarrow> string" where
  "call_url call = (case split_n2 (CHR '' '') call of [method, url] \<Rightarrow> url | _ \<Rightarrow> call)"

fun link_parts :: "prediction list \<Rightarrow> string list" where
  "link_parts [] = []"
| "link_parts (p # ps) = (let url = call_url (pd_call p) in
     if unhydrated url then link_parts ps
     else if has_prefix url ''/'' then (''<'' @ url @ ''>; rel=prefetch'') # link_parts ps
     else link_parts ps)"

definition build_speculation_rules_header :: "prediction list \<Rightarrow> string" where
  "build_speculation_rules_header preds = (if preds = [] then [] else join '', '' (link_parts preds))"

lemma length_link_parts: "length (link_parts ps) \<le> length ps"
  by (induction ps) (auto simp: Let_def)

lemma link_parts_mem:
  "x \<in> set (link_parts ps) \<Longrightarrow> \<exists>p \<in> set ps. \<exists>url. url = call_url (pd_call p) \<and> \<not> unhydrated url \<and>
    has_prefix url ''/'' \<and> x = ''<'' @ url @ ''>; rel=prefetch''"
  by (induction ps) (auto simp: Let_def split: if_splits)

end
