(* ===== verification/Response_Writer.thy ===== *)
theory Response_Writer
  imports Go_Http
begin

text \<open>
  \<open>response_writer.go\<close>: the \<open>capturingResponseWriter\<close>, which buffers what a handler writes so that
  it can be cached, and turns into a pass-through when the response is a stream, an upgrade or too
  large. A handler is the sequence of calls it makes on its writer (\<open>wop\<close>). The byte counts and
  errors that \<open>Write\<close> reports to the handler are not modelled.
\<close>

section \<open>The writer\<close>

record crw =
  rw_w :: client
  rw_header :: header
  rw_buf :: bytes
  rw_status :: int
  rw_max :: int
  rw_written :: bool
  rw_streaming :: bool
  rw_overflow :: bool

definition new_crw :: "client \<Rightarrow> int \<Rightarrow> crw" where
  "new_crw w maxBytes = \<lparr>rw_w = w, rw_header = [], rw_buf = [], rw_status = 0, rw_max = maxBytes,
     rw_written = False, rw_streaming = False, rw_overflow = False\<rparr>"

definition crw_commit :: "crw \<Rightarrow> crw" where
  "crw_commit c = (if rw_written c then c
     else c\<lparr>rw_written := True,
            rw_w := cl_write_header (if 0 < rw_status c then rw_status c else 200)
                      (cl_add_all (rw_header c) (rw_w c))\<rparr>)"

definition crw_write_header :: "int \<Rightarrow> crw \<Rightarrow> crw" where
  "crw_write_header code c = (if rw_written c then c
     else let c1 = c\<lparr>rw_status := code\<rparr> in
       if has_prefix (hget (rw_header c) ''Content-Type'') ''text/event-stream'' \<or>
          hget (rw_header c) ''Upgrade'' \<noteq> []
       then crw_commit (c1\<lparr>rw_streaming := True\<rparr>) else c1)"

text \<open>\<open>if c.buf.Len() > 0 { c.w.Write(c.buf.Bytes()); c.buf.Reset() }\<close>.\<close>

definition crw_drain :: "crw \<Rightarrow> crw" where
  "crw_drain c = (if rw_buf c = [] then c
     else c\<lparr>rw_w := cl_write (rw_buf c) (rw_w c), rw_buf := []\<rparr>)"

definition crw_through :: "bytes \<Rightarrow> crw \<Rightarrow> crw" where
  "crw_through b c = c\<lparr>rw_w := cl_write b (rw_w c)\<rparr>"

definition crw_write :: "bytes \<Rightarrow> crw \<Rightarrow> crw" where
  "crw_write b c = (
     if rw_streaming c then crw_through b (crw_commit c)
     else if 0 < rw_max c \<and> int (length (rw_buf c) + length b) > rw_max c
     then crw_through b (crw_drain (crw_commit (c\<lparr>rw_overflow := True, rw_streaming := True\<rparr>)))
     else c\<lparr>rw_buf := rw_buf c @ b\<rparr>)"

definition crw_flush :: "crw \<Rightarrow> crw" where
  "crw_flush c = (let c1 = crw_drain (crw_commit (c\<lparr>rw_streaming := True\<rparr>)) in
     if cl_flusher (rw_w c1) then c1\<lparr>rw_w := cl_flush (rw_w c1)\<rparr> else c1)"

definition crw_hijack :: "crw \<Rightarrow> bool \<times> crw" where
  "crw_hijack c = (let c1 = c\<lparr>rw_streaming := True\<rparr> in
     if cl_hijacker (rw_w c1) then (True, c1\<lparr>rw_w := (rw_w c1)\<lparr>cl_hijacked := True\<rparr>\<rparr>) else (False, c1))"

definition body_bytes :: "crw \<Rightarrow> bytes" where
  "body_bytes c = rw_buf c"

definition status_code :: "crw \<Rightarrow> int" where
  "status_code c = (if 0 < rw_status c then rw_status c else 200)"

section \<open>Handlers\<close>

datatype wop =
    SetHdr string string
  | AddHdr string string
  | DelHdr string
  | WriteHdr int
  | WriteB bytes
  | FlushW
  | HijackW

fun crw_op :: "wop \<Rightarrow> crw \<Rightarrow> crw" where
  "crw_op (SetHdr k v) c = c\<lparr>rw_header := hset k v (rw_header c)\<rparr>"
| "crw_op (AddHdr k v) c = c\<lparr>rw_header := hadd k v (rw_header c)\<rparr>"
| "crw_op (DelHdr k) c = c\<lparr>rw_header := hdel k (rw_header c)\<rparr>"
| "crw_op (WriteHdr code) c = crw_write_header code c"
| "crw_op (WriteB b) c = crw_write b c"
| "crw_op FlushW c = crw_flush c"
| "crw_op HijackW c = snd (crw_hijack c)"

definition run_ops :: "wop list \<Rightarrow> crw \<Rightarrow> crw" where
  "run_ops ops c = fold crw_op ops c"

text \<open>The same calls made on the server's own \<open>ResponseWriter\<close>.\<close>

fun direct_op :: "wop \<Rightarrow> client \<Rightarrow> client" where
  "direct_op (SetHdr k v) w = cl_set k v w"
| "direct_op (AddHdr k v) w = cl_add k v w"
| "direct_op (DelHdr k) w = w\<lparr>cl_header := hdel k (cl_header w)\<rparr>"
| "direct_op (WriteHdr code) w = cl_write_header code w"
| "direct_op (WriteB b) w = cl_write b w"
| "direct_op FlushW w = (if cl_flusher w then cl_flush w else w)"
| "direct_op HijackW w = (if cl_hijacker w then w\<lparr>cl_hijacked := True\<rparr> else w)"

definition run_direct :: "wop list \<Rightarrow> client \<Rightarrow> client" where
  "run_direct ops w = fold direct_op ops w"

fun written :: "wop list \<Rightarrow> bytes" where
  "written [] = []"
| "written (WriteB b # ops) = b @ written ops"
| "written (_ # ops) = written ops"

fun is_header_op :: "wop \<Rightarrow> bool" where
  "is_header_op (SetHdr k v) = True"
| "is_header_op (AddHdr k v) = True"
| "is_header_op (DelHdr k) = True"
| "is_header_op _ = False"

fun is_body_op :: "wop \<Rightarrow> bool" where
  "is_body_op (WriteB b) = True"
| "is_body_op FlushW = True"
| "is_body_op _ = False"

lemma run_ops_simps [simp]:
  "run_ops [] c = c" "run_ops (x # ops) c = run_ops ops (crw_op x c)"
  "run_ops (ops1 @ ops2) c = run_ops ops2 (run_ops ops1 c)"
  by (simp_all add: run_ops_def)

lemma run_direct_simps [simp]:
  "run_direct [] w = w" "run_direct (x # ops) w = run_direct ops (direct_op x w)"
  "run_direct (ops1 @ ops2) w = run_direct ops2 (run_direct ops1 w)"
  by (simp_all add: run_direct_def)

lemma written_append [simp]: "written (ops1 @ ops2) = written ops1 @ written ops2"
  by (induction ops1 rule: written.induct) auto

lemma crw_commit_fields [simp]:
  "rw_header (crw_commit c) = rw_header c" "rw_buf (crw_commit c) = rw_buf c"
  "rw_status (crw_commit c) = rw_status c" "rw_max (crw_commit c) = rw_max c"
  "rw_written (crw_commit c)" "rw_streaming (crw_commit c) = rw_streaming c"
  "rw_overflow (crw_commit c) = rw_overflow c"
  "cl_body (rw_w (crw_commit c)) = cl_body (rw_w c)"
  "cl_flusher (rw_w (crw_commit c)) = cl_flusher (rw_w c)"
  by (simp_all add: crw_commit_def)

lemma crw_drain_fields [simp]:
  "rw_header (crw_drain c) = rw_header c" "rw_buf (crw_drain c) = []"
  "rw_status (crw_drain c) = rw_status c" "rw_max (crw_drain c) = rw_max c"
  "rw_written (crw_drain c) = rw_written c" "rw_streaming (crw_drain c) = rw_streaming c"
  "rw_overflow (crw_drain c) = rw_overflow c"
  "cl_body (rw_w (crw_drain c)) = cl_body (rw_w c) @ rw_buf c"
  "cl_flusher (rw_w (crw_drain c)) = cl_flusher (rw_w c)"
  by (simp_all add: crw_drain_def)

lemma crw_through_fields [simp]:
  "rw_header (crw_through b c) = rw_header c" "rw_buf (crw_through b c) = rw_buf c"
  "rw_status (crw_through b c) = rw_status c" "rw_max (crw_through b c) = rw_max c"
  "rw_written (crw_through b c) = rw_written c" "rw_streaming (crw_through b c) = rw_streaming c"
  "rw_overflow (crw_through b c) = rw_overflow c"
  "cl_body (rw_w (crw_through b c)) = cl_body (rw_w c) @ b"
  by (simp_all add: crw_through_def)

section \<open>While nothing has been committed\<close>

text \<open>
  The invariant of the buffering mode, and what streaming leaves behind: the client has seen nothing
  until \<open>streaming\<close> is set, and the buffer holds what was written and is within the limit.
\<close>

definition crw_inv :: "client \<Rightarrow> int \<Rightarrow> bytes \<Rightarrow> crw \<Rightarrow> bool" where
  "crw_inv w m out c = (rw_max c = m \<and> (rw_written c \<longrightarrow> rw_streaming c) \<and>
     (rw_overflow c \<longrightarrow> rw_streaming c) \<and>
     (\<not> rw_streaming c \<longrightarrow> rw_w c = w \<and> rw_buf c = out) \<and>
     (0 < m \<longrightarrow> int (length (rw_buf c)) \<le> m))"

lemma crw_inv_new: "crw_inv w m [] (new_crw w m)"
  by (simp add: crw_inv_def new_crw_def)

lemma crw_inv_op:
  "crw_inv w m out c \<Longrightarrow> crw_inv w m (out @ written [x]) (crw_op x c)"
  by (cases x) (auto simp: crw_inv_def crw_write_header_def crw_write_def crw_flush_def
      crw_hijack_def Let_def)

lemma crw_inv_run: "crw_inv w m out c \<Longrightarrow> crw_inv w m (out @ written ops) (run_ops ops c)"
proof (induction ops arbitrary: out c)
  case (Cons x ops)
  have "written (x # ops) = written [x] @ written ops" by (cases x) auto
  with Cons.IH [OF crw_inv_op [OF Cons.prems, of x]] show ?case by simp
qed simp

lemma streaming_op [simp]: "rw_streaming c \<Longrightarrow> rw_streaming (crw_op x c)"
  by (cases x) (auto simp: crw_write_header_def crw_write_def crw_flush_def crw_hijack_def Let_def)

lemma streaming_run: "rw_streaming c \<Longrightarrow> rw_streaming (run_ops ops c)"
  by (induction ops arbitrary: c) auto

section \<open>Properties\<close>

text \<open>
  whatever a handler calls, until the writer enters streaming mode the client has not been
  touched and the buffer is exactly the bytes written so far; the buffer never exceeds a positive
  \<open>maxBytes\<close>; an overflow and a committed header both imply streaming mode, and streaming mode is
  never left.
\<close>

theorem capture_buffers_until_streaming:
  fixes ops ops2 :: "wop list" and w :: client and m :: int
  defines "c \<equiv> run_ops ops (new_crw w m)"
  shows "(\<not> rw_streaming c \<longrightarrow> rw_w c = w \<and> body_bytes c = written ops) \<and>
    (0 < m \<longrightarrow> int (length (body_bytes c)) \<le> m) \<and>
    (rw_overflow c \<or> rw_written c \<longrightarrow> rw_streaming c) \<and>
    (rw_streaming c \<longrightarrow> rw_streaming (run_ops ops2 c))"
  using crw_inv_run [OF crw_inv_new [of w m], of ops] streaming_run [of c ops2]
  by (auto simp: crw_inv_def c_def body_bytes_def)

theorem capture_buffers_until_streaming_witness:
  "body_bytes (run_ops [WriteB ''ab'', WriteB ''c''] (new_crw new_client 3)) = ''abc''"
proof -
  have "\<not> rw_streaming (run_ops [WriteB ''ab'', WriteB ''c''] (new_crw new_client 3))" by code_simp
  with capture_buffers_until_streaming [of "[WriteB ''ab'', WriteB ''c'']" new_client 3] show ?thesis
    by simp
qed

text \<open>Proper handlers: headers first, one \<open>WriteHeader\<close>, then only writes and flushes.\<close>

definition canonical_header :: "header \<Rightarrow> bool" where
  "canonical_header h = (mwf h \<and> (\<forall>k \<in> set (map fst h). canon_key k = k))"

lemma canonical_header_ops:
  assumes "canonical_header h"
  shows "canonical_header (hset k v h)" "canonical_header (hadd k v h)" "canonical_header (hdel k h)"
proof -
  show "canonical_header (hset k v h)" "canonical_header (hadd k v h)"
    using assms keys_mput [of "canon_key k" _ h]
    by (auto simp: canonical_header_def hset_def hadd_def wf_intros)
  show "canonical_header (hdel k h)"
    using assms by (auto simp: canonical_header_def hdel_def wf_intros dest!: set_mdel_subset [THEN subsetD])
qed

lemma run_header_ops:
  assumes "list_all is_header_op hs" "canonical_header (rw_header c)" "rw_header c = cl_header w"
  shows "\<exists>h. canonical_header h \<and> run_ops hs c = c\<lparr>rw_header := h\<rparr> \<and> run_direct hs w = w\<lparr>cl_header := h\<rparr>"
  using assms
proof (induction hs arbitrary: c w)
  case Nil
  then show ?case by (intro exI [of _ "cl_header w"]) simp
next
  case (Cons x hs)
  define h where "h = rw_header (crw_op x c)"
  have h: "canonical_header h" "crw_op x c = c\<lparr>rw_header := h\<rparr>" "direct_op x w = w\<lparr>cl_header := h\<rparr>"
    using Cons.prems by (cases x; simp add: h_def canonical_header_ops cl_set_def cl_add_def)+
  from Cons.IH [of "c\<lparr>rw_header := h\<rparr>" "w\<lparr>cl_header := h\<rparr>"] Cons.prems(1) h show ?case
    by auto
qed

lemma hvalues_fold_add:
  "hvalues (cl_header (fold (\<lambda>v w. cl_add k v w) vv w)) q =
    hvalues (cl_header w) q @ (if canon_key q = canon_key k then vv else [])"
proof (induction vv arbitrary: w)
  case (Cons v vv)
  from Cons.IH [of "cl_add k v w"] show ?case
    by (auto simp: hadd_def hvalues_def map_simps)
qed simp

lemma hvalues_add_all:
  "canonical_header h \<Longrightarrow>
    hvalues (cl_header (cl_add_all h w)) q = hvalues (cl_header w) q @ hvalues h q"
proof (induction h arbitrary: w)
  case (Cons x h)
  obtain k vv where x: "x = (k, vv)" by (cases x)
  have k: "canon_key k = k" "canonical_header h" "mget h k = None"
    using Cons.prems by (auto simp: x canonical_header_def map_of_eq_None_iff)
  have "hvalues ((k, vv) # h) q = (if canon_key q = k then vv else hvalues h q)"
    by (simp add: hvalues_def)
  moreover have "hvalues h q = []" if "canon_key q = k"
    using k(3) that by (simp add: hvalues_def)
  ultimately show ?case
    using Cons.IH [OF k(2), of "fold (\<lambda>v w. cl_add k v w) vv w"] k(1)
    by (simp add: x cl_add_all_simps hvalues_fold_add del: fold_simps)
qed (simp add: cl_add_all_simps hvalues_def)

text \<open>The two runs side by side after the header phase.\<close>

definition mirrors :: "header \<Rightarrow> int \<Rightarrow> client \<Rightarrow> crw \<Rightarrow> client \<Rightarrow> bool" where
  "mirrors h code w c d = (rw_header c = h \<and> rw_status c = code \<and> cl_sent d = Some (code, h) \<and>
     cl_flusher d = cl_flusher (rw_w c) \<and> (rw_streaming c \<longleftrightarrow> rw_written c) \<and>
     (if rw_streaming c
      then cl_body (rw_w c) = cl_body d \<and> rw_buf c = [] \<and>
        cl_sent (rw_w c) = Some (code, cl_header (cl_add_all h w))
      else rw_w c = w \<and> rw_buf c = cl_body d))"

lemma mirrors_op:
  assumes "mirrors h code w c d" "is_body_op x" "0 < code" "cl_sent w = None" "cl_body w = []"
  shows "mirrors h code w (crw_op x c) (direct_op x d)"
  using assms
  by (cases x) (auto simp: mirrors_def crw_write_def crw_flush_def Let_def crw_commit_def
      crw_drain_def crw_through_def)

lemma mirrors_run:
  "mirrors h code w c d \<Longrightarrow> list_all is_body_op ops \<Longrightarrow> 0 < code \<Longrightarrow> cl_sent w = None \<Longrightarrow>
    cl_body w = [] \<Longrightarrow> mirrors h code w (run_ops ops c) (run_direct ops d)"
  by (induction ops arbitrary: c d) (auto simp: mirrors_op)

text \<open>A proper handler on a writer whose own header is not empty: the captured header is the one set.\<close>

lemma capture_mirrors:
  assumes "list_all is_header_op hs" "list_all is_body_op bs" "0 < code"
    and "cl_sent w = None" "cl_body w = []"
  shows "\<exists>h. canonical_header h \<and> mirrors h code w (run_ops (hs @ WriteHdr code # bs) (new_crw w m))
    (run_direct (hs @ WriteHdr code # bs) (w\<lparr>cl_header := []\<rparr>))"
proof -
  have can: "canonical_header (rw_header (new_crw w m))"
    "rw_header (new_crw w m) = cl_header (w\<lparr>cl_header := []\<rparr>)"
    by (simp_all add: new_crw_def canonical_header_def)
  obtain h where h: "canonical_header h" "run_ops hs (new_crw w m) = (new_crw w m)\<lparr>rw_header := h\<rparr>"
    "run_direct hs (w\<lparr>cl_header := []\<rparr>) = w\<lparr>cl_header := h\<rparr>"
    using run_header_ops [OF assms(1) can] by auto
  have "mirrors h code w (crw_write_header code ((new_crw w m)\<lparr>rw_header := h\<rparr>))
      (cl_write_header code (w\<lparr>cl_header := h\<rparr>))"
    using assms(3-5) by (auto simp: mirrors_def crw_write_header_def new_crw_def Let_def crw_commit_def)
  from mirrors_run [OF this assms(2-5)] h show ?thesis by (intro exI [of _ h]) simp
qed

text \<open>
  C16: a handler that sets headers, calls \<open>WriteHeader\<close> once and then writes and flushes produces the
  same response through the capturing writer as it does on the server's writer. When the writer went
  into streaming mode, the client has the same status, body and header values; when it did not, the
  client is untouched and \<open>StatusCode\<close>, \<open>Header\<close> and \<open>BodyBytes\<close> describe the response that would
  have been sent.
\<close>

theorem capture_equals_direct:
  assumes "list_all is_header_op hs" "list_all is_body_op bs" "0 < code"
    and "cl_sent w = None" "cl_header w = []" "cl_body w = []"
    and "c = run_ops (hs @ WriteHdr code # bs) (new_crw w m)"
    and "d = run_direct (hs @ WriteHdr code # bs) w"
  shows "\<exists>h. cl_sent d = Some (code, h) \<and>
    (if rw_streaming c
     then cl_body (rw_w c) = cl_body d \<and>
       (\<exists>h'. cl_sent (rw_w c) = Some (code, h') \<and> (\<forall>k. hvalues h' k = hvalues h k))
     else rw_w c = w \<and> body_bytes c = cl_body d \<and> status_code c = code \<and> rw_header c = h)"
proof -
  have w: "w\<lparr>cl_header := []\<rparr> = w" using assms(5) by (cases w) simp
  obtain h where h: "canonical_header h" and m: "mirrors h code w c d"
    using capture_mirrors [OF assms(1-4,6), of m] unfolding w assms(7,8) by blast
  have "hvalues (cl_header (cl_add_all h w)) k = hvalues h k" for k
    by (simp add: hvalues_add_all [OF h] assms(5)) (simp add: hvalues_def)
  with m assms(3) show ?thesis
    by (auto simp: mirrors_def body_bytes_def status_code_def)
qed

theorem capture_equals_direct_witness:
  "cl_body (rw_w (run_ops ([AddHdr ''x-a'' ''1''] @ WriteHdr 404 # [WriteB ''ab'', FlushW, WriteB ''c''])
      (new_crw new_client 10))) =
    cl_body (run_direct ([AddHdr ''x-a'' ''1''] @ WriteHdr 404 # [WriteB ''ab'', FlushW, WriteB ''c'']) new_client)"
proof -
  have "rw_streaming (run_ops ([AddHdr ''x-a'' ''1''] @ WriteHdr 404 # [WriteB ''ab'', FlushW, WriteB ''c''])
      (new_crw new_client 10))" by code_simp
  with capture_equals_direct [OF _ _ _ _ _ _ refl refl,
      of "[AddHdr ''x-a'' ''1'']" "[WriteB ''ab'', FlushW, WriteB ''c'']" 404 new_client 10]
  show ?thesis by (auto simp: new_client_def)
qed

text \<open>
  a handler that has already written bytes and then declares an event stream has its bytes sent
  out of order: the buffer is not drained when \<open>WriteHeader\<close> commits, so later bytes overtake it, and
  it reaches the client with the next \<open>Flush\<close> (or never). The server's own writer keeps the order.
\<close>

theorem event_stream_reorders_bytes:
  "cl_body (rw_w (run_ops [WriteB ''a'', SetHdr ''Content-Type'' ''text/event-stream'', WriteHdr 200,
      WriteB ''b'', FlushW] (new_crw new_client m))) = ''ba'' \<and>
    cl_body (run_direct [WriteB ''a'', SetHdr ''Content-Type'' ''text/event-stream'', WriteHdr 200,
      WriteB ''b'', FlushW] new_client) = ''ab''"
proof -
  have c: "canon_key ''Content-Type'' = ''Content-Type''" by code_simp
  have p: "has_prefix ''text/event-stream'' ''text/event-stream''" by code_simp
  show ?thesis
    by (simp add: new_crw_def new_client_def crw_write_def crw_write_header_def crw_flush_def
        crw_commit_def crw_drain_def crw_through_def Let_def hget_def hvalues_def hset_def c p)
qed

text \<open>
  before the response is committed the last \<open>WriteHeader\<close> wins, while on the server's writer the
  first one does: a response that the client would have seen with one status is captured, and so
  cached and shared, with another.
\<close>

theorem last_write_header_wins:
  fixes code1 code2 m :: int
  shows "rw_streaming (run_ops [WriteHdr code1, WriteHdr code2] (new_crw new_client m)) = False \<and>
    status_code (run_ops [WriteHdr code1, WriteHdr code2] (new_crw new_client m)) =
      (if 0 < code2 then code2 else 200) \<and>
    map_option fst (cl_sent (run_direct [WriteHdr code1, WriteHdr code2] new_client)) = Some code1"
proof -
  have p: "\<not> has_prefix [] ''text/event-stream''" by code_simp
  show ?thesis
    by (simp add: new_crw_def new_client_def crw_write_header_def Let_def hget_def hvalues_def
        status_code_def p)
qed

end
