(* ===== verification/Telemetry.thy ===== *)
theory Telemetry
  imports Complex_Main Prelude
begin

text \<open>
  \<open>telemetry.go\<close>: four 64-bit counters bumped by atomic additions. \<open>HitRate\<close> is the exact quotient
  here; the source computes it in \<open>float64\<close>.
\<close>

record telemetry =
  tl_total :: "64 word"
  tl_hits :: "64 word"
  tl_misses :: "64 word"
  tl_prefetches :: "64 word"

record stats =
  s_total :: "64 word"
  s_hits :: "64 word"
  s_misses :: "64 word"
  s_prefetches :: "64 word"
  s_hit_rate :: rat

definition new_telemetry :: telemetry where
  "new_telemetry = \<lparr>tl_total = 0, tl_hits = 0, tl_misses = 0, tl_prefetches = 0\<rparr>"

text \<open>The atomic steps, in the order in which a call performs them.\<close>

datatype tick = TickTotal | TickHit | TickMiss | TickPrefetch

fun tick_step :: "tick \<Rightarrow> telemetry \<Rightarrow> telemetry" where
  "tick_step TickTotal t = t\<lparr>tl_total := tl_total t + 1\<rparr>"
| "tick_step TickHit t = t\<lparr>tl_hits := tl_hits t + 1\<rparr>"
| "tick_step TickMiss t = t\<lparr>tl_misses := tl_misses t + 1\<rparr>"
| "tick_step TickPrefetch t = t\<lparr>tl_prefetches := tl_prefetches t + 1\<rparr>"

definition record_hit :: "telemetry \<Rightarrow> telemetry" where
  "record_hit t = tick_step TickHit (tick_step TickTotal t)"

definition record_miss :: "telemetry \<Rightarrow> telemetry" where
  "record_miss t = tick_step TickMiss (tick_step TickTotal t)"

definition record_prefetch :: "telemetry \<Rightarrow> telemetry" where
  "record_prefetch t = tick_step TickPrefetch t"

text \<open>
  \<open>Stats\<close> loads the four counters one after the other; between two loads other goroutines may take
  steps, so the general form reads each counter in a state of its own.
\<close>

definition stats_loads :: "telemetry \<Rightarrow> telemetry \<Rightarrow> telemetry \<Rightarrow> telemetry \<Rightarrow> stats" where
  "stats_loads t1 t2 t3 t4 = (let total = tl_total t1; hits = tl_hits t2 in
     \<lparr>s_total = total, s_hits = hits, s_misses = tl_misses t3, s_prefetches = tl_prefetches t4,
      s_hit_rate = (if total > 0 then of_nat (unat hits) / of_nat (unat total) else 0)\<rparr>)"

definition stats_of :: "telemetry \<Rightarrow> stats" where
  "stats_of t = stats_loads t t t t"

datatype event = Hit | Miss | Prefetch

fun record_event :: "event \<Rightarrow> telemetry \<Rightarrow> telemetry" where
  "record_event Hit t = record_hit t"
| "record_event Miss t = record_miss t"
| "record_event Prefetch t = record_prefetch t"

definition record_all :: "event list \<Rightarrow> telemetry \<Rightarrow> telemetry" where
  "record_all evs t = fold record_event evs t"

lemma record_all_counts:
  "tl_total (record_all evs t) = tl_total t + of_nat (count_list evs Hit + count_list evs Miss) \<and>
   tl_hits (record_all evs t) = tl_hits t + of_nat (count_list evs Hit) \<and>
   tl_misses (record_all evs t) = tl_misses t + of_nat (count_list evs Miss) \<and>
   tl_prefetches (record_all evs t) = tl_prefetches t + of_nat (count_list evs Prefetch)"
proof (induction evs arbitrary: t)
  case Nil
  show ?case by (simp add: record_all_def)
next
  case (Cons ev evs)
  have "record_all (ev # evs) t = record_all evs (record_event ev t)"
    by (simp add: record_all_def)
  with Cons.IH [of "record_event ev t"] show ?case
    by (cases ev) (simp_all add: record_hit_def record_miss_def record_prefetch_def)
qed

section \<open>Properties\<close>

text \<open>
  the snapshot of a quiescent telemetry counts exactly the recorded hits, misses and prefetches,
  requests are hits plus misses even when a counter wraps around, and while fewer than \<open>2 ^ 64\<close>
  requests were recorded the hit rate is the fraction of hits and lies between 0 and 1.
\<close>

theorem telemetry_counts:
  fixes evs :: "event list"
  defines "st \<equiv> stats_of (record_all evs new_telemetry)"
  shows "s_total st = s_hits st + s_misses st \<and>
    s_hits st = of_nat (count_list evs Hit) \<and> s_misses st = of_nat (count_list evs Miss) \<and>
    s_prefetches st = of_nat (count_list evs Prefetch) \<and>
    (count_list evs Hit + count_list evs Miss < 2 ^ 64 \<longrightarrow>
      s_hit_rate st * of_nat (count_list evs Hit + count_list evs Miss) = of_nat (count_list evs Hit) \<and>
      0 \<le> s_hit_rate st \<and> s_hit_rate st \<le> 1)"
proof -
  let ?h = "count_list evs Hit" and ?m = "count_list evs Miss"
  note counts = record_all_counts [of evs new_telemetry]
  have st: "s_total st = of_nat (?h + ?m)" "s_hits st = of_nat ?h" "s_misses st = of_nat ?m"
    "s_prefetches st = of_nat (count_list evs Prefetch)"
    "s_hit_rate st = (if s_total st > 0
       then of_nat (unat (s_hits st)) / of_nat (unat (s_total st)) else 0)"
    using counts by (simp_all add: st_def stats_of_def stats_loads_def Let_def new_telemetry_def)
  have "s_hit_rate st * of_nat (?h + ?m) = of_nat ?h \<and> 0 \<le> s_hit_rate st \<and> s_hit_rate st \<le> 1"
    if small: "?h + ?m < 2 ^ 64"
  proof (cases "?h + ?m = 0")
    case True
    then show ?thesis by (simp add: st)
  next
    case False
    have u: "unat (of_nat (?h + ?m) :: 64 word) = ?h + ?m" "unat (of_nat ?h :: 64 word) = ?h"
      using small by (simp_all add: unat_of_nat take_bit_nat_eq_self del: of_nat_add)
    then have pos: "(of_nat (?h + ?m) :: 64 word) > 0"
      using False by (metis unat_0 word_gt_0)
    have rate: "s_hit_rate st = of_nat ?h / of_nat (?h + ?m)"
      using pos u by (simp add: st del: of_nat_add)
    have "(of_nat (?h + ?m) :: rat) > 0"
      using False by (simp only: of_nat_0_less_iff)
    then show ?thesis by (simp add: rate divide_le_eq del: of_nat_add)
  qed
  then show ?thesis by (simp add: st)
qed

theorem telemetry_counts_witness:
  "s_hit_rate (stats_of (record_all [Hit, Miss, Prefetch, Hit, Hit] new_telemetry)) \<le> 1"
  using telemetry_counts [of "[Hit, Miss, Prefetch, Hit, Hit]"] by simp

text \<open>
  a snapshot taken while a hit is being recorded can be torn: \<open>Stats\<close> that loads the total,
  and then the hits after one more \<open>RecordHit\<close>, reports more hits than requests and a hit rate of 2.
\<close>

theorem stats_torn_read:
  fixes t :: telemetry
  defines "t \<equiv> record_hit new_telemetry"
  shows "s_hit_rate (stats_loads t (record_hit t) (record_hit t) (record_hit t)) = 2"
  by (simp add: t_def stats_loads_def record_hit_def new_telemetry_def Let_def)

end
