(* ===== verification/Coalesce.thy ===== *)
theory Coalesce
  imports Prelude
begin

text \<open>
  \<open>coalesce.go\<close>: \<open>InflightGroup.DoContext\<close> as a step relation. A thread is one call of \<open>DoContext\<close>;
  its program counter says how far it is. The regions under the shard mutex are one step each, and
  so are the end of \<open>fn\<close>, the closing of the \<open>done\<close> channel and the return. \<open>fn\<close> is arbitrary: it may
  return any entry and error, panic, or end its goroutine with \<open>runtime.Goexit\<close>. A waiting call may
  be cancelled at any time.
\<close>

section \<open>State\<close>

definition numCoalesceShards :: nat where
  "numCoalesceShards = 64"

datatype co_error = ErrNotShareable | ErrStreamingResponse | ErrPanicked | ErrOther nat

text \<open>\<open>inflightCall\<close>; \<open>c_done\<close> is true once the channel \<open>done\<close> is closed.\<close>

record 'v inflight_call =
  c_done :: bool
  c_entry :: "'v option"
  c_err :: "co_error option"

text \<open>
  Program counters, with the key and, once it is known, the index of the \<open>inflightCall\<close>:
  \<open>Start\<close> before the lookup; \<open>Waiting\<close> in the \<open>select\<close>; \<open>Running\<close> inside \<open>fn\<close>; \<open>Finished\<close> after
  \<open>fn\<close>; \<open>Removed\<close> after the deletion; \<open>Closed\<close> after \<open>close(c.done)\<close> (the flag is \<open>panicked\<close>); and the
  outcomes.
\<close>

datatype 'v pc =
    Start string
  | Waiting string nat
  | Running string nat
  | Finished string nat bool
  | Removed string nat bool
  | Closed string nat bool
  | Returned string nat "'v option" "co_error option"
  | Panicked string nat
  | Cancelled string nat
  | Exited string nat

record 'v group =
  g_shards :: "(string, nat) gomap list"
  g_heap :: "'v inflight_call list"
  g_pcs :: "'v pc list"

definition new_group :: "string list \<Rightarrow> 'v group" where
  "new_group keys = \<lparr>g_shards = replicate numCoalesceShards [], g_heap = [], g_pcs = map Start keys\<rparr>"

definition shard_idx :: "(string \<Rightarrow> 64 word) \<Rightarrow> string \<Rightarrow> nat" where
  "shard_idx xx key = unat (xx key mod of_nat numCoalesceShards)"

definition calls_get :: "(string \<Rightarrow> 64 word) \<Rightarrow> string \<Rightarrow> 'v group \<Rightarrow> nat option" where
  "calls_get xx key g = mget (g_shards g ! shard_idx xx key) key"

definition calls_put :: "(string \<Rightarrow> 64 word) \<Rightarrow> string \<Rightarrow> nat \<Rightarrow> 'v group \<Rightarrow> 'v group" where
  "calls_put xx key c g = g\<lparr>g_shards := (g_shards g)[shard_idx xx key :=
     mput key c (g_shards g ! shard_idx xx key)]\<rparr>"

definition calls_del :: "(string \<Rightarrow> 64 word) \<Rightarrow> string \<Rightarrow> 'v group \<Rightarrow> 'v group" where
  "calls_del xx key g = g\<lparr>g_shards := (g_shards g)[shard_idx xx key :=
     mdel key (g_shards g ! shard_idx xx key)]\<rparr>"

definition set_pc :: "nat \<Rightarrow> 'v pc \<Rightarrow> 'v group \<Rightarrow> 'v group" where
  "set_pc t p g = g\<lparr>g_pcs := (g_pcs g)[t := p]\<rparr>"

definition put_call :: "nat \<Rightarrow> 'v inflight_call \<Rightarrow> 'v group \<Rightarrow> 'v group" where
  "put_call c x g = g\<lparr>g_heap := (g_heap g)[c := x]\<rparr>"

definition new_call :: "'v inflight_call" where
  "new_call = \<lparr>c_done = False, c_entry = None, c_err = None\<rparr>"

section \<open>Steps\<close>

text \<open>The two ways through the first critical section.\<close>

definition do_join :: "nat \<Rightarrow> string \<Rightarrow> nat \<Rightarrow> 'v group \<Rightarrow> 'v group" where
  "do_join t key c g = set_pc t (Waiting key c) g"

definition do_lead :: "(string \<Rightarrow> 64 word) \<Rightarrow> nat \<Rightarrow> string \<Rightarrow> 'v group \<Rightarrow> 'v group" where
  "do_lead xx t key g = (let c = length (g_heap g) in
     set_pc t (Running key c) (calls_put xx key c (g\<lparr>g_heap := g_heap g @ [new_call]\<rparr>)))"

text \<open>\<open>c.entry, c.err = fn()\<close>, or the recovered panic.\<close>

definition do_fn :: "nat \<Rightarrow> string \<Rightarrow> nat \<Rightarrow> 'v option \<Rightarrow> co_error option \<Rightarrow> 'v group \<Rightarrow> 'v group" where
  "do_fn t key c v e g = set_pc t (Finished key c False)
     (put_call c ((g_heap g ! c)\<lparr>c_entry := v, c_err := e\<rparr>) g)"

definition do_panic :: "nat \<Rightarrow> string \<Rightarrow> nat \<Rightarrow> 'v group \<Rightarrow> 'v group" where
  "do_panic t key c g = set_pc t (Finished key c True) g"

definition do_remove :: "(string \<Rightarrow> 64 word) \<Rightarrow> nat \<Rightarrow> string \<Rightarrow> nat \<Rightarrow> bool \<Rightarrow> 'v group \<Rightarrow> 'v group" where
  "do_remove xx t key c p g = set_pc t (Removed key c p) (calls_del xx key g)"

definition do_close :: "nat \<Rightarrow> string \<Rightarrow> nat \<Rightarrow> bool \<Rightarrow> 'v group \<Rightarrow> 'v group" where
  "do_close t key c p g = (let
     x = g_heap g ! c;
     x1 = (if p then x\<lparr>c_err := Some ErrPanicked\<rparr> else x)
   in set_pc t (Closed key c p) (put_call c (x1\<lparr>c_done := True\<rparr>) g))"

definition result_of :: "string \<Rightarrow> nat \<Rightarrow> 'v group \<Rightarrow> 'v pc" where
  "result_of key c g = Returned key c (c_entry (g_heap g ! c)) (c_err (g_heap g ! c))"

definition do_return :: "nat \<Rightarrow> string \<Rightarrow> nat \<Rightarrow> bool \<Rightarrow> 'v group \<Rightarrow> 'v group" where
  "do_return t key c p g = set_pc t (if p then Panicked key c else result_of key c g) g"

definition at_pc :: "'v group \<Rightarrow> nat \<Rightarrow> 'v pc \<Rightarrow> bool" where
  "at_pc g t p = (t < length (g_pcs g) \<and> g_pcs g ! t = p)"

text \<open>The steps a thread can always take by itself, and those that depend on its surroundings.\<close>

inductive co_step :: "(string \<Rightarrow> 64 word) \<Rightarrow> 'v group \<Rightarrow> 'v group \<Rightarrow> bool" for xx where
  join: "at_pc g t (Start k) \<Longrightarrow> calls_get xx k g = Some c \<Longrightarrow> co_step xx g (do_join t k c g)"
| lead: "at_pc g t (Start k) \<Longrightarrow> calls_get xx k g = None \<Longrightarrow> co_step xx g (do_lead xx t k g)"
| fn: "at_pc g t (Running k c) \<Longrightarrow> co_step xx g (do_fn t k c v e g)"
| panic: "at_pc g t (Running k c) \<Longrightarrow> co_step xx g (do_panic t k c g)"
| goexit: "at_pc g t (Running k c) \<Longrightarrow> co_step xx g (set_pc t (Exited k c) g)"
| remove: "at_pc g t (Finished k c p) \<Longrightarrow> co_step xx g (do_remove xx t k c p g)"
| close: "at_pc g t (Removed k c p) \<Longrightarrow> co_step xx g (do_close t k c p g)"
| return: "at_pc g t (Closed k c p) \<Longrightarrow> co_step xx g (do_return t k c p g)"
| wake: "at_pc g t (Waiting k c) \<Longrightarrow> c_done (g_heap g ! c) \<Longrightarrow>
    co_step xx g (set_pc t (result_of k c g) g)"
| cancel: "at_pc g t (Waiting k c) \<Longrightarrow> co_step xx g (set_pc t (Cancelled k c) g)"

definition reachable :: "(string \<Rightarrow> 64 word) \<Rightarrow> string list \<Rightarrow> 'v group \<Rightarrow> bool" where
  "reachable xx keys g = (co_step xx)\<^sup>*\<^sup>* (new_group keys) g"

inductive_cases co_stepE: "co_step xx g g'"

section \<open>Invariant\<close>

text \<open>Who holds the registration of a key, who owns a call, and who still has to close it.\<close>

fun leading :: "'v pc \<Rightarrow> (string \<times> nat) option" where
  "leading (Running k c) = Some (k, c)"
| "leading (Finished k c p) = Some (k, c)"
| "leading (Exited k c) = Some (k, c)"
| "leading _ = None"

fun closer :: "'v pc \<Rightarrow> nat option" where
  "closer (Removed k c p) = Some c"
| "closer p = map_option snd (leading p)"

fun pc_ok :: "(string \<Rightarrow> 64 word) \<Rightarrow> 'v group \<Rightarrow> 'v pc \<Rightarrow> bool" where
  "pc_ok xx g (Start k) = True"
| "pc_ok xx g (Waiting k c) = (c < length (g_heap g))"
| "pc_ok xx g (Running k c) = (c < length (g_heap g) \<and> g_heap g ! c = new_call \<and> calls_get xx k g = Some c)"
| "pc_ok xx g (Exited k c) = (c < length (g_heap g) \<and> g_heap g ! c = new_call \<and> calls_get xx k g = Some c)"
| "pc_ok xx g (Finished k c p) = (c < length (g_heap g) \<and> \<not> c_done (g_heap g ! c) \<and>
     (p \<longrightarrow> c_entry (g_heap g ! c) = None) \<and> calls_get xx k g = Some c)"
| "pc_ok xx g (Removed k c p) = (c < length (g_heap g) \<and> \<not> c_done (g_heap g ! c) \<and>
     (p \<longrightarrow> c_entry (g_heap g ! c) = None))"
| "pc_ok xx g (Closed k c p) = (c < length (g_heap g) \<and> c_done (g_heap g ! c) \<and>
     (p \<longrightarrow> c_entry (g_heap g ! c) = None \<and> c_err (g_heap g ! c) = Some ErrPanicked))"
| "pc_ok xx g (Returned k c v e) = (c < length (g_heap g) \<and> c_done (g_heap g ! c) \<and>
     v = c_entry (g_heap g ! c) \<and> e = c_err (g_heap g ! c))"
| "pc_ok xx g (Panicked k c) = (c < length (g_heap g) \<and> c_done (g_heap g ! c) \<and>
     c_entry (g_heap g ! c) = None \<and> c_err (g_heap g ! c) = Some ErrPanicked)"
| "pc_ok xx g (Cancelled k c) = True"

definition pcs_ok :: "(string \<Rightarrow> 64 word) \<Rightarrow> 'v group \<Rightarrow> bool" where
  "pcs_ok xx g = (\<forall>t < length (g_pcs g). pc_ok xx g (g_pcs g ! t))"

definition one_closer :: "'v group \<Rightarrow> bool" where
  "one_closer g = (\<forall>t u c. t < length (g_pcs g) \<longrightarrow> u < length (g_pcs g) \<longrightarrow>
     closer (g_pcs g ! t) = Some c \<longrightarrow> closer (g_pcs g ! u) = Some c \<longrightarrow> t = u)"

definition calls_led :: "(string \<Rightarrow> 64 word) \<Rightarrow> 'v group \<Rightarrow> bool" where
  "calls_led xx g = (\<forall>k c. calls_get xx k g = Some c \<longrightarrow>
     (\<exists>t < length (g_pcs g). leading (g_pcs g ! t) = Some (k, c)))"

definition undone_closed :: "'v group \<Rightarrow> bool" where
  "undone_closed g = (\<forall>c < length (g_heap g). \<not> c_done (g_heap g ! c) \<longrightarrow>
     (\<exists>t < length (g_pcs g). closer (g_pcs g ! t) = Some c))"

definition shards_ok :: "(string \<Rightarrow> 64 word) \<Rightarrow> 'v group \<Rightarrow> bool" where
  "shards_ok xx g = (length (g_shards g) = numCoalesceShards \<and>
     (\<forall>i < numCoalesceShards. \<forall>k. mget (g_shards g ! i) k \<noteq> None \<longrightarrow> i = shard_idx xx k))"

definition co_inv :: "(string \<Rightarrow> 64 word) \<Rightarrow> 'v group \<Rightarrow> bool" where
  "co_inv xx g = (shards_ok xx g \<and> pcs_ok xx g \<and> one_closer g \<and> calls_led xx g \<and> undone_closed g)"

lemma shard_idx_less: "shard_idx xx k < numCoalesceShards"
  by (simp add: shard_idx_def numCoalesceShards_def unat_mod_distrib)

lemma group_fields [simp]:
  "g_heap (set_pc t p g) = g_heap g" "g_shards (set_pc t p g) = g_shards g"
  "g_pcs (set_pc t p g) = (g_pcs g)[t := p]"
  "g_heap (put_call c x g) = (g_heap g)[c := x]" "g_shards (put_call c x g) = g_shards g"
  "g_pcs (put_call c x g) = g_pcs g"
  "g_heap (calls_put xx k c g) = g_heap g" "g_pcs (calls_put xx k c g) = g_pcs g"
  "g_heap (calls_del xx k g) = g_heap g" "g_pcs (calls_del xx k g) = g_pcs g"
  by (simp_all add: set_pc_def put_call_def calls_put_def calls_del_def)

lemma calls_get_frame [simp]:
  "calls_get xx k (set_pc t p g) = calls_get xx k g"
  "calls_get xx k (put_call c x g) = calls_get xx k g"
  "calls_get xx k (g\<lparr>g_heap := h\<rparr>) = calls_get xx k g"
  by (simp_all add: calls_get_def)

lemma shard_idx_in: "shards_ok xx g \<Longrightarrow> shard_idx xx k < length (g_shards g)"
  using shard_idx_less [of xx k] unfolding shards_ok_def by (elim conjE) (simp only:)

lemma calls_get_put:
  assumes "shards_ok xx g"
  shows "calls_get xx k' (calls_put xx k c g) = (if k' = k then Some c else calls_get xx k' g)"
  using shard_idx_in [OF assms, of k]
  by (cases "shard_idx xx k = shard_idx xx k'") (auto simp: calls_get_def calls_put_def map_simps)

lemma calls_get_del:
  assumes "shards_ok xx g"
  shows "calls_get xx k' (calls_del xx k g) = (if k' = k then None else calls_get xx k' g)"
  using shard_idx_in [OF assms, of k]
  by (cases "shard_idx xx k = shard_idx xx k'") (auto simp: calls_get_def calls_del_def map_simps)

lemma shards_ok_update:
  assumes "shards_ok xx g" "\<And>k'. mget m k' \<noteq> None \<Longrightarrow> k' = k \<or> mget (g_shards g ! shard_idx xx k) k' \<noteq> None"
  shows "shards_ok xx (g\<lparr>g_shards := (g_shards g)[shard_idx xx k := m]\<rparr>)"
  unfolding shards_ok_def
proof (intro conjI allI impI)
  fix i k'
  assume i: "i < numCoalesceShards"
    and k': "mget (g_shards (g\<lparr>g_shards := (g_shards g)[shard_idx xx k := m]\<rparr>) ! i) k' \<noteq> None"
  show "i = shard_idx xx k'"
  proof (cases "i = shard_idx xx k")
    case True
    with k' shard_idx_in [OF assms(1), of k] have "mget m k' \<noteq> None" by simp
    with assms(2) True i assms(1) show ?thesis unfolding shards_ok_def by blast
  next
    case False
    with k' i assms(1) show ?thesis unfolding shards_ok_def by simp
  qed
qed (use assms(1) in \<open>simp add: shards_ok_def\<close>)

lemma shards_ok_put: "shards_ok xx g \<Longrightarrow> shards_ok xx (calls_put xx k c g)"
  unfolding calls_put_def by (rule shards_ok_update) (auto simp: map_simps)

lemma shards_ok_del: "shards_ok xx g \<Longrightarrow> shards_ok xx (calls_del xx k g)"
  unfolding calls_del_def by (rule shards_ok_update) (auto simp: map_simps)

lemma shards_ok_frame [simp]:
  "shards_ok xx (set_pc t p g) = shards_ok xx g" "shards_ok xx (put_call c' x g) = shards_ok xx g"
  "shards_ok xx (g\<lparr>g_heap := h\<rparr>) = shards_ok xx g"
  by (simp_all add: shards_ok_def)

text \<open>
  A step of thread \<open>t\<close> from \<open>p\<close> to \<open>p'\<close>: the parts of the invariant about program counters follow
  from what changes in the heap and in the calls.
\<close>

lemma pcs_ok_step:
  assumes "pcs_ok xx g" "g_pcs g' = (g_pcs g)[t := p']" "pc_ok xx g' p'"
    and "\<And>u. u < length (g_pcs g) \<Longrightarrow> u \<noteq> t \<Longrightarrow> pc_ok xx g (g_pcs g ! u) \<Longrightarrow> pc_ok xx g' (g_pcs g ! u)"
  shows "pcs_ok xx g'"
  unfolding pcs_ok_def
proof (intro allI impI)
  fix u
  assume "u < length (g_pcs g')"
  then have u: "u < length (g_pcs g)" by (simp add: assms(2))
  with assms(1) have "pc_ok xx g (g_pcs g ! u)" by (simp add: pcs_ok_def)
  with assms(3,4) u show "pc_ok xx g' (g_pcs g' ! u)"
    by (cases "u = t") (simp_all add: assms(2))
qed

lemma one_closer_step:
  assumes "one_closer g" "g_pcs g' = (g_pcs g)[t := p']" "t < length (g_pcs g)"
    and "closer p' = None \<or> closer p' = closer (g_pcs g ! t) \<or>
      (\<forall>u < length (g_pcs g). closer (g_pcs g ! u) \<noteq> closer p')"
  shows "one_closer g'"
  using assms unfolding one_closer_def
  by (metis length_list_update nth_list_update option.distinct(1))

lemma calls_led_step:
  assumes "calls_led xx g" "at_pc g t p" "g_pcs g' = (g_pcs g)[t := p']"
    and "\<And>k c. calls_get xx k g' = Some c \<Longrightarrow> leading p' = Some (k, c) \<or>
      (calls_get xx k g = Some c \<and> leading p \<noteq> Some (k, c))"
  shows "calls_led xx g'"
  unfolding calls_led_def
proof (intro allI impI)
  fix k c
  assume "calls_get xx k g' = Some c"
  from assms(4) [OF this] show "\<exists>u < length (g_pcs g'). leading (g_pcs g' ! u) = Some (k, c)"
  proof
    assume "leading p' = Some (k, c)"
    with assms(2,3) show ?thesis by (intro exI [of _ t]) (simp add: at_pc_def)
  next
    assume old: "calls_get xx k g = Some c \<and> leading p \<noteq> Some (k, c)"
    with assms(1) obtain u where "u < length (g_pcs g)" "leading (g_pcs g ! u) = Some (k, c)"
      unfolding calls_led_def by blast
    moreover from this old assms(2) have "u \<noteq> t" by (auto simp: at_pc_def)
    ultimately show ?thesis using assms(3) by (intro exI [of _ u]) simp
  qed
qed

lemma undone_closed_step:
  assumes "undone_closed g" "at_pc g t p" "g_pcs g' = (g_pcs g)[t := p']"
    and "\<And>c. c < length (g_heap g') \<Longrightarrow> \<not> c_done (g_heap g' ! c) \<Longrightarrow> closer p' = Some c \<or>
      (c < length (g_heap g) \<and> \<not> c_done (g_heap g ! c) \<and> closer p \<noteq> Some c)"
  shows "undone_closed g'"
  unfolding undone_closed_def
proof (intro allI impI)
  fix c
  assume "c < length (g_heap g')" "\<not> c_done (g_heap g' ! c)"
  from assms(4) [OF this] show "\<exists>u < length (g_pcs g'). closer (g_pcs g' ! u) = Some c"
  proof
    assume "closer p' = Some c"
    with assms(2,3) show ?thesis by (intro exI [of _ t]) (simp add: at_pc_def)
  next
    assume old: "c < length (g_heap g) \<and> \<not> c_done (g_heap g ! c) \<and> closer p \<noteq> Some c"
    with assms(1) obtain u where "u < length (g_pcs g)" "closer (g_pcs g ! u) = Some c"
      unfolding undone_closed_def by blast
    moreover from this old assms(2) have "u \<noteq> t" by (auto simp: at_pc_def)
    ultimately show ?thesis using assms(3) by (intro exI [of _ u]) simp
  qed
qed

text \<open>An owner of a call is its only one, and nobody has yet returned from an unfinished call.\<close>

lemma owner_unique:
  "one_closer g \<Longrightarrow> at_pc g t p \<Longrightarrow> closer p = Some c \<Longrightarrow> u < length (g_pcs g) \<Longrightarrow> u \<noteq> t \<Longrightarrow>
    closer (g_pcs g ! u) \<noteq> Some c"
  unfolding one_closer_def at_pc_def by blast

lemma pc_at: "pcs_ok xx g \<Longrightarrow> at_pc g t p \<Longrightarrow> pc_ok xx g p"
  by (auto simp: pcs_ok_def at_pc_def)

lemma closer_in_heap: "pcs_ok xx g \<Longrightarrow> u < length (g_pcs g) \<Longrightarrow> closer (g_pcs g ! u) = Some c \<Longrightarrow>
    c < length (g_heap g)"
  unfolding pcs_ok_def by (cases "g_pcs g ! u") auto

text \<open>Every step that only moves one thread, to a program counter with no call to close.\<close>

lemma co_inv_set_pc:
  assumes "co_inv xx g" "at_pc g t p" "pc_ok xx g p'" "leading p' = leading p" "closer p' = closer p"
  shows "co_inv xx (set_pc t p' g)"
proof -
  have inv: "shards_ok xx g" "pcs_ok xx g" "one_closer g" "calls_led xx g" "undone_closed g"
    using assms(1) by (simp_all add: co_inv_def)
  have ok: "pc_ok xx (set_pc t p' g) q = pc_ok xx g q" for q
    by (cases q) auto
  have t: "t < length (g_pcs g)" "g_pcs g ! t = p" using assms(2) by (simp_all add: at_pc_def)
  have "pcs_ok xx (set_pc t p' g)"
    by (rule pcs_ok_step [OF inv(2), of _ t p']) (simp_all add: ok assms(3))
  moreover have "one_closer (set_pc t p' g)"
    by (rule one_closer_step [OF inv(3) _ t(1), of _ p']) (simp_all add: t assms(5))
  moreover have "calls_led xx (set_pc t p' g)"
    by (rule calls_led_step [OF inv(4) assms(2)]) (auto simp: assms(4))
  moreover have "undone_closed (set_pc t p' g)"
    by (rule undone_closed_step [OF inv(5) assms(2)]) (auto simp: assms(5))
  ultimately show ?thesis using inv(1) by (simp add: co_inv_def)
qed

lemma co_inv_lead:
  assumes "co_inv xx g" "at_pc g t (Start k)" "calls_get xx k g = None"
  shows "co_inv xx (do_lead xx t k g)"
proof -
  have inv: "shards_ok xx g" "pcs_ok xx g" "one_closer g" "calls_led xx g" "undone_closed g"
    using assms(1) by (simp_all add: co_inv_def)
  let ?c = "length (g_heap g)"
  have t: "t < length (g_pcs g)" "g_pcs g ! t = Start k" using assms(2) by (simp_all add: at_pc_def)
  have f: "g_pcs (do_lead xx t k g) = (g_pcs g)[t := Running k ?c]"
    "g_heap (do_lead xx t k g) = g_heap g @ [new_call]"
    by (simp_all add: do_lead_def Let_def)
  have calls: "calls_get xx k' (do_lead xx t k g) = (if k' = k then Some ?c else calls_get xx k' g)" for k'
    using inv(1) by (simp add: do_lead_def Let_def calls_get_put)
  have "pc_ok xx (do_lead xx t k g) q" if "pc_ok xx g q" for q
    using that assms(3) by (cases q) (auto simp: f calls nth_append)
  then have "pcs_ok xx (do_lead xx t k g)"
    by (intro pcs_ok_step [OF inv(2) f(1)]) (simp_all add: f calls)
  moreover have "closer (g_pcs g ! u) \<noteq> Some ?c" if "u < length (g_pcs g)" for u
    using closer_in_heap [OF inv(2) that, of ?c] by blast
  then have "one_closer (do_lead xx t k g)"
    by (intro one_closer_step [OF inv(3) f(1) t(1)]) simp
  moreover have "calls_led xx (do_lead xx t k g)"
    by (rule calls_led_step [OF inv(4) assms(2) f(1)]) (auto simp: calls split: if_splits)
  moreover have "undone_closed (do_lead xx t k g)"
    by (rule undone_closed_step [OF inv(5) assms(2) f(1)])
      (auto simp: f nth_append less_Suc_eq split: if_splits)
  moreover have "shards_ok xx (do_lead xx t k g)"
    using inv(1) by (simp add: do_lead_def Let_def shards_ok_put)
  ultimately show ?thesis by (simp add: co_inv_def)
qed

lemma co_inv_fn:
  assumes "co_inv xx g" "at_pc g t (Running k c)"
  shows "co_inv xx (do_fn t k c v e g)"
proof -
  have inv: "shards_ok xx g" "pcs_ok xx g" "one_closer g" "calls_led xx g" "undone_closed g"
    using assms(1) by (simp_all add: co_inv_def)
  have t: "t < length (g_pcs g)" "g_pcs g ! t = Running k c" using assms(2) by (simp_all add: at_pc_def)
  have run: "c < length (g_heap g)" "g_heap g ! c = new_call" "calls_get xx k g = Some c"
    using pc_at [OF inv(2) assms(2)] by simp_all
  have f: "g_pcs (do_fn t k c v e g) = (g_pcs g)[t := Finished k c False]"
    "g_heap (do_fn t k c v e g) = (g_heap g)[c := new_call\<lparr>c_entry := v, c_err := e\<rparr>]"
    "calls_get xx k' (do_fn t k c v e g) = calls_get xx k' g" for k'
    by (simp_all add: do_fn_def run)
  have "pc_ok xx (do_fn t k c v e g) q" if "pc_ok xx g q" "closer q \<noteq> Some c" for q
    using that run by (cases q) (auto simp: f nth_list_update new_call_def)
  then have "pcs_ok xx (do_fn t k c v e g)"
    using owner_unique [OF inv(3) assms(2)] run
    by (intro pcs_ok_step [OF inv(2) f(1)]) (simp_all add: f new_call_def)
  moreover have "one_closer (do_fn t k c v e g)"
    by (rule one_closer_step [OF inv(3) f(1) t(1)]) (simp add: t)
  moreover have "calls_led xx (do_fn t k c v e g)"
    by (rule calls_led_step [OF inv(4) assms(2) f(1)]) (auto simp: f)
  moreover have "undone_closed (do_fn t k c v e g)"
    using run by (intro undone_closed_step [OF inv(5) assms(2) f(1)])
      (auto simp: f nth_list_update new_call_def split: if_splits)
  ultimately show ?thesis using inv(1) by (simp add: co_inv_def do_fn_def)
qed

lemma co_inv_remove:
  assumes "co_inv xx g" "at_pc g t (Finished k c p)"
  shows "co_inv xx (do_remove xx t k c p g)"
proof -
  have inv: "shards_ok xx g" "pcs_ok xx g" "one_closer g" "calls_led xx g" "undone_closed g"
    using assms(1) by (simp_all add: co_inv_def)
  have t: "t < length (g_pcs g)" "g_pcs g ! t = Finished k c p" using assms(2) by (simp_all add: at_pc_def)
  have run: "c < length (g_heap g)" "\<not> c_done (g_heap g ! c)" "p \<longrightarrow> c_entry (g_heap g ! c) = None"
    "calls_get xx k g = Some c"
    using pc_at [OF inv(2) assms(2)] by simp_all
  have f: "g_pcs (do_remove xx t k c p g) = (g_pcs g)[t := Removed k c p]"
    "g_heap (do_remove xx t k c p g) = g_heap g"
    "calls_get xx k' (do_remove xx t k c p g) = (if k' = k then None else calls_get xx k' g)" for k'
    using inv(1) by (simp_all add: do_remove_def calls_get_del)
  have "pc_ok xx (do_remove xx t k c p g) q" if "pc_ok xx g q" "closer q \<noteq> Some c" for q
    using that run by (cases q) (auto simp: f)
  moreover have "pc_ok xx (do_remove xx t k c p g) (Removed k c p)"
    unfolding pc_ok.simps f using run by simp
  ultimately have "pcs_ok xx (do_remove xx t k c p g)"
    using owner_unique [OF inv(3) assms(2)]
    by (intro pcs_ok_step [OF inv(2) f(1)]) simp_all
  moreover have "one_closer (do_remove xx t k c p g)"
    by (rule one_closer_step [OF inv(3) f(1) t(1)]) (simp add: t)
  moreover have "calls_led xx (do_remove xx t k c p g)"
    by (rule calls_led_step [OF inv(4) assms(2) f(1)]) (auto simp: f split: if_splits)
  moreover have "undone_closed (do_remove xx t k c p g)"
    by (rule undone_closed_step [OF inv(5) assms(2) f(1)]) (auto simp: f)
  ultimately show ?thesis using inv(1) by (simp add: co_inv_def do_remove_def shards_ok_del)
qed

lemma co_inv_close:
  assumes "co_inv xx g" "at_pc g t (Removed k c p)"
  shows "co_inv xx (do_close t k c p g)"
proof -
  have inv: "shards_ok xx g" "pcs_ok xx g" "one_closer g" "calls_led xx g" "undone_closed g"
    using assms(1) by (simp_all add: co_inv_def)
  have t: "t < length (g_pcs g)" "g_pcs g ! t = Removed k c p" using assms(2) by (simp_all add: at_pc_def)
  have run: "c < length (g_heap g)" "\<not> c_done (g_heap g ! c)" "p \<longrightarrow> c_entry (g_heap g ! c) = None"
    using pc_at [OF inv(2) assms(2)] by simp_all
  obtain x where x: "c_done x" "c_entry x = c_entry (g_heap g ! c)" "p \<longrightarrow> c_err x = Some ErrPanicked"
    and f: "g_pcs (do_close t k c p g) = (g_pcs g)[t := Closed k c p]"
    "g_heap (do_close t k c p g) = (g_heap g)[c := x]"
    "\<And>k'. calls_get xx k' (do_close t k c p g) = calls_get xx k' g"
    by (rule that [of "(if p then (g_heap g ! c)\<lparr>c_err := Some ErrPanicked\<rparr> else g_heap g ! c)\<lparr>c_done := True\<rparr>"])
      (simp_all add: do_close_def Let_def)
  have "pc_ok xx (do_close t k c p g) q" if "pc_ok xx g q" "closer q \<noteq> Some c" for q
    using that run by (cases q) (auto simp: f nth_list_update)
  moreover have "pc_ok xx (do_close t k c p g) (Closed k c p)"
    unfolding pc_ok.simps f using run x by simp
  ultimately have "pcs_ok xx (do_close t k c p g)"
    using owner_unique [OF inv(3) assms(2)]
    by (intro pcs_ok_step [OF inv(2) f(1)]) simp_all
  moreover have "one_closer (do_close t k c p g)"
    by (rule one_closer_step [OF inv(3) f(1) t(1)]) simp
  moreover have "calls_led xx (do_close t k c p g)"
    by (rule calls_led_step [OF inv(4) assms(2) f(1)]) (auto simp: f)
  moreover have "undone_closed (do_close t k c p g)"
    using run x by (intro undone_closed_step [OF inv(5) assms(2) f(1)])
      (auto simp: f nth_list_update split: if_splits)
  ultimately show ?thesis using inv(1) by (simp add: co_inv_def do_close_def Let_def)
qed

lemma co_inv_step:
  assumes "co_step xx g g'" "co_inv xx g"
  shows "co_inv xx g'"
  using assms
proof cases
  case (join t k c)
  have "c < length (g_heap g)"
  proof -
    from assms(2) join(3) obtain u where "u < length (g_pcs g)" "leading (g_pcs g ! u) = Some (k, c)"
      unfolding co_inv_def calls_led_def by blast
    then have "closer (g_pcs g ! u) = Some c" by (cases "g_pcs g ! u") auto
    with \<open>u < _\<close> assms(2) show ?thesis by (auto simp: co_inv_def intro: closer_in_heap)
  qed
  with join assms(2) show ?thesis by (auto simp: do_join_def intro: co_inv_set_pc)
next
  case (lead t k)
  with assms(2) show ?thesis by (simp add: co_inv_lead)
next
  case (fn t k c v e)
  with assms(2) show ?thesis by (simp add: co_inv_fn)
next
  case (panic t k c)
  from assms(2) have "pc_ok xx g (Running k c)"
    by (intro pc_at [OF _ panic(2)]) (simp add: co_inv_def)
  with panic assms(2) show ?thesis
    by (auto simp: do_panic_def new_call_def intro: co_inv_set_pc)
next
  case (goexit t k c)
  from assms(2) have "pc_ok xx g (Running k c)"
    by (intro pc_at [OF _ goexit(2)]) (simp add: co_inv_def)
  with goexit assms(2) show ?thesis by (auto intro: co_inv_set_pc)
next
  case (remove t k c p)
  with assms(2) show ?thesis by (simp add: co_inv_remove)
next
  case (close t k c p)
  with assms(2) show ?thesis by (simp add: co_inv_close)
next
  case (return t k c p)
  from assms(2) have "pc_ok xx g (Closed k c p)"
    by (intro pc_at [OF _ return(2)]) (simp add: co_inv_def)
  with return assms(2) show ?thesis
    by (auto simp: do_return_def result_of_def intro: co_inv_set_pc)
next
  case (wake t k c)
  from assms(2) have "pc_ok xx g (Waiting k c)"
    by (intro pc_at [OF _ wake(2)]) (simp add: co_inv_def)
  with wake assms(2) show ?thesis
    by (auto simp: result_of_def intro: co_inv_set_pc)
next
  case (cancel t k c)
  with assms(2) show ?thesis by (auto intro: co_inv_set_pc)
qed

lemma co_inv_new: "co_inv xx (new_group keys)"
  by (auto simp: co_inv_def shards_ok_def pcs_ok_def one_closer_def calls_led_def undone_closed_def
      new_group_def calls_get_def shard_idx_less)

lemma co_inv_steps: "(co_step xx)\<^sup>*\<^sup>* g g' \<Longrightarrow> co_inv xx g \<Longrightarrow> co_inv xx g'"
  by (induction rule: rtranclp_induct) (auto intro: co_inv_step)

lemma co_inv_reachable: "reachable xx keys g \<Longrightarrow> co_inv xx g"
  unfolding reachable_def by (rule co_inv_steps [OF _ co_inv_new])

section \<open>Progress\<close>

text \<open>How many steps a thread can still take; every step lowers the sum.\<close>

fun pc_rank :: "'v pc \<Rightarrow> nat" where
  "pc_rank (Start k) = 5"
| "pc_rank (Running k c) = 4"
| "pc_rank (Finished k c p) = 3"
| "pc_rank (Removed k c p) = 2"
| "pc_rank (Closed k c p) = 1"
| "pc_rank (Waiting k c) = 1"
| "pc_rank _ = 0"

definition co_rank :: "'v group \<Rightarrow> nat" where
  "co_rank g = sum_list (map pc_rank (g_pcs g))"

lemma sum_rank_update:
  "t < length ps \<Longrightarrow> pc_rank p' < pc_rank (ps ! t) \<Longrightarrow>
    sum_list (map pc_rank (ps[t := p'])) < sum_list (map pc_rank ps)"
  by (induction ps arbitrary: t) (auto split: nat.splits simp: nth_Cons')

lemma co_rank_step: "co_step xx g g' \<Longrightarrow> co_rank g' < co_rank g"
  by (erule co_step.cases)
    (auto simp: co_rank_def at_pc_def do_join_def do_lead_def Let_def do_fn_def do_panic_def
      do_remove_def do_close_def do_return_def result_of_def intro!: sum_rank_update)

lemma co_rank_steps: "(co_step xx ^^ n) g g' \<Longrightarrow> n + co_rank g' \<le> co_rank g"
proof (induction n arbitrary: g')
  case (Suc n)
  then obtain g1 where "(co_step xx ^^ n) g g1" "co_step xx g1 g'" by auto
  with Suc.IH [of g1] co_rank_step [of xx g1 g'] show ?case by simp
qed simp

text \<open>The threads that ended by themselves, with a result, a panic or their own cancellation.\<close>

fun ended :: "'v pc \<Rightarrow> bool" where
  "ended (Returned k c v e) = True"
| "ended (Panicked k c) = True"
| "ended (Cancelled k c) = True"
| "ended _ = False"

fun exited :: "'v pc \<Rightarrow> bool" where
  "exited (Exited k c) = True"
| "exited _ = False"

text \<open>A step other than a cancellation is possible while some thread has not ended.\<close>

lemma progress:
  assumes "co_inv xx g" "t < length (g_pcs g)" "\<not> ended (g_pcs g ! t)"
    and "\<forall>u < length (g_pcs g). \<not> exited (g_pcs g ! u)"
  shows "\<exists>u g'. co_step xx g g' \<and> at_pc g u (g_pcs g ! u) \<and> g_pcs g' ! u \<noteq> g_pcs g ! u \<and>
    (\<forall>k c. g_pcs g' ! u \<noteq> Cancelled k c)"
proof -
  have moves: ?thesis if "at_pc g u p" "closer p \<noteq> None" "\<not> exited p" for u p
  proof -
    from that have u: "u < length (g_pcs g)" "g_pcs g ! u = p" by (simp_all add: at_pc_def)
    show ?thesis
    proof (cases p)
      case (Running k c)
      with that have "co_step xx g (do_panic u k c g)" by (auto intro: co_step.panic)
      with u Running show ?thesis
        by (intro exI [of _ u] exI [of _ "do_panic u k c g"]) (simp add: at_pc_def do_panic_def)
    next
      case (Finished k c b)
      with that have "co_step xx g (do_remove xx u k c b g)" by (auto intro: co_step.remove)
      with u Finished show ?thesis
        by (intro exI [of _ u] exI [of _ "do_remove xx u k c b g"]) (simp add: at_pc_def do_remove_def)
    next
      case (Removed k c b)
      with that have "co_step xx g (do_close u k c b g)" by (auto intro: co_step.close)
      with u Removed show ?thesis
        by (intro exI [of _ u] exI [of _ "do_close u k c b g"]) (simp add: at_pc_def do_close_def Let_def)
    qed (use that in simp_all)
  qed
  have t: "at_pc g t (g_pcs g ! t)" using assms(2) by (simp add: at_pc_def)
  show ?thesis
  proof (cases "g_pcs g ! t")
    case (Start k)
    then have at: "at_pc g t (Start k)" using t by simp
    show ?thesis
    proof (cases "calls_get xx k g")
      case None
      with at have "co_step xx g (do_lead xx t k g)" by (rule co_step.lead)
      with t Start show ?thesis
        by (intro exI [of _ t] exI [of _ "do_lead xx t k g"]) (simp add: at_pc_def do_lead_def Let_def)
    next
      case (Some c)
      with at have "co_step xx g (do_join t k c g)" by (rule co_step.join)
      with t Start show ?thesis
        by (intro exI [of _ t] exI [of _ "do_join t k c g"]) (simp add: at_pc_def do_join_def)
    qed
  next
    case (Waiting k c)
    then have at: "at_pc g t (Waiting k c)" using t by simp
    then have c: "c < length (g_heap g)"
      using assms(1) pc_at [OF _ at] by (auto simp: co_inv_def)
    show ?thesis
    proof (cases "c_done (g_heap g ! c)")
      case True
      with at have "co_step xx g (set_pc t (result_of k c g) g)" by (rule co_step.wake)
      with t Waiting show ?thesis
        by (intro exI [of _ t] exI [of _ "set_pc t (result_of k c g) g"])
          (simp add: at_pc_def result_of_def)
    next
      case False
      with c assms(1) obtain u where "u < length (g_pcs g)" "closer (g_pcs g ! u) = Some c"
        unfolding co_inv_def undone_closed_def by blast
      with moves [of u "g_pcs g ! u"] assms(4) show ?thesis by (simp add: at_pc_def)
    qed
  next
    case (Closed k c p)
    with t have "co_step xx g (do_return t k c p g)" by (auto intro: co_step.return)
    with t Closed show ?thesis
      by (intro exI [of _ t] exI [of _ "do_return t k c p g"])
        (simp add: at_pc_def do_return_def result_of_def)
  qed (use moves [OF t] assms(2,3,4) in auto)
qed

lemma Exited_stays:
  assumes "co_step xx g g'" "at_pc g t (Exited k c)"
  shows "at_pc g' t (Exited k c)"
  using assms
  by (cases rule: co_step.cases)
    (auto simp: at_pc_def do_join_def do_lead_def Let_def do_fn_def do_panic_def do_remove_def
      do_close_def do_return_def result_of_def nth_list_update split: if_splits)

lemma Exited_stays_steps:
  "(co_step xx)\<^sup>*\<^sup>* g g' \<Longrightarrow> at_pc g t (Exited k c) \<Longrightarrow> at_pc g' t (Exited k c)"
  by (induction rule: rtranclp_induct) (auto intro: Exited_stays)

section \<open>Properties\<close>

text \<open>
  C6: single flight: in every reachable state, whatever the interleaving, the panics, exits and
  cancellations, at most one call of \<open>DoContext\<close> is executing \<open>fn\<close> for a key.
\<close>

theorem coalesce_single_flight:
  assumes "reachable xx keys g"
    and "at_pc g t (Running k c)" "at_pc g u (Running k c')"
  shows "t = u \<and> c = c'"
proof -
  have inv: "pcs_ok xx g" "one_closer g"
    using co_inv_reachable [OF assms(1)] by (simp_all add: co_inv_def)
  have "c = c'"
    using pc_at [OF inv(1) assms(2)] pc_at [OF inv(1) assms(3)] by simp
  then show ?thesis
    using inv(2) assms(2,3) by (auto simp: one_closer_def at_pc_def)
qed

theorem coalesce_single_flight_witness:
  "\<exists>g :: nat group. reachable (\<lambda>_. 0) [''k'', ''k''] g \<and> at_pc g 0 (Running ''k'' 0) \<and>
    \<not> at_pc g 1 (Running ''k'' 0)"
proof -
  let ?g = "do_lead (\<lambda>_. 0) 0 ''k'' (new_group [''k'', ''k'']) :: nat group"
  have "co_step (\<lambda>_. 0) (new_group [''k'', ''k'']) ?g"
    by (rule co_step.lead) (simp_all add: at_pc_def new_group_def calls_get_def shard_idx_def
        numCoalesceShards_def)
  then have r: "reachable (\<lambda>_. 0) [''k'', ''k''] ?g"
    by (simp add: reachable_def r_into_rtranclp)
  have at: "at_pc ?g 0 (Running ''k'' 0)"
    by (simp add: at_pc_def do_lead_def Let_def new_group_def)
  from coalesce_single_flight [OF r at, of 1 0] r at show ?thesis by auto
qed


text \<open>A run with a leader and a follower, used as an example.\<close>

definition example_run :: "nat option \<Rightarrow> co_error option \<Rightarrow> nat group" where
  "example_run v e = (let
     xx = (\<lambda>_ :: string. 0 :: 64 word);
     g1 = do_lead xx 0 ''k'' (new_group [''k'', ''k'']);
     g2 = do_join 1 ''k'' 0 g1;
     g3 = do_fn 0 ''k'' 0 v e g2;
     g4 = do_remove xx 0 ''k'' 0 False g3;
     g5 = do_close 0 ''k'' 0 False g4;
     g6 = do_return 0 ''k'' 0 False g5
   in set_pc 1 (result_of ''k'' 0 g6) g6)"

lemma example_run_reachable: "reachable (\<lambda>_. 0) [''k'', ''k''] (example_run v e)"
proof -
  define xx where "xx = (\<lambda>_ :: string. 0 :: 64 word)"
  define g0 :: "nat group" where "g0 = new_group [''k'', ''k'']"
  define g1 where "g1 = do_lead xx 0 ''k'' g0"
  define g2 where "g2 = do_join 1 ''k'' 0 g1"
  define g3 where "g3 = do_fn 0 ''k'' 0 v e g2"
  define g4 where "g4 = do_remove xx 0 ''k'' 0 False g3"
  define g5 where "g5 = do_close 0 ''k'' 0 False g4"
  define g6 where "g6 = do_return 0 ''k'' 0 False g5"
  have idx: "shard_idx xx ''k'' = 0" by (simp add: shard_idx_def xx_def)
  note defs = g0_def g1_def g2_def g3_def g4_def g5_def g6_def do_lead_def do_join_def do_fn_def
    do_remove_def do_close_def do_return_def result_of_def Let_def new_group_def at_pc_def
  have "co_step xx g0 g1" unfolding g1_def
    by (rule co_step.lead) (simp_all add: g0_def new_group_def at_pc_def calls_get_def idx
        numCoalesceShards_def)
  moreover have "co_step xx g1 g2" unfolding g2_def
    by (rule co_step.join) (simp_all add: defs calls_get_def calls_put_def set_pc_def idx
        numCoalesceShards_def)
  moreover have "co_step xx g2 g3" unfolding g3_def
    by (rule co_step.fn) (simp add: defs)
  moreover have "co_step xx g3 g4" unfolding g4_def
    by (rule co_step.remove) (simp add: defs)
  moreover have "co_step xx g4 g5" unfolding g5_def
    by (rule co_step.close) (simp add: defs)
  moreover have "co_step xx g5 g6" unfolding g6_def
    by (rule co_step.return) (simp add: defs)
  moreover have "co_step xx g6 (set_pc 1 (result_of ''k'' 0 g6) g6)"
    by (rule co_step.wake) (simp_all add: defs)
  moreover have "example_run v e = set_pc 1 (result_of ''k'' 0 g6) g6"
    by (simp add: example_run_def Let_def g0_def g1_def g2_def g3_def g4_def g5_def g6_def xx_def)
  ultimately have "(co_step xx)\<^sup>*\<^sup>* g0 (example_run v e)"
    by (simp add: converse_rtranclp_into_rtranclp)
  then show ?thesis by (simp add: reachable_def g0_def xx_def)
qed

lemma example_run_pcs: "g_pcs (example_run v e) = [Returned ''k'' 0 v e, Returned ''k'' 0 v e]"
  by (simp add: example_run_def Let_def do_lead_def do_join_def do_fn_def do_remove_def
      do_close_def do_return_def result_of_def new_group_def new_call_def)




text \<open>
  C37: a \<open>fn\<close> that ends its goroutine with \<open>runtime.Goexit\<close> blocks its key for good: the code after
  the recovered call never runs, so in every later state the key is still registered and its channel
  still open, every later call for the key joins that dead execution, and a call that waits for it
  can only be cancelled.
\<close>

theorem coalesce_goexit_blocks_key:
  assumes "reachable xx keys g" "at_pc g t (Exited k c)" "(co_step xx)\<^sup>*\<^sup>* g g'"
  shows "calls_get xx k g' = Some c \<and> \<not> c_done (g_heap g' ! c) \<and>
    (\<forall>u v e. \<not> at_pc g' u (Returned k c v e))"
proof -
  have "reachable xx keys g'"
    using assms(1,3) unfolding reachable_def by (rule rtranclp_trans)
  then have inv: "pcs_ok xx g'" using co_inv_reachable by (auto simp: co_inv_def)
  from pc_at [OF inv Exited_stays_steps [OF assms(3,2)]] pc_at [OF inv, of _ "Returned k c _ _"]
  show ?thesis by (auto simp: new_call_def)
qed

theorem coalesce_goexit_blocks_key_witness:
  "\<exists>g :: nat group. reachable (\<lambda>_. 0) [''k''] g \<and> calls_get (\<lambda>_. 0) ''k'' g = Some 0 \<and>
    at_pc g 0 (Exited ''k'' 0)"
proof -
  let ?xx = "\<lambda>_ :: string. 0 :: 64 word"
  let ?g1 = "do_lead ?xx 0 ''k'' (new_group [''k'']) :: nat group"
  let ?g2 = "set_pc 0 (Exited ''k'' 0) ?g1"
  have "co_step ?xx (new_group [''k'']) ?g1"
    by (rule co_step.lead) (simp_all add: at_pc_def new_group_def calls_get_def shard_idx_def
        numCoalesceShards_def)
  moreover have "co_step ?xx ?g1 ?g2"
    by (rule co_step.goexit) (simp add: at_pc_def do_lead_def Let_def new_group_def)
  ultimately have r: "reachable ?xx [''k''] ?g2"
    unfolding reachable_def by (simp add: converse_rtranclp_into_rtranclp)
  have at: "at_pc ?g2 0 (Exited ''k'' 0)"
    by (simp add: at_pc_def do_lead_def Let_def new_group_def)
  from coalesce_goexit_blocks_key [OF r at] r at show ?thesis by blast
qed

end
