(* ===== verification/Prefetcher.thy ===== *)
theory Prefetcher
  imports Cache_Policy Tiered_Store Client_Assets Response_Writer Telemetry Coalesce
begin

text \<open>
  \<open>prefetcher.go\<close>: the bounded queue of speculative jobs and their execution against the handler.
  A worker takes one job at a time; the call of \<open>Do\<close> is the leader's. Deadlines of the synthetic
  request are not modelled. The handler is a function from requests to the calls it makes on its
  writer, up to a panic, which the prefetcher recovers from.
\<close>

section \<open>Jobs and the queue\<close>

record prefetch_job =
  pj_session :: string
  pj_prediction :: prediction
  pj_host :: string
  pj_auth_headers :: header
  pj_cookies :: "cookie list"
  pj_is_auth :: bool

record prefetcher =
  pf_threshold :: rat
  pf_ttl :: int
  pf_queue :: "prefetch_job list"
  pf_closed :: bool

definition queue_size :: nat where
  "queue_size = 256"

definition new_prefetcher :: "int \<Rightarrow> rat \<Rightarrow> prefetcher" where
  "new_prefetcher ttl threshold = \<lparr>pf_threshold = threshold, pf_ttl = ttl, pf_queue = [], pf_closed = False\<rparr>"

definition captured_headers :: "request \<Rightarrow> header" where
  "captured_headers r = (let
     hs = fold (\<lambda>h m. if hget (r_header r) h \<noteq> [] then hset h (hget (r_header r) h) m else m)
            [''Authorization'', ''Proxy-Authorization'', ''X-Auth-Token'', ''X-API-Key''] []
   in if hget (r_header r) ''Cookie'' \<noteq> [] then hset ''Cookie'' (hget (r_header r) ''Cookie'') hs else hs)"

fun submit_loop :: "string \<Rightarrow> request \<Rightarrow> bool \<Rightarrow> prediction list \<Rightarrow> prefetcher \<Rightarrow> prefetcher" where
  "submit_loop sid r isAuth [] p = p"
| "submit_loop sid r isAuth (pred # preds) p =
     (if pd_prob pred < pf_threshold p then submit_loop sid r isAuth preds p
      else if length (pf_queue p) < queue_size
      then submit_loop sid r isAuth preds (p\<lparr>pf_queue := pf_queue p @ [\<lparr>pj_session = sid,
             pj_prediction = pred, pj_host = r_host r, pj_auth_headers = captured_headers r,
             pj_cookies = cookies r, pj_is_auth = isAuth\<rparr>]\<rparr>)
      else submit_loop sid r isAuth preds p)"

text \<open>\<open>isAuth\<close> is the checker set by \<open>SetAuthChecker\<close>, if any.\<close>

definition pf_submit ::
  "(request \<Rightarrow> bool) option \<Rightarrow> string \<Rightarrow> prediction list \<Rightarrow> request \<Rightarrow> prefetcher \<Rightarrow> prefetcher" where
  "pf_submit isAuth sid preds r p = (if pf_closed p then p
     else submit_loop sid r (case isAuth of Some f \<Rightarrow> f r
            | None \<Rightarrow> hget (r_header r) ''Authorization'' \<noteq> [] \<or> hget (r_header r) ''Proxy-Authorization'' \<noteq> [])
          preds p)"

definition pf_close :: "prefetcher \<Rightarrow> prefetcher" where
  "pf_close p = p\<lparr>pf_closed := True\<rparr>"

section \<open>The synthetic request\<close>

text \<open>
  \<open>httptest.NewRequest\<close> parses \<open>method + " " + target + " HTTP/1.0"\<close> and panics (\<open>None\<close>) if that is not a
  request: with a space the protocol is malformed, and \<open>url.ParseRequestURI\<close> refuses control
  characters, a target that is not absolute and a percent sign that does not start an escape. A
  target with a line feed is more than one line and is left to the parameter \<open>multi\<close>, as is one that
  does not start with a slash.
\<close>

definition hex_digit_value :: "char \<Rightarrow> nat" where
  "hex_digit_value c = (let n = of_char c in
     if is_digit c then n - 48 else if is_lower c then n - 87 else n - 55)"

fun unescape_path :: "string \<Rightarrow> string option" where
  "unescape_path [] = Some []"
| "unescape_path (c # cs) =
     (if c = CHR ''%'' then
        (case cs of
           a # b # rest \<Rightarrow>
             if is_hex a \<and> is_hex b
             then map_option ((#) (char_of (16 * hex_digit_value a + hex_digit_value b))) (unescape_path rest)
             else None
         | _ \<Rightarrow> None)
      else map_option ((#) c) (unescape_path cs))"

definition is_ctl :: "char \<Rightarrow> bool" where
  "is_ctl c = ((of_char c :: nat) < 32 \<or> (of_char c :: nat) = 127)"

definition new_request ::
  "(string \<Rightarrow> string \<Rightarrow> request option) \<Rightarrow> string \<Rightarrow> string \<Rightarrow> request option" where
  "new_request multi method target = (
     if char_of (10 :: nat) \<in> set target \<or> \<not> has_prefix target ''/'' then multi method target
     else if CHR '' '' \<in> set target \<or> list_ex is_ctl target then None
     else (let (path, query) = cut (CHR ''?'') target in
       map_option (\<lambda>p. \<lparr>r_method = method, r_host = ''example.com'', r_path = p, r_query = query,
         r_header = []\<rparr>) (unescape_path path)))"

text \<open>\<open>Request.AddCookie\<close>.\<close>

definition cookie_text :: "cookie \<Rightarrow> string" where
  "cookie_text c = ck_name c @ ''='' @
     (if CHR '' '' \<in> set (ck_value c) \<or> CHR '','' \<in> set (ck_value c)
      then [char_of (34 :: nat)] @ ck_value c @ [char_of (34 :: nat)] else ck_value c)"

definition add_cookie :: "cookie \<Rightarrow> header \<Rightarrow> header" where
  "add_cookie c h = (if hget h ''Cookie'' \<noteq> []
     then hset ''Cookie'' (hget h ''Cookie'' @ ''; '' @ cookie_text c) h
     else hset ''Cookie'' (cookie_text c) h)"

definition synthetic_request ::
  "(string \<Rightarrow> string \<Rightarrow> request option) \<Rightarrow> prefetch_job \<Rightarrow> string \<Rightarrow> string \<Rightarrow> request option" where
  "synthetic_request multi job method targetURI = map_option (\<lambda>r. (let
     r1 = (if pj_host job \<noteq> [] then r\<lparr>r_host := pj_host job\<rparr> else r);
     h1 = fold (\<lambda>(k, v) h. mput k v h) (pj_auth_headers job) (r_header r1);
     h2 = fold add_cookie (pj_cookies job) h1
   in r1\<lparr>r_header := hset ''X-Precog-Speculative'' ''true'' h2\<rparr>)) (new_request multi method targetURI)"

section \<open>The response recorder\<close>

text \<open>\<open>httptest.ResponseRecorder\<close>; \<open>sniff\<close> is \<open>http.DetectContentType\<close>.\<close>

record recorder =
  rc_code :: int
  rc_wrote :: bool
  rc_header :: header
  rc_body :: bytes

definition new_recorder :: recorder where
  "new_recorder = \<lparr>rc_code = 200, rc_wrote = False, rc_header = [], rc_body = []\<rparr>"

definition rc_write_header :: "int \<Rightarrow> recorder \<Rightarrow> recorder" where
  "rc_write_header code c = (if rc_wrote c then c else c\<lparr>rc_code := code, rc_wrote := True\<rparr>)"

definition rc_write :: "(bytes \<Rightarrow> string) \<Rightarrow> bytes \<Rightarrow> recorder \<Rightarrow> recorder" where
  "rc_write sniff b c = (let
     c1 = (if rc_wrote c then c
           else rc_write_header 200
             (if mget (rc_header c) ''Content-Type'' = None \<and> hget (rc_header c) ''Transfer-Encoding'' = []
              then c\<lparr>rc_header := hset ''Content-Type'' (sniff b) (rc_header c)\<rparr> else c))
   in c1\<lparr>rc_body := rc_body c1 @ b\<rparr>)"

fun rc_op :: "(bytes \<Rightarrow> string) \<Rightarrow> wop \<Rightarrow> recorder \<Rightarrow> recorder" where
  "rc_op sniff (SetHdr k v) c = c\<lparr>rc_header := hset k v (rc_header c)\<rparr>"
| "rc_op sniff (AddHdr k v) c = c\<lparr>rc_header := hadd k v (rc_header c)\<rparr>"
| "rc_op sniff (DelHdr k) c = c\<lparr>rc_header := hdel k (rc_header c)\<rparr>"
| "rc_op sniff (WriteHdr code) c = rc_write_header code c"
| "rc_op sniff (WriteB b) c = rc_write sniff b c"
| "rc_op sniff FlushW c = rc_write_header 200 c"
| "rc_op sniff HijackW c = c"

definition run_recorder :: "(bytes \<Rightarrow> string) \<Rightarrow> wop list \<Rightarrow> recorder" where
  "run_recorder sniff ops = fold (rc_op sniff) ops new_recorder"

section \<open>Execution of a job\<close>

record 's prefetch_env =
  pe_xx :: "string \<Rightarrow> 64 word"
  pe_store :: "'s store_ops"
  pe_handler :: "request \<Rightarrow> wop list"
  pe_sniff :: "bytes \<Rightarrow> string"
  pe_multi :: "string \<Rightarrow> string \<Rightarrow> request option"
  pe_ttl :: int

definition prefetch_cacheable :: "bool \<Rightarrow> recorder \<Rightarrow> bool" where
  "prefetch_cacheable isAuth rec = (let cc = hget (rc_header rec) ''Cache-Control'' in
     rc_code rec = 200 \<and> \<not> (contains cc ''no-store'' \<or> contains cc ''private'') \<and>
     hvalues (rc_header rec) ''Set-Cookie'' = [] \<and> hget (rc_header rec) ''Vary'' \<noteq> ''*'' \<and>
     \<not> (isAuth \<and> \<not> contains cc ''public''))"

definition prefetch_entry :: "int \<Rightarrow> int \<Rightarrow> request \<Rightarrow> recorder \<Rightarrow> entry" where
  "prefetch_entry now ttl r rec = \<lparr>e_body = rc_body rec, e_header = rc_header rec,
     e_ctype = hget (rc_header rec) ''Content-Type'', e_status = rc_code rec, e_created = now,
     e_expires = Some (now + ttl), e_vary = extract_vary_map r (hget (rc_header rec) ''Vary'')\<rparr>"

definition job_is_auth :: "prefetch_job \<Rightarrow> bool" where
  "job_is_auth job = (pj_is_auth job \<or> hget (pj_auth_headers job) ''Authorization'' \<noteq> [] \<or>
     hget (pj_auth_headers job) ''Proxy-Authorization'' \<noteq> [])"

text \<open>
  \<open>execFn\<close>: the entry it returns, whether \<open>onWarmed\<close> was called, and the store. The outer \<open>None\<close> is a
  panic; it passes through \<open>Do\<close> to the worker, which does not recover.
\<close>

definition exec_fn ::
  "'s prefetch_env \<Rightarrow> int \<Rightarrow> prefetch_job \<Rightarrow> string \<Rightarrow> string \<Rightarrow> string \<Rightarrow> 's \<Rightarrow>
     (entry option \<times> bool \<times> 's) option" where
  "exec_fn env now job method targetURI cacheKey s = (case st_get (pe_store env) now cacheKey s of
     (Some cached, s1) \<Rightarrow> Some (Some cached, False, s1)
   | (None, s1) \<Rightarrow>
       (case synthetic_request (pe_multi env) job method targetURI of
          None \<Rightarrow> None
        | Some r \<Rightarrow>
           (let rec = run_recorder (pe_sniff env) (pe_handler env r) in
            if prefetch_cacheable (job_is_auth job) rec
            then (let (ok, ent, s2) = st_set (pe_store env) now cacheKey
                        (prefetch_entry now (pe_ttl env) r rec) (pe_ttl env) s1
                  in Some (Some ent, True, s2))
            else Some (None, False, s1))))"

definition split_target :: "string \<Rightarrow> string \<times> string" where
  "split_target targetURI = (case index_of targetURI ''?'' of
     Some q \<Rightarrow> (take q targetURI, drop (Suc q) targetURI) | None \<Rightarrow> (targetURI, []))"

text \<open>\<open>execute\<close>: the store and whether the telemetry callback ran.\<close>

definition pf_execute :: "'s prefetch_env \<Rightarrow> int \<Rightarrow> prefetch_job \<Rightarrow> 's \<Rightarrow> (bool \<times> 's) option" where
  "pf_execute env now job s = (case split_n2 (CHR '' '') (pd_call (pj_prediction job)) of
     [m, targetURI] \<Rightarrow>
       (let method = to_upper m in
        if method \<noteq> ''GET'' \<and> method \<noteq> ''HEAD'' then Some (False, s)
        else if unhydrated targetURI then Some (False, s)
        else (let (targetPath, rawQuery) = split_target targetURI;
                  cacheKey = canonical_cache_key_with_host (pe_xx env) method (pj_host job) targetPath rawQuery []
              in case st_get (pe_store env) now cacheKey s of
                   (Some e, s1) \<Rightarrow> Some (False, s1)
                 | (None, s1) \<Rightarrow>
                     map_option (\<lambda>(ent, warmed, s2). (warmed, s2))
                       (exec_fn env now job method targetURI cacheKey s1)))
   | _ \<Rightarrow> Some (False, s))"

section \<open>The queue\<close>

lemma submit_loop_queue:
  "\<exists>js. pf_queue (submit_loop sid r b preds p) = pf_queue p @ js \<and>
    length (pf_queue p @ js) \<le> max queue_size (length (pf_queue p)) \<and>
    length js \<le> length (filter (\<lambda>q. pf_threshold p \<le> pd_prob q) preds) \<and>
    (\<forall>j \<in> set js. pf_threshold p \<le> pd_prob (pj_prediction j) \<and> pj_prediction j \<in> set preds)"
proof (induction preds arbitrary: p)
  case (Cons a preds)
  let ?j = "\<lparr>pj_session = sid, pj_prediction = a, pj_host = r_host r, pj_auth_headers = captured_headers r,
    pj_cookies = cookies r, pj_is_auth = b\<rparr>"
  show ?case
  proof (cases "\<not> pd_prob a < pf_threshold p \<and> length (pf_queue p) < queue_size")
    case True
    obtain js where js: "pf_queue (submit_loop sid r b preds (p\<lparr>pf_queue := pf_queue p @ [?j]\<rparr>)) =
        (pf_queue p @ [?j]) @ js"
      "length ((pf_queue p @ [?j]) @ js) \<le> max queue_size (Suc (length (pf_queue p)))"
      "length js \<le> length (filter (\<lambda>q. pf_threshold p \<le> pd_prob q) preds)"
      "\<forall>j \<in> set js. pf_threshold p \<le> pd_prob (pj_prediction j) \<and> pj_prediction j \<in> set preds"
      using Cons.IH [of "p\<lparr>pf_queue := pf_queue p @ [?j]\<rparr>"] by auto
    with True show ?thesis by (intro exI [of _ "?j # js"]) auto
  next
    case False
    obtain js where js: "pf_queue (submit_loop sid r b preds p) = pf_queue p @ js"
      "length (pf_queue p @ js) \<le> max queue_size (length (pf_queue p))"
      "length js \<le> length (filter (\<lambda>q. pf_threshold p \<le> pd_prob q) preds)"
      "\<forall>j \<in> set js. pf_threshold p \<le> pd_prob (pj_prediction j) \<and> pj_prediction j \<in> set preds"
      using Cons.IH [of p] by blast
    from False have "submit_loop sid r b (a # preds) p = submit_loop sid r b preds p" by auto
    with js show ?thesis by (intro exI [of _ js]) auto
  qed
qed simp

lemma submit_loop_fields [simp]:
  "pf_threshold (submit_loop sid r b preds p) = pf_threshold p"
  "pf_ttl (submit_loop sid r b preds p) = pf_ttl p" "pf_closed (submit_loop sid r b preds p) = pf_closed p"
  by (induction preds arbitrary: p) auto

section \<open>What a job does to the store\<close>

context cache_store
begin

lemma exec_fn_clean:
  assumes "pe_store env = ops" "clean inv held s" "clock_ok now (pe_ttl env)"
    and "\<And>r. storable (prefetch_entry now (pe_ttl env) r (run_recorder (pe_sniff env) (pe_handler env r)))"
    and "exec_fn env now job method targetURI k s = Some (res, warmed, s')"
  shows "clean inv held s' \<and> (\<forall>e. res = Some e \<longrightarrow> shareable e) \<and>
    (warmed \<longrightarrow> (\<exists>r e. synthetic_request (pe_multi env) job method targetURI = Some r \<and> res = Some e \<and>
       same_origin (prefetch_entry now (pe_ttl env) r (run_recorder (pe_sniff env) (pe_handler env r))) e \<and>
       (job_is_auth job \<longrightarrow> says_public e))) \<and>
    (\<not> warmed \<longrightarrow> held_le (held s') (held s))"
proof -
  obtain c s1 where get: "st_get ops now k s = (c, s1)" by fastforce
  note g = clean_get [OF assms(2) get]
  show ?thesis
  proof (cases c)
    case (Some e)
    with assms(1,5) get g show ?thesis by (auto simp: exec_fn_def)
  next
    case None
    obtain r where r: "synthetic_request (pe_multi env) job method targetURI = Some r"
      using assms(1,5) get None by (auto simp: exec_fn_def split: option.splits)
    let ?rec = "run_recorder (pe_sniff env) (pe_handler env r)"
    let ?ent = "prefetch_entry now (pe_ttl env) r ?rec"
    show ?thesis
    proof (cases "prefetch_cacheable (job_is_auth job) ?rec")
      case True
      obtain ok e s2 where set: "st_set ops now k ?ent (pe_ttl env) s1 = (ok, e, s2)"
        by (cases "st_set ops now k ?ent (pe_ttl env) s1") auto
      have sh: "shareable ?ent" "job_is_auth job \<longrightarrow> says_public ?ent"
        using True by (auto simp: prefetch_cacheable_def Let_def shareable_def says_public_def prefetch_entry_def)
      note c = clean_set [OF g(1) assms(4) assms(3) sh(1) set]
      have "res = Some e" "warmed" "s' = s2"
        using assms(1,5) get None r True set by (simp_all add: exec_fn_def)
      with c sh r show ?thesis by auto
    next
      case False
      with assms(1,5) get None r g show ?thesis by (simp add: exec_fn_def)
    qed
  qed
qed

lemma pf_execute_clean:
  assumes "pe_store env = ops" "clean inv held s" "clock_ok now (pe_ttl env)"
    and "\<And>r. storable (prefetch_entry now (pe_ttl env) r (run_recorder (pe_sniff env) (pe_handler env r)))"
    and "pf_execute env now job s = Some (warmed, s')"
  shows "clean inv held s' \<and> (\<not> warmed \<longrightarrow> held_le (held s') (held s)) \<and>
    (warmed \<longrightarrow> (\<exists>m target r. split_n2 (CHR '' '') (pd_call (pj_prediction job)) = [m, target] \<and>
      to_upper m \<in> {''GET'', ''HEAD''} \<and> \<not> unhydrated target \<and>
      synthetic_request (pe_multi env) job (to_upper m) target = Some r \<and>
      (job_is_auth job \<longrightarrow> says_public (prefetch_entry now (pe_ttl env) r
         (run_recorder (pe_sniff env) (pe_handler env r))))))"
proof -
  consider (skip) "warmed = False" "s' = s"
    | (hit) k e where "warmed = False" "st_get ops now k s = (Some e, s')"
    | (run) m target k s1 res where
        "split_n2 (CHR '' '') (pd_call (pj_prediction job)) = [m, target]"
        "to_upper m \<in> {''GET'', ''HEAD''}" "\<not> unhydrated target"
        "st_get ops now k s = (None, s1)"
        "exec_fn env now job (to_upper m) target k s1 = Some (res, warmed, s')"
    using assms(1,5)
    by (auto simp: pf_execute_def Let_def split: list.splits if_splits prod.splits option.splits)
  then show ?thesis
  proof cases
    case skip
    with assms(2) show ?thesis by simp
  next
    case (hit k e)
    with clean_get [OF assms(2) hit(2)] show ?thesis by simp
  next
    case (run m target k s1 res)
    note g = clean_get [OF assms(2) run(4)]
    from exec_fn_clean [OF assms(1) g(1) assms(3,4) run(5)] g(2) run(1-3) show ?thesis
      by (auto intro: held_le_trans simp: same_origin_policy)
  qed
qed

end

section \<open>Properties\<close>

text \<open>
  C29: speculation is bounded: however many predictions are submitted, only those at or above the
  threshold are queued, the queue never exceeds 256 jobs, a closed prefetcher takes none, and since a
  predictor's probabilities sum to at most 1, one request queues at most \<open>1 / threshold\<close> jobs (one, at
  the default of 0.65).
\<close>

theorem prefetch_fan_out:
  assumes "predictions_ok preds" "0 < pf_threshold p" "length (pf_queue p) \<le> queue_size"
  shows "\<exists>js. pf_queue (pf_submit isAuth sid preds r p) = pf_queue p @ js \<and>
    length (pf_queue p @ js) \<le> 256 \<and> of_nat (length js) * pf_threshold p \<le> 1 \<and>
    (\<forall>j \<in> set js. pf_threshold p \<le> pd_prob (pj_prediction j) \<and> pj_prediction j \<in> set preds) \<and>
    (pf_closed p \<longrightarrow> js = [])"
proof (cases "pf_closed p")
  case True
  with assms(3) show ?thesis by (simp add: pf_submit_def queue_size_def)
next
  case False
  obtain b where b: "pf_submit isAuth sid preds r p = submit_loop sid r b preds p"
    using False by (simp add: pf_submit_def)
  obtain js where js: "pf_queue (submit_loop sid r b preds p) = pf_queue p @ js"
    "length (pf_queue p @ js) \<le> max queue_size (length (pf_queue p))"
    "length js \<le> length (filter (\<lambda>q. pf_threshold p \<le> pd_prob q) preds)"
    "\<forall>j \<in> set js. pf_threshold p \<le> pd_prob (pj_prediction j) \<and> pj_prediction j \<in> set preds"
    using submit_loop_queue [of sid r b preds p] by blast
  have "of_nat (length js) * pf_threshold p \<le>
      of_nat (length (filter (\<lambda>q. pf_threshold p \<le> pd_prob q) preds)) * pf_threshold p"
    using js(3) assms(2) by (intro mult_right_mono) simp_all
  also have "\<dots> \<le> 1" by (rule above_threshold_bound [OF assms(1,2)])
  finally show ?thesis
    using js assms(3) False b by (intro exI [of _ js]) (simp add: queue_size_def)
qed

theorem prefetch_fan_out_witness:
  "length (pf_queue (pf_submit None ''s'' [\<lparr>pd_call = ''GET /a'', pd_pattern = ''GET /a'', pd_prob = 1\<rparr>]
     \<lparr>r_method = ''GET'', r_host = [], r_path = ''/'', r_query = [], r_header = []\<rparr>
     (new_prefetcher 60 (1 / 2)))) \<le> 256"
proof -
  let ?preds = "[\<lparr>pd_call = ''GET /a'', pd_pattern = ''GET /a'', pd_prob = 1\<rparr>]"
  have "predictions_ok ?preds" by (simp add: predictions_ok_def)
  from prefetch_fan_out [OF this, of "new_prefetcher 60 (1 / 2)" None "''s''"
      "\<lparr>r_method = ''GET'', r_host = [], r_path = ''/'', r_query = [], r_header = []\<rparr>"]
  show ?thesis by (auto simp: new_prefetcher_def)
qed

text \<open>A handler whose responses every store can represent.\<close>

definition plain_env :: "sharded_store tiered_store prefetch_env" where
  "plain_env = \<lparr>pe_xx = (\<lambda>_. 7), pe_store = tiered_ops (\<lambda>_. 7) (sharded_ops (\<lambda>_. 7)),
     pe_handler = (\<lambda>r. [SetHdr ''Content-Type'' ''text/plain'', WriteB ''hi'']),
     pe_sniff = (\<lambda>b. []), pe_multi = (\<lambda>m t. None), pe_ttl = 60\<rparr>"

lemma plain_recorder:
  "run_recorder sniff [SetHdr ''Content-Type'' ''text/plain'', WriteB ''hi''] =
    \<lparr>rc_code = 200, rc_wrote = True, rc_header = [(''Content-Type'', [''text/plain''])], rc_body = ''hi''\<rparr>"
  by (simp add: run_recorder_def new_recorder_def rc_write_def rc_write_header_def hset_def)

lemma no_vary_header: "hget [(''Content-Type'', vv)] ''Vary'' = []"
proof -
  have "canon_key ''Vary'' = ''Vary''" by code_simp
  then show ?thesis by (simp add: hget_def hvalues_def)
qed

lemma plain_entry_storable:
  assumes "length b < 100"
  shows "storable \<lparr>e_body = b, e_header = [(''Content-Type'', [''text/plain''])], e_ctype = ''text/plain'',
    e_status = 200, e_created = now, e_expires = x, e_vary = []\<rparr>" (is "storable ?e")
proof -
  have c: "\<not> has_prefix (to_lower ''Content-Type'') vary_prefix" by code_simp
  have p: "persist_vary ?e = [(''Content-Type'', [''text/plain''])]" by (simp add: persist_vary_def)
  have "vary_ok ?e"
    using c by (simp add: vary_ok_def vary_consistent_def del: to_lower_simps)
  with assms show ?thesis
    unfolding storable_def p
    by (simp add: header_fits_def entry_len_def entryHeaderSize_def encode_headers_def encode_kv_def
        encode_values_def)
qed

lemma plain_content_type: "hget [(''Content-Type'', [''text/plain''])] ''Content-Type'' = ''text/plain''"
  by code_simp

lemma plain_storable:
  "storable (prefetch_entry now ttl r (run_recorder (pe_sniff plain_env) (pe_handler plain_env r)))"
  using plain_entry_storable [of "''hi''" now "Some (now + ttl)"]
  by (simp add: plain_env_def plain_recorder prefetch_entry_def no_vary_header extract_vary_map_def plain_content_type)


context cache_store
begin

lemma empty_store_misses:
  assumes "clean inv held s" "held s = {}"
  shows "\<exists>s'. st_get ops now k s = (None, s') \<and> clean inv held s' \<and> held s' = {}"
proof -
  obtain c s' where get: "st_get ops now k s = (c, s')" by fastforce
  have "c = None"
    using get_sound [OF clean_inv [OF assms(1)]] get assms(2) by (cases c) fastforce+
  moreover note clean_get(1,2) [OF assms(1) get]
  ultimately show ?thesis using get assms(2) by (auto simp: held_le_def)
qed

end

lemma new_store_clean: "clean (tiered_inv sharded_inv) (tiered_held sharded_held) (new_tiered_store (new_sharded_store None))"
  using tiered_new_inv tiered_new_held by (simp add: clean_def every_held_def)

definition sample_job :: "string \<Rightarrow> prefetch_job" where
  "sample_job call = \<lparr>pj_session = [], pj_prediction = \<lparr>pd_call = call, pd_pattern = call, pd_prob = 1\<rparr>,
     pj_host = [], pj_auth_headers = [], pj_cookies = [], pj_is_auth = False\<rparr>"

lemma sample_warms:
  assumes "pe_store env = tiered_ops xx (sharded_ops xx)"
    and "\<And>r. prefetch_cacheable False (run_recorder (pe_sniff env) (pe_handler env r))"
  shows "\<exists>s'. pf_execute env now (sample_job ''GET /a'') (new_tiered_store (new_sharded_store None)) = Some (True, s')"
proof -
  let ?s = "new_tiered_store (new_sharded_store None)" and ?j = "sample_job ''GET /a''"
  have c: "split_n2 (CHR '' '') ''GET /a'' = [''GET'', ''/a'']" "to_upper ''GET'' = ''GET''"
    "\<not> unhydrated ''/a''" "split_target ''/a'' = (''/a'', [])" "\<not> job_is_auth ?j" by code_simp+
  have "synthetic_request (\<lambda>m t. None) ?j ''GET'' ''/a'' \<noteq> None" by code_simp
  then obtain r where r: "synthetic_request (pe_multi env) ?j ''GET'' ''/a'' = Some r"
    by (auto simp: synthetic_request_def new_request_def split: if_splits option.splits)
  have j: "pd_call (pj_prediction ?j) = ''GET /a''" "pj_host ?j = []" by (simp_all add: sample_job_def)
  let ?k = "canonical_cache_key_with_host (pe_xx env) ''GET'' [] ''/a'' [] []"
  obtain s1 where s1: "st_get (pe_store env) now ?k ?s = (None, s1)"
    "clean (tiered_inv sharded_inv) (tiered_held sharded_held) s1" "tiered_held sharded_held s1 = {}"
    using sharded.tiered.empty_store_misses [OF new_store_clean tiered_new_held, of xx now ?k] assms(1) by auto
  obtain s2 where s2: "st_get (pe_store env) now ?k s1 = (None, s2)"
    using sharded.tiered.empty_store_misses [OF s1(2,3), of xx now ?k] assms(1) by auto
  obtain ok ent s3 where "st_set (pe_store env) now ?k
      (prefetch_entry now (pe_ttl env) r (run_recorder (pe_sniff env) (pe_handler env r))) (pe_ttl env) s2 = (ok, ent, s3)"
    by (metis prod_cases3)
  then show ?thesis
    using s1(1) s2 assms(2) r c by (simp add: pf_execute_def exec_fn_def j)
qed




text \<open>
  the synthetic request carries the cookies of the original request twice: the \<open>Cookie\<close> line is
  copied as a header and every parsed cookie is then added to it.
\<close>

theorem prefetch_cookies_twice:
  "(let r = \<lparr>r_method = ''GET'', r_host = ''h'', r_path = ''/'', r_query = [],
             r_header = [(''Cookie'', [''sid=1; a=2''])]\<rparr>;
        p = pf_submit None ''s'' [\<lparr>pd_call = ''GET /b'', pd_pattern = ''GET /b'', pd_prob = 1\<rparr>] r
              (new_prefetcher 60 (1 / 2))
    in map (\<lambda>job. map_option (\<lambda>q. hget (r_header q) ''Cookie'')
              (synthetic_request (\<lambda>m t. None) job ''GET'' ''/b'')) (pf_queue p)) =
   [Some ''sid=1; a=2; sid=1; a=2'']"
  by code_simp



end
