(* ===== verification/Endpoint_Index.thy ===== *)
theory Endpoint_Index
  imports Prelude
begin

text \<open>
  \<open>endpoint_index.go\<close>: the registry that gives every route pattern a 16-bit identifier. The two
  copy-on-write snapshots \<open>patterns\<close> and \<open>reverse\<close> and the counter are the fields of the record;
  \<open>get_or_register\<close> is the fast path followed by the section under the lock.
\<close>

definition MaxIndexedRoutes :: nat where
  "MaxIndexedRoutes = 4096"

definition InvalidRouteID :: "16 word" where
  "InvalidRouteID = 0xFFFF"

record registry =
  patterns :: "(string, 16 word) gomap"
  reverse :: "string list"
  count :: "32 word"

definition new_registry :: registry where
  "new_registry = \<lparr>patterns = [], reverse = [], count = 0\<rparr>"

text \<open>
  The section under \<open>r.mu\<close>: the double check, the capacity check, and the publication of the new
  snapshots. \<open>newRev\<close> has room for the new identifier whenever the invariant below holds.
\<close>

definition register_locked :: "string \<Rightarrow> registry \<Rightarrow> 16 word \<times> registry" where
  "register_locked pattern r = (case mget (patterns r) pattern of
     Some i \<Rightarrow> (i, r)
   | None \<Rightarrow>
       (let currentCount = ucast (count r) :: 16 word in
        if MaxIndexedRoutes \<le> unat (count r) then (InvalidRouteID, r)
        else (let newID = currentCount;
                  newMap = mput pattern newID (patterns r);
                  newRev = (reverse r @ [[]])[unat newID := pattern]
              in (newID, r\<lparr>count := count r + 1, patterns := newMap, reverse := newRev\<rparr>))))"

definition get_or_register :: "string \<Rightarrow> registry \<Rightarrow> 16 word \<times> registry" where
  "get_or_register pattern r = (case mget (patterns r) pattern of
     Some i \<Rightarrow> (i, r)
   | None \<Rightarrow> register_locked pattern r)"

definition reg_lookup :: "string \<Rightarrow> registry \<Rightarrow> 16 word option" where
  "reg_lookup pattern r = mget (patterns r) pattern"

definition reg_pattern :: "16 word \<Rightarrow> registry \<Rightarrow> string" where
  "reg_pattern i r = (if unat i < length (reverse r) then reverse r ! unat i else [])"

definition reg_count :: "registry \<Rightarrow> nat" where
  "reg_count r = unat (count r)"

section \<open>The invariant\<close>

definition reg_inv :: "registry \<Rightarrow> bool" where
  "reg_inv r = (mwf (patterns r) \<and> distinct (reverse r) \<and>
     unat (count r) = length (reverse r) \<and> length (reverse r) \<le> MaxIndexedRoutes \<and>
     (\<forall>p i. mget (patterns r) p = Some i \<longleftrightarrow> unat i < length (reverse r) \<and> reverse r ! unat i = p))"

lemma reg_inv_new: "reg_inv new_registry"
  by (simp add: reg_inv_def new_registry_def)

lemma get_or_register_eq_locked: "get_or_register p r = register_locked p r"
  by (simp add: get_or_register_def register_locked_def split: option.split)

lemma unat_ucast_count:
  "reg_inv r \<Longrightarrow> unat (count r) < MaxIndexedRoutes \<Longrightarrow>
    unat (ucast (count r) :: 16 word) = length (reverse r)"
  by (simp add: reg_inv_def MaxIndexedRoutes_def unsigned_ucast_eq take_bit_nat_eq_self)

lemma unat_count_plus_1:
  "unat (c :: 32 word) < MaxIndexedRoutes \<Longrightarrow> unat (c + 1) = Suc (unat c)"
  by (simp add: MaxIndexedRoutes_def unat_word_ariths)

lemma reg_fresh: "reg_inv r \<Longrightarrow> mget (patterns r) p = None \<Longrightarrow> p \<notin> set (reverse r)"
proof
  assume inv: "reg_inv r" and none: "mget (patterns r) p = None" and "p \<in> set (reverse r)"
  then obtain i where i: "i < length (reverse r)" "reverse r ! i = p"
    by (auto simp: in_set_conv_nth)
  with inv have "unat (of_nat i :: 16 word) = i"
    by (simp add: reg_inv_def MaxIndexedRoutes_def le_simps)
  with i inv have "mget (patterns r) p = Some (of_nat i)"
    by (simp add: reg_inv_def)
  with none show False by simp
qed

text \<open>One lemma for the four outcomes of a call.\<close>

lemma get_or_register_cases:
  assumes "reg_inv r"
  obtains (known) i where "mget (patterns r) p = Some i" "get_or_register p r = (i, r)"
  | (full) "mget (patterns r) p = None" "length (reverse r) = MaxIndexedRoutes"
      "get_or_register p r = (InvalidRouteID, r)"
  | (fresh) i where "mget (patterns r) p = None" "length (reverse r) < MaxIndexedRoutes"
      "unat i = length (reverse r)"
      "get_or_register p r = (i, r\<lparr>count := count r + 1, patterns := mput p i (patterns r),
         reverse := reverse r @ [p]\<rparr>)"
proof (cases "mget (patterns r) p")
  case (Some i)
  then show ?thesis by (intro known) (auto simp: get_or_register_def)
next
  case None
  have cnt: "unat (count r) = length (reverse r)" "length (reverse r) \<le> MaxIndexedRoutes"
    using assms by (auto simp: reg_inv_def)
  show ?thesis
  proof (cases "MaxIndexedRoutes \<le> unat (count r)")
    case True
    with None cnt show ?thesis
      by (intro full) (auto simp: get_or_register_def register_locked_def)
  next
    case False
    with assms have "unat (ucast (count r) :: 16 word) = length (reverse r)"
      by (simp add: unat_ucast_count)
    with None False cnt show ?thesis
      by (intro fresh [of "ucast (count r)"])
        (auto simp: get_or_register_def register_locked_def Let_def list_update_append)
  qed
qed

lemma reg_inv_get_or_register [wf_intros]:
  assumes "reg_inv r"
  shows "reg_inv (snd (get_or_register p r))"
  using assms
proof (cases rule: get_or_register_cases [of r p])
  case (fresh i)
  have idx: "unat j = length (reverse r) \<longleftrightarrow> j = i" for j
    using fresh(3) by (metis word_unat_eq_iff)
  from assms fresh have "unat (count r + 1) = Suc (length (reverse r))"
    by (simp add: reg_inv_def unat_count_plus_1)
  moreover have "p \<notin> set (reverse r)"
    using assms fresh(1) by (rule reg_fresh)
  moreover have "mget (mput p i (patterns r)) q = Some j \<longleftrightarrow>
      unat j < Suc (length (reverse r)) \<and> (reverse r @ [p]) ! unat j = q" for q j
    using assms fresh(1,3) idx [of j] \<open>p \<notin> set (reverse r)\<close>
    by (auto simp: map_simps reg_inv_def nth_append less_Suc_eq)
  ultimately show ?thesis
    using assms fresh by (simp add: reg_inv_def wf_intros)
qed (use assms in simp_all)

lemma get_or_register_valid:
  assumes "reg_inv r" "get_or_register p r = (i, r')" "i \<noteq> InvalidRouteID"
  shows "mget (patterns r') p = Some i" "unat i < length (reverse r')" "reverse r' ! unat i = p"
proof -
  have inv: "reg_inv r'"
    using reg_inv_get_or_register [OF assms(1), of p] assms(2) by simp
  show "mget (patterns r') p = Some i"
    using assms by (cases rule: get_or_register_cases [OF assms(1), of p]) (auto simp: map_simps)
  with inv show "unat i < length (reverse r')" "reverse r' ! unat i = p"
    by (auto simp: reg_inv_def)
qed

lemma get_or_register_mono:
  assumes "reg_inv r" "get_or_register p r = (i, r')"
  shows "mget (patterns r) q = Some j \<Longrightarrow> mget (patterns r') q = Some j"
    and "length (reverse r) \<le> length (reverse r')"
  using assms by (cases rule: get_or_register_cases [OF assms(1), of p]; auto simp: map_simps)+

lemma reg_id_bound:
  assumes "reg_inv r" "mget (patterns r) p = Some i"
  shows "unat i < 4096" "i \<noteq> InvalidRouteID"
proof -
  show b: "unat i < 4096"
    using assms by (auto simp: reg_inv_def MaxIndexedRoutes_def)
  show "i \<noteq> InvalidRouteID"
    using b by (auto simp: InvalidRouteID_def)
qed

section \<open>Properties\<close>

fun register_all :: "string list \<Rightarrow> registry \<Rightarrow> registry" where
  "register_all [] r = r"
| "register_all (p # ps) r = register_all ps (snd (get_or_register p r))"

lemma reg_inv_register_all: "reg_inv r \<Longrightarrow> reg_inv (register_all ps r)"
  by (induction ps arbitrary: r) (auto simp: reg_inv_get_or_register)

lemma register_all_mono:
  "reg_inv r \<Longrightarrow> mget (patterns r) q = Some j \<Longrightarrow> mget (patterns (register_all ps r)) q = Some j"
proof (induction ps arbitrary: r)
  case (Cons p ps)
  then show ?case
    using get_or_register_mono(1) [OF Cons.prems(1), of p] reg_inv_get_or_register [of r p]
    by (cases "get_or_register p r") auto
qed simp

text \<open>
  C26: an identifier handed out by the registry is permanent and unambiguous: after any further
  registrations the pattern still has it, \<open>Pattern\<close> maps it back, and a second pattern never gets
  the same one.
\<close>

theorem registry_ids_stable:
  assumes "reg_inv r" "get_or_register p r = (i, r')" "i \<noteq> InvalidRouteID"
    and "r'' = register_all ps r'"
  shows "get_or_register p r'' = (i, r'') \<and> reg_pattern i r'' = p \<and>
    (\<forall>q j. reg_lookup q r'' = Some j \<longrightarrow> q \<noteq> p \<longrightarrow> j \<noteq> i)"
proof -
  have inv': "reg_inv r'"
    using reg_inv_get_or_register [OF assms(1), of p] assms(2) by simp
  then have inv'': "reg_inv r''"
    using assms(4) by (simp add: reg_inv_register_all)
  have "mget (patterns r'') p = Some i"
    using register_all_mono [OF inv' get_or_register_valid(1) [OF assms(1-3)]] assms(4) by simp
  with inv'' show ?thesis
    by (auto simp: get_or_register_def reg_pattern_def reg_lookup_def reg_inv_def)
qed

theorem registry_ids_stable_witness:
  "reg_pattern 0 (register_all [''GET /b'', ''GET /a''] (snd (get_or_register ''GET /a'' new_registry))) =
     ''GET /a''"
proof -
  have "get_or_register ''GET /a'' new_registry = (0, snd (get_or_register ''GET /a'' new_registry))"
    by (simp add: get_or_register_def register_locked_def new_registry_def MaxIndexedRoutes_def)
  from registry_ids_stable [OF reg_inv_new this _ refl, of "[''GET /b'', ''GET /a'']"]
  show ?thesis by (simp add: InvalidRouteID_def)
qed

text \<open>
  at capacity a new pattern is rejected with \<open>InvalidRouteID\<close> and the registry is unchanged,
  while a registered pattern keeps its identifier; below capacity every pattern gets a valid
  identifier and the count grows by at most one, never above \<open>MaxIndexedRoutes\<close>.
\<close>

theorem registry_capacity:
  assumes "reg_inv r" "get_or_register p r = (i, r')"
  shows "reg_count r' \<le> MaxIndexedRoutes \<and>
    (i = InvalidRouteID \<longleftrightarrow> reg_lookup p r = None \<and> reg_count r = MaxIndexedRoutes) \<and>
    (i = InvalidRouteID \<longrightarrow> r' = r) \<and>
    (reg_lookup p r = None \<longrightarrow> i \<noteq> InvalidRouteID \<longrightarrow> reg_count r' = Suc (reg_count r) \<and> unat i = reg_count r)"
proof -
  have inv': "reg_inv r'"
    using reg_inv_get_or_register [OF assms(1), of p] assms(2) by simp
  then have bound: "reg_count r' \<le> MaxIndexedRoutes"
    by (simp add: reg_count_def reg_inv_def)
  have cnt: "reg_count r = length (reverse r)"
    using assms(1) by (simp add: reg_count_def reg_inv_def)
  from assms(1) show ?thesis
  proof (cases rule: get_or_register_cases [of r p])
    case (known j)
    with reg_id_bound(2) [OF assms(1) known(1)] assms(2) bound show ?thesis
      by (auto simp: reg_lookup_def)
  next
    case full
    with assms(2) bound cnt show ?thesis by (auto simp: reg_lookup_def)
  next
    case (fresh j)
    then have "j \<noteq> InvalidRouteID"
      by (auto simp: InvalidRouteID_def MaxIndexedRoutes_def)
    moreover have "unat (count r + 1) = Suc (unat (count r))"
      using fresh(2) cnt by (intro unat_count_plus_1) (simp add: reg_count_def)
    ultimately show ?thesis
      using fresh assms(2) bound cnt by (auto simp: reg_lookup_def reg_count_def)
  qed
qed

theorem registry_capacity_witness:
  "reg_count (snd (get_or_register ''GET /a'' new_registry)) \<le> MaxIndexedRoutes"
  using registry_capacity [OF reg_inv_new, of "''GET /a''"]
  by (cases "get_or_register ''GET /a'' new_registry") auto

end
