(* ===== verification/Dense.thy ===== *)
theory Dense
  imports Predictor Endpoint_Index
begin

text \<open>
  \<open>predictor_dense.go\<close>: the predictor with one contiguous matrix of 32-bit counters. Slices are lists
  with checked indices: an index out of range is a panic, the value \<open>None\<close>. \<open>Record\<close> is modelled as
  one step; \<open>pick\<close> and \<open>srt\<close> are as in the map-based predictor.
\<close>

section \<open>State\<close>

definition DefaultMaxDenseRoutes :: int where
  "DefaultMaxDenseRoutes = 1024"

definition NumSessionShards :: nat where
  "NumSessionShards = 64"

record dense_step =
  ds_id :: "16 word"
  ds_concrete :: string
  ds_pattern :: string
  ds_path :: string
  ds_query :: string

record dense =
  dn_registry :: registry
  dn_maxRoutes :: "32 word"
  dn_matrix :: "32 word list"
  dn_totals :: "32 word list"
  dn_shards :: "dense_step sessions list"
  dn_maxHistory :: nat
  dn_concrete :: "(16 word, string) gomap"

record dense_config =
  dc_max_routes :: int
  dc_max_history :: int
  dc_registry :: "registry option"

definition new_dense :: "dense_config option \<Rightarrow> dense" where
  "new_dense cfg = (let
     maxRoutes = (case cfg of Some c \<Rightarrow> if 0 < dc_max_routes c then of_int (dc_max_routes c)
                                        else of_int DefaultMaxDenseRoutes
                  | None \<Rightarrow> of_int DefaultMaxDenseRoutes) :: 32 word;
     maxHistory = (case cfg of Some c \<Rightarrow> if 0 < dc_max_history c then dc_max_history c else 10
                   | None \<Rightarrow> 10);
     reg = (case cfg of Some c \<Rightarrow> (case dc_registry c of Some r \<Rightarrow> r | None \<Rightarrow> new_registry)
            | None \<Rightarrow> new_registry)
   in \<lparr>dn_registry = reg, dn_maxRoutes = maxRoutes,
       dn_matrix = replicate (unat (maxRoutes * maxRoutes)) 0,
       dn_totals = replicate (unat maxRoutes) 0,
       dn_shards = replicate NumSessionShards [],
       dn_maxHistory = nat maxHistory, dn_concrete = []\<rparr>)"

definition session_shard :: "(string \<Rightarrow> 64 word) \<Rightarrow> string \<Rightarrow> nat" where
  "session_shard xx sid = unat (xx sid mod of_nat NumSessionShards)"

definition dense_history :: "(string \<Rightarrow> 64 word) \<Rightarrow> string \<Rightarrow> dense \<Rightarrow> dense_step list" where
  "dense_history xx sid p = session_history sid (dn_shards p ! session_shard xx sid)"

definition at_index :: "'a list \<Rightarrow> nat \<Rightarrow> 'a option" where
  "at_index xs i = (if i < length xs then Some (xs ! i) else None)"

section \<open>\<open>Record\<close>\<close>

definition cell_idx :: "16 word \<Rightarrow> 16 word \<Rightarrow> dense \<Rightarrow> 32 word" where
  "cell_idx f t p = ucast f * dn_maxRoutes p + ucast t"

text \<open>
  The loop of \<open>rescaleRow\<close> over \<open>toID\<close>: it halves the counters of the row from \<open>rowStart\<close> and adds
  the halves up in 32 bits.
\<close>

fun rescale_loop :: "nat \<Rightarrow> 32 word \<Rightarrow> 32 word list \<Rightarrow> 32 word \<Rightarrow> (32 word list \<times> 32 word) option" where
  "rescale_loop 0 idx matrix tot = Some (matrix, tot)"
| "rescale_loop (Suc n) idx matrix tot = (case at_index matrix (unat idx) of
     None \<Rightarrow> None
   | Some old \<Rightarrow>
       (let half = old div 2 in
        rescale_loop n (idx + 1) (matrix[unat idx := half]) (tot + half)))"

definition rescale_row :: "16 word \<Rightarrow> dense \<Rightarrow> dense option" where
  "rescale_row f p = (case rescale_loop (unat (dn_maxRoutes p)) (ucast f * dn_maxRoutes p) (dn_matrix p) 0 of
     None \<Rightarrow> None
   | Some (matrix, newTotal) \<Rightarrow>
       (if unat f < length (dn_totals p)
        then Some (p\<lparr>dn_matrix := matrix, dn_totals := (dn_totals p)[unat f := newTotal]\<rparr>)
        else None))"

definition bump :: "16 word \<Rightarrow> 16 word \<Rightarrow> dense \<Rightarrow> dense option" where
  "bump f t p = (let idx = unat (cell_idx f t p) in
     case at_index (dn_matrix p) idx of
       None \<Rightarrow> None
     | Some c \<Rightarrow>
        (case at_index (dn_totals p) (unat f) of
           None \<Rightarrow> None
         | Some tot0 \<Rightarrow>
            (let tot = tot0 + 1;
                 p1 = p\<lparr>dn_matrix := (dn_matrix p)[idx := c + 1],
                        dn_totals := (dn_totals p)[unat f := tot]\<rparr>
             in if tot \<ge> 0x7FFFFFFF then rescale_row f p1 else Some p1)))"

definition dense_record ::
  "(string \<Rightarrow> 64 word) \<Rightarrow> (dense_step sessions \<Rightarrow> nat) \<Rightarrow> string \<Rightarrow> string \<Rightarrow> string \<Rightarrow> string \<Rightarrow>
     dense \<Rightarrow> dense option" where
  "dense_record xx pick sid method0 path rawQuery p = (let
     method = to_upper method0;
     pattern = normalize_route method path;
     (toID, reg) = get_or_register pattern (dn_registry p);
     p0 = p\<lparr>dn_registry := reg\<rparr>
   in if toID = InvalidRouteID \<or> dn_maxRoutes p \<le> ucast toID then Some p0
      else (let
        concrete = concrete_call method path rawQuery;
        step = \<lparr>ds_id = toID, ds_concrete = concrete, ds_pattern = pattern, ds_path = path,
                ds_query = rawQuery\<rparr>;
        p1 = (if static_pattern pattern
              then p0\<lparr>dn_concrete := mput toID concrete (dn_concrete p0)\<rparr> else p0);
        sh = session_shard xx sid;
        hist = session_history sid (dn_shards p1 ! sh);
        p2 = p1\<lparr>dn_shards := (dn_shards p1)[sh :=
               record_session pick 500 (dn_maxHistory p1) sid step (dn_shards p1 ! sh)]\<rparr>
      in if hist \<noteq> [] \<and> ucast (ds_id (last hist)) < dn_maxRoutes p2
         then bump (ds_id (last hist)) toID p2 else Some p2))"

section \<open>\<open>Predict\<close>\<close>

definition first_some :: "string \<Rightarrow> (string \<Rightarrow> bool) \<Rightarrow> string \<Rightarrow> string" where
  "first_some active ok seg = (if active = [] \<and> ok seg then seg else active)"

text \<open>The identifiers of the last path, from right to left, then of the query.\<close>

fun path_ids :: "string list \<Rightarrow> string \<times> string \<times> string \<Rightarrow> string \<times> string \<times> string" where
  "path_ids [] ids = ids"
| "path_ids (seg # segs) (n, u, h) =
     (if seg = [] then path_ids segs (n, u, h)
      else path_ids segs (first_some n isNumeric seg, first_some u isUUID seg, first_some h isHexID seg))"

definition numeric_key :: "string \<Rightarrow> bool" where
  "numeric_key k = (k = ''id'' \<or> k = ''product_id'' \<or> k = ''order_id'' \<or> k = ''item_id'')"

fun query_ids :: "string list \<Rightarrow> string \<times> string \<times> string \<Rightarrow> string \<times> string \<times> string" where
  "query_ids [] ids = ids"
| "query_ids (qp # qps) (n, u, h) = (case split_n2 (CHR ''='') qp of
     [k, val] \<Rightarrow> query_ids qps (first_some n (\<lambda>v. numeric_key k \<and> isNumeric v) val,
                   first_some u isUUID val, first_some h isHexID val)
   | _ \<Rightarrow> query_ids qps (n, u, h))"

definition active_ids :: "string \<Rightarrow> string \<Rightarrow> string \<times> string \<times> string" where
  "active_ids path query = (let
     (n, u, h) = path_ids (rev (split (CHR ''/'') path)) ([], [], [])
   in if (n = [] \<or> u = [] \<or> h = []) \<and> query \<noteq> []
      then query_ids (split (CHR ''&'') query) (n, u, h) else (n, u, h))"

definition hydrate :: "string \<Rightarrow> string \<Rightarrow> string \<Rightarrow> string" where
  "hydrate name active call = (if active \<noteq> [] \<and> contains call name then replace1 call name active else call)"

definition hydrate_call :: "16 word \<Rightarrow> string \<Rightarrow> dense_step \<Rightarrow> dense \<Rightarrow> string" where
  "hydrate_call candToID pattern lastStep p = (case split_n2 (CHR '' '') pattern of
     [method, pathPattern] \<Rightarrow>
       (let call = method @ '' '' @ pathPattern;
            (n, u, h) = active_ids (ds_path lastStep) (ds_query lastStep);
            call1 = hydrate '':id'' n call;
            call2 = hydrate '':uuid'' u call1;
            call3 = hydrate '':hex'' h call2
        in if static_pattern pattern then
             (let known = (case mget (dn_concrete p) candToID of None \<Rightarrow> [] | Some k \<Rightarrow> k) in
              case index_of known ''?'' of
                Some qIdx \<Rightarrow> if known \<noteq> [] \<and> \<not> contains call3 ''?'' then call3 @ drop qIdx known else call3
              | None \<Rightarrow> call3)
           else call3)
   | _ \<Rightarrow> pattern)"

text \<open>The scan of the row; a candidate is an identifier and its counter.\<close>

fun scan_row :: "32 word list \<Rightarrow> 32 word \<Rightarrow> nat \<Rightarrow> nat \<Rightarrow> (16 word \<times> 32 word) list option" where
  "scan_row matrix idx i 0 = Some []"
| "scan_row matrix idx i (Suc n) = (case at_index matrix (unat idx) of
     None \<Rightarrow> None
   | Some c \<Rightarrow>
      (case scan_row matrix (idx + 1) (Suc i) n of
         None \<Rightarrow> None
       | Some rest \<Rightarrow> Some (if c > 0 then (of_nat i, c) # rest else rest)))"

definition dense_predict ::
  "((16 word \<times> 32 word) list \<Rightarrow> (16 word \<times> 32 word) list) \<Rightarrow> (string \<Rightarrow> 64 word) \<Rightarrow> string \<Rightarrow> int \<Rightarrow>
     dense \<Rightarrow> prediction list option" where
  "dense_predict srt xx sid topK p = (let hist = dense_history xx sid p in
     if hist = [] then Some []
     else (let lastStep = last hist; fromID = ds_id lastStep in
       if dn_maxRoutes p \<le> ucast fromID then Some []
       else (case at_index (dn_totals p) (unat fromID) of
          None \<Rightarrow> None
        | Some tot \<Rightarrow>
           (if tot = 0 then Some []
            else (let registered = min (of_nat (reg_count (dn_registry p))) (dn_maxRoutes p) in
              case scan_row (dn_matrix p) (ucast fromID * dn_maxRoutes p) 0 (unat registered) of
                None \<Rightarrow> None
              | Some [] \<Rightarrow> Some []
              | Some candidates \<Rightarrow>
                  (let ranked = srt candidates;
                       k = min topK (int (length candidates))
                   in if k < 0 then None
                      else Some (map (\<lambda>(toID, c). (let pat = reg_pattern toID (dn_registry p) in
                             \<lparr>pd_call = hydrate_call toID pat lastStep p, pd_pattern = pat,
                              pd_prob = of_nat (unat c) / of_nat (unat tot)\<rparr>))
                             (take (nat k) ranked))))))))"

definition dense_reset :: "(string \<Rightarrow> 64 word) \<Rightarrow> string \<Rightarrow> dense \<Rightarrow> dense" where
  "dense_reset xx sid p = p\<lparr>dn_shards := (dn_shards p)[session_shard xx sid :=
     mdel sid (dn_shards p ! session_shard xx sid)]\<rparr>"

definition dense_ops ::
  "(string \<Rightarrow> 64 word) \<Rightarrow> (dense_step sessions \<Rightarrow> nat) \<Rightarrow>
     ((16 word \<times> 32 word) list \<Rightarrow> (16 word \<times> 32 word) list) \<Rightarrow> dense predictor_ops" where
  "dense_ops xx pick srt = \<lparr>pr_record = dense_record xx pick, pr_predict = dense_predict srt xx,
     pr_reset = dense_reset xx\<rparr>"

section \<open>Rows\<close>

definition mrow :: "nat \<Rightarrow> nat \<Rightarrow> 'a list \<Rightarrow> 'a list" where
  "mrow R f m = map (\<lambda>j. m ! (f * R + j)) [0..<R]"

lemma length_mrow [simp]: "length (mrow R f m) = R"
  by (simp add: mrow_def)

lemma nth_mrow [simp]: "j < R \<Longrightarrow> mrow R f m ! j = m ! (f * R + j)"
  by (simp add: mrow_def)

lemma row_bound: "f < R \<Longrightarrow> f * R + R \<le> R * (R :: nat)"
proof -
  assume "f < R"
  then have "Suc f * R \<le> R * R" by (intro mult_le_mono1) simp
  then show ?thesis by simp
qed

lemma cell_bound: "f < R \<Longrightarrow> t < R \<Longrightarrow> f * R + t < R * (R :: nat)"
  using row_bound [of f R] by linarith

lemma cell_inj: "j < R \<Longrightarrow> t < R \<Longrightarrow> f' * R + j = f * R + t \<longleftrightarrow> f' = f \<and> j = (t :: nat)"
proof
  assume j: "j < R" "t < R" and eq: "f' * R + j = f * R + t"
  have "(f' * R + j) div R = f'" "(f * R + t) div R = f" using j by simp_all
  with eq show "f' = f \<and> j = t" by simp
qed simp

lemma mrow_take: "f * R + R \<le> length m \<Longrightarrow> take R (drop (f * R) m) = mrow R f m"
  by (rule nth_equalityI) auto

lemma mrow_update:
  assumes "f < R" "f' < R" "t < R" "length m = R * R"
  shows "mrow R f' (m[f * R + t := v]) = (if f' = f then (mrow R f m)[t := v] else mrow R f' m)"
proof (rule nth_equalityI)
  fix j
  assume "j < length (mrow R f' (m[f * R + t := v]))"
  then have j: "j < R" by simp
  show "mrow R f' (m[f * R + t := v]) ! j =
      (if f' = f then (mrow R f m)[t := v] else mrow R f' m) ! j"
    using j assms(3,4) cell_bound [OF assms(1,3)] cell_inj [OF j assms(3), of f' f]
    by (auto simp: nth_list_update)
qed simp

lemma row_range: "j < R \<Longrightarrow> (f * R \<le> f' * R + j \<and> f' * R + j < f * R + R) \<longleftrightarrow> f' = (f :: nat)"
proof
  assume j: "j < R" and r: "f * R \<le> f' * R + j \<and> f' * R + j < f * R + R"
  have "f' * R < (f + 1) * R" using r j by (simp add: algebra_simps)
  then have "f' < f + 1" by (metis mult_less_cancel2)
  moreover have "f * R < (f' + 1) * R" using r j by (simp add: algebra_simps)
  then have "f < f' + 1" by (metis mult_less_cancel2)
  ultimately show "f' = f" by simp
qed simp

lemma mrow_replace:
  assumes "f < R" "f' < R" "length m = R * R"
  shows "mrow R f' (take (f * R) m @ map g (mrow R f m) @ drop (f * R + R) m) =
    (if f' = f then map g (mrow R f m) else mrow R f' m)"
proof (rule nth_equalityI)
  let ?m = "take (f * R) m @ map g (mrow R f m) @ drop (f * R + R) m"
  fix j
  assume "j < length (mrow R f' ?m)"
  then have j: "j < R" by simp
  have b: "f * R + R \<le> R * R" "f' * R + j < R * R"
    using row_bound [OF assms(1)] cell_bound [OF assms(2) j] by simp_all
  have n: "?m ! i = (if f * R \<le> i \<and> i < f * R + R then g (m ! i) else m ! i)" if "i < R * R" for i
    using that b(1) assms(1,3) by (auto simp: nth_append min_def)
  show "mrow R f' ?m ! j = (if f' = f then map g (mrow R f m) else mrow R f' m) ! j"
    using j b n [OF b(2)] row_range [OF j, of f f'] by auto
qed simp

definition row_total :: "nat \<Rightarrow> nat \<Rightarrow> 32 word list \<Rightarrow> nat" where
  "row_total R f m = sum_list (map unat (mrow R f m))"

lemma sum_list_update_nat:
  "t < length xs \<Longrightarrow> sum_list (map unat (xs[t := v])) + unat (xs ! t) =
    sum_list (map unat xs) + unat (v :: 32 word)"
proof (induction xs arbitrary: t)
  case (Cons x xs)
  then show ?case by (cases t) auto
qed simp

lemma unat_le_sum: "x \<in> set xs \<Longrightarrow> unat x \<le> sum_list (map unat xs)"
  by (induction xs) auto

section \<open>The loops\<close>

lemma rescale_loop_eq:
  "i + n \<le> length m \<Longrightarrow> length m < 2 ^ 32 \<Longrightarrow>
    rescale_loop n (of_nat i) m acc = Some
      (take i m @ map (\<lambda>c. c div 2) (take n (drop i m)) @ drop (i + n) m,
       acc + sum_list (map (\<lambda>c. c div 2) (take n (drop i m))))"
proof (induction n arbitrary: i m acc)
  case (Suc n)
  have i: "i < length m" "unat (of_nat i :: 32 word) = i"
    using Suc.prems by (simp_all add: unat_of_nat take_bit_nat_eq_self)
  have idx: "of_nat i + 1 = (of_nat (Suc i) :: 32 word)" by simp
  let ?m = "m[i := m ! i div 2]"
  have "rescale_loop n (of_nat (Suc i)) ?m (acc + m ! i div 2) = Some
      (take (Suc i) ?m @ map (\<lambda>c. c div 2) (take n (drop (Suc i) ?m)) @ drop (Suc i + n) ?m,
       acc + m ! i div 2 + sum_list (map (\<lambda>c. c div 2) (take n (drop (Suc i) ?m))))"
    using Suc.prems by (intro Suc.IH) simp_all
  moreover have "take (Suc i) ?m = take i m @ [m ! i div 2]"
    using i by (simp add: take_Suc_conv_app_nth)
  moreover have "drop i m = m ! i # drop (Suc i) m" using i by (simp add: Cons_nth_drop_Suc)
  ultimately show ?case
    using i by (simp add: at_index_def Let_def idx del: of_nat_Suc)
qed simp

lemma scan_row_eq:
  "k + n \<le> length m \<Longrightarrow> length m < 2 ^ 32 \<Longrightarrow>
    scan_row m (of_nat k) i n = Some (filter (\<lambda>(t, c). c > 0)
      (zip (map of_nat [i..<i + n]) (take n (drop k m))))"
proof (induction n arbitrary: k i)
  case (Suc n)
  have k: "k < length m" "unat (of_nat k :: 32 word) = k"
    using Suc.prems by (simp_all add: unat_of_nat take_bit_nat_eq_self)
  have idx: "of_nat k + 1 = (of_nat (Suc k) :: 32 word)" by simp
  have "scan_row m (of_nat (Suc k)) (Suc i) n = Some (filter (\<lambda>(t, c). c > 0)
      (zip (map of_nat [Suc i..<Suc i + n]) (take n (drop (Suc k) m))))"
    using Suc.prems by (intro Suc.IH) simp_all
  moreover have "drop k m = m ! k # drop (Suc k) m" using k by (simp add: Cons_nth_drop_Suc)
  moreover have "[i..<i + Suc n] = i # [Suc i..<Suc i + n]" by (simp add: upt_rec)
  ultimately show ?case
    using k by (simp add: at_index_def idx del: of_nat_Suc upt_Suc)
qed simp

section \<open>The invariant\<close>

definition row_limit :: nat where
  "row_limit = 0x7FFFFFFF"

definition dense_inv :: "dense \<Rightarrow> bool" where
  "dense_inv p = (let R = unat (dn_maxRoutes p) in
     reg_inv (dn_registry p) \<and> 0 < R \<and> R \<le> 65535 \<and>
     length (dn_matrix p) = R * R \<and> length (dn_totals p) = R \<and>
     length (dn_shards p) = NumSessionShards \<and> 0 < dn_maxHistory p \<and>
     (\<forall>ss \<in> set (dn_shards p). sessions_ok 500 (dn_maxHistory p) (\<lambda>st. unat (ds_id st) < R) ss) \<and>
     (\<forall>f < R. row_total R f (dn_matrix p) = unat (dn_totals p ! f) \<and> unat (dn_totals p ! f) < row_limit))"

lemma dense_invD:
  assumes "dense_inv p"
  defines "R \<equiv> unat (dn_maxRoutes p)"
  shows "reg_inv (dn_registry p)" "0 < R" "R \<le> 65535" "length (dn_matrix p) = R * R"
    "length (dn_totals p) = R" "length (dn_shards p) = NumSessionShards" "0 < dn_maxHistory p"
    "ss \<in> set (dn_shards p) \<Longrightarrow> sessions_ok 500 (dn_maxHistory p) (\<lambda>st. unat (ds_id st) < R) ss"
    "f < R \<Longrightarrow> row_total R f (dn_matrix p) = unat (dn_totals p ! f)"
    "f < R \<Longrightarrow> unat (dn_totals p ! f) < row_limit"
  using assms(1) unfolding dense_inv_def R_def Let_def by blast+

lemma session_shard_less: "session_shard xx sid < NumSessionShards"
  by (simp add: session_shard_def NumSessionShards_def unat_mod_distrib)

lemma matrix_small: "R \<le> 65535 \<Longrightarrow> R * R < (2 :: nat) ^ 32"
proof -
  assume "R \<le> 65535"
  then have "R * R \<le> 65535 * 65535" by (intro mult_le_mono) auto
  then show ?thesis by simp
qed

lemma unat_ucast16 [simp]: "unat (ucast (f :: 16 word) :: 32 word) = unat f"
  by (simp add: unsigned_ucast_eq take_bit_nat_eq_self less_trans [OF unsigned_less])

lemma cell_idx_unat:
  assumes "unat (dn_maxRoutes p) \<le> 65535" "unat f < unat (dn_maxRoutes p)" "unat t < unat (dn_maxRoutes p)"
  shows "ucast f * dn_maxRoutes p = of_nat (unat f * unat (dn_maxRoutes p))"
    and "unat (cell_idx f t p) = unat f * unat (dn_maxRoutes p) + unat t"
proof -
  let ?R = "unat (dn_maxRoutes p)"
  show row: "ucast f * dn_maxRoutes p = of_nat (unat f * ?R)" by simp
  have "unat f * ?R + unat t < 2 ^ 32"
    using cell_bound [OF assms(2,3)] matrix_small [OF assms(1)] by linarith
  moreover have "cell_idx f t p = of_nat (unat f * ?R + unat t)"
    by (simp add: cell_idx_def)
  ultimately show "unat (cell_idx f t p) = unat f * ?R + unat t"
    by (simp add: unat_of_nat take_bit_nat_eq_self del: of_nat_add of_nat_mult)
qed

text \<open>The part of the invariant about counters, for rows other than \<open>f\<close> and for row \<open>f\<close>.\<close>

definition rows_ok :: "nat \<Rightarrow> nat \<Rightarrow> 32 word list \<Rightarrow> 32 word list \<Rightarrow> bool" where
  "rows_ok R f matrix totals = (length matrix = R * R \<and> length totals = R \<and>
     (\<forall>g < R. g \<noteq> f \<longrightarrow> row_total R g matrix = unat (totals ! g) \<and> unat (totals ! g) < row_limit))"

lemma dense_inv_rows:
  assumes "dense_inv p" "rows_ok (unat (dn_maxRoutes p)) f m t"
    and "f < unat (dn_maxRoutes p) \<Longrightarrow> row_total (unat (dn_maxRoutes p)) f m = unat (t ! f) \<and> unat (t ! f) < row_limit"
  shows "dense_inv (p\<lparr>dn_matrix := m, dn_totals := t\<rparr>)"
proof -
  have "row_total (unat (dn_maxRoutes p)) g m = unat (t ! g) \<and> unat (t ! g) < row_limit"
    if "g < unat (dn_maxRoutes p)" for g
    using that assms(2,3) by (cases "g = f") (auto simp: rows_ok_def)
  with assms(1,2) show ?thesis by (simp add: dense_inv_def Let_def rows_ok_def)
qed

lemma unat_sum_words:
  "sum_list (map unat xs) < 2 ^ 32 \<Longrightarrow> unat (sum_list (xs :: 32 word list)) = sum_list (map unat xs)"
  by (induction xs) (auto simp: unat_word_ariths take_bit_nat_eq_self)

lemma sum_halves_le: "2 * sum_list (map (\<lambda>c. unat (c div 2 :: 32 word)) xs) \<le> sum_list (map unat xs)"
  by (induction xs) (auto simp: unat_div_distrib)

text \<open>\<open>rescaleRow\<close> halves one row and makes its total the sum of the halves.\<close>

lemma rescale_row_eq:
  assumes "unat (dn_maxRoutes p) \<le> 65535" "unat f < unat (dn_maxRoutes p)"
    and "length (dn_matrix p) = unat (dn_maxRoutes p) * unat (dn_maxRoutes p)"
    and "length (dn_totals p) = unat (dn_maxRoutes p)"
  defines "R \<equiv> unat (dn_maxRoutes p)"
  defines "row \<equiv> mrow R (unat f) (dn_matrix p)"
  shows "rescale_row f p = Some (p\<lparr>
     dn_matrix := take (unat f * R) (dn_matrix p) @ map (\<lambda>c. c div 2) row @ drop (unat f * R + R) (dn_matrix p),
     dn_totals := (dn_totals p)[unat f := sum_list (map (\<lambda>c. c div 2) row)]\<rparr>)"
proof -
  have b: "unat f * R + R \<le> length (dn_matrix p)" "length (dn_matrix p) < 2 ^ 32"
    using row_bound [of "unat f" R] matrix_small [of R] assms(1-3) by (simp_all add: R_def)
  have "rescale_loop R (ucast f * dn_maxRoutes p) (dn_matrix p) 0 = Some
      (take (unat f * R) (dn_matrix p) @ map (\<lambda>c. c div 2) row @ drop (unat f * R + R) (dn_matrix p),
       sum_list (map (\<lambda>c. c div 2) row))"
    using rescale_loop_eq [OF b] mrow_take [OF b(1)] cell_idx_unat(1) [OF assms(1,2,2)]
    by (simp add: R_def row_def del: of_nat_mult)
  with assms(2,4) show ?thesis by (simp add: rescale_row_def R_def)
qed

lemma rescale_rows_ok:
  assumes "unat (dn_maxRoutes p) \<le> 65535" "unat f < unat (dn_maxRoutes p)"
    and "rows_ok (unat (dn_maxRoutes p)) (unat f) (dn_matrix p) (dn_totals p)"
    and "row_total (unat (dn_maxRoutes p)) (unat f) (dn_matrix p) \<le> row_limit"
  shows "\<exists>m t. rescale_row f p = Some (p\<lparr>dn_matrix := m, dn_totals := t\<rparr>) \<and>
    rows_ok (unat (dn_maxRoutes p)) (unat f) m t \<and>
    row_total (unat (dn_maxRoutes p)) (unat f) m = unat (t ! unat f) \<and> unat (t ! unat f) < row_limit \<and>
    2 * unat (t ! unat f) \<le> row_total (unat (dn_maxRoutes p)) (unat f) (dn_matrix p)"
proof -
  define R where "R = unat (dn_maxRoutes p)"
  define row where "row = mrow R (unat f) (dn_matrix p)"
  let ?m = "take (unat f * R) (dn_matrix p) @ map (\<lambda>c. c div 2) row @ drop (unat f * R + R) (dn_matrix p)"
  let ?t = "(dn_totals p)[unat f := sum_list (map (\<lambda>c. c div 2) row)]"
  have len: "length (dn_matrix p) = R * R" "length (dn_totals p) = R"
    using assms(3) by (simp_all add: rows_ok_def R_def)
  have f: "unat f < R" using assms(2) by (simp add: R_def)
  have eq: "rescale_row f p = Some (p\<lparr>dn_matrix := ?m, dn_totals := ?t\<rparr>)"
    using rescale_row_eq [OF assms(1,2)] len by (simp add: R_def row_def)
  have rows: "mrow R g ?m = (if g = unat f then map (\<lambda>c. c div 2) row else mrow R g (dn_matrix p))"
    if "g < R" for g
    using mrow_replace [OF f that len(1)] by (simp add: row_def)
  have le: "2 * sum_list (map unat (map (\<lambda>c. c div 2) row)) \<le> sum_list (map unat row)"
    using sum_halves_le [of row] by (simp add: comp_def)
  moreover have "sum_list (map unat row) \<le> row_limit"
    using assms(4) by (simp add: row_total_def R_def row_def)
  ultimately have small: "sum_list (map unat (map (\<lambda>c. c div 2) row)) < row_limit"
    by (simp add: row_limit_def)
  have tot: "unat (sum_list (map (\<lambda>c. c div 2) row)) = sum_list (map unat (map (\<lambda>c. c div 2) row))"
    using small by (intro unat_sum_words) (simp add: row_limit_def)
  have "length ?m = R * R"
    using len row_bound [OF f] by (simp add: row_def)
  then have "rows_ok R (unat f) ?m ?t"
    using assms(3) len rows by (simp add: rows_ok_def R_def [symmetric] row_total_def)
  moreover have "row_total R (unat f) ?m = unat (?t ! unat f)"
    using rows [OF f] tot f len by (simp add: row_total_def)
  ultimately show ?thesis
    using eq small tot f len le unfolding R_def [symmetric]
    by (intro exI [of _ ?m] exI [of _ ?t]) (simp add: row_total_def row_def)
qed

lemma bump_ok:
  assumes "dense_inv p" "unat f < unat (dn_maxRoutes p)" "unat t < unat (dn_maxRoutes p)"
  defines "R \<equiv> unat (dn_maxRoutes p)"
  shows "\<exists>m ts. bump f t p = Some (p\<lparr>dn_matrix := m, dn_totals := ts\<rparr>) \<and>
    dense_inv (p\<lparr>dn_matrix := m, dn_totals := ts\<rparr>) \<and>
    (Suc (unat (dn_totals p ! unat f)) < row_limit \<longrightarrow>
       m = (dn_matrix p)[unat f * R + unat t := dn_matrix p ! (unat f * R + unat t) + 1] \<and>
       ts = (dn_totals p)[unat f := dn_totals p ! unat f + 1])"
proof -
  note inv = dense_invD [OF assms(1), folded R_def]
  have f: "unat f < R" and t: "unat t < R" using assms(2,3) by (simp_all add: R_def)
  let ?i = "unat f * R + unat t"
  let ?m = "(dn_matrix p)[?i := dn_matrix p ! ?i + 1]" and ?ts = "(dn_totals p)[unat f := dn_totals p ! unat f + 1]"
  have i: "unat (cell_idx f t p) = ?i" "?i < length (dn_matrix p)"
    using cell_idx_unat(2) [of p f t] inv(3,4) f t cell_bound [OF f t] by (simp_all add: R_def)
  have old: "row_total R (unat f) (dn_matrix p) = unat (dn_totals p ! unat f)"
    "unat (dn_totals p ! unat f) < row_limit"
    using inv(9,10) [OF f] by simp_all
  have tot: "unat (dn_totals p ! unat f + 1) = Suc (unat (dn_totals p ! unat f))"
    using old(2) by (simp add: unat_word_ariths row_limit_def)
  have "unat (dn_matrix p ! ?i) \<le> row_total R (unat f) (dn_matrix p)"
    unfolding row_total_def by (rule unat_le_sum) (use t in \<open>force simp: mrow_def\<close>)
  then have cell: "unat (dn_matrix p ! ?i + 1) = Suc (unat (dn_matrix p ! ?i))"
    using old by (simp add: unat_word_ariths row_limit_def)
  have rows: "mrow R g ?m = (if g = unat f then (mrow R (unat f) (dn_matrix p))[unat t := dn_matrix p ! ?i + 1]
      else mrow R g (dn_matrix p))" if "g < R" for g
    by (rule mrow_update [OF f that t inv(4)])
  have new: "row_total R (unat f) ?m = Suc (unat (dn_totals p ! unat f))"
    using sum_list_update_nat [of "unat t" "mrow R (unat f) (dn_matrix p)" "dn_matrix p ! ?i + 1"]
      rows [OF f] cell t old(1) by (simp add: row_total_def)
  have ok: "rows_ok R (unat f) ?m ?ts"
    using inv(4,5,9,10) rows by (simp add: rows_ok_def row_total_def)
  let ?p = "p\<lparr>dn_matrix := ?m, dn_totals := ?ts\<rparr>"
  have b: "bump f t p = (if Suc (unat (dn_totals p ! unat f)) \<ge> row_limit then rescale_row f ?p else Some ?p)"
    using i f inv(5) tot by (simp add: bump_def Let_def at_index_def word_le_nat_alt row_limit_def)
  show ?thesis
  proof (cases "Suc (unat (dn_totals p ! unat f)) \<ge> row_limit")
    case False
    have "dense_inv ?p"
      using dense_inv_rows [OF assms(1), of "unat f" ?m ?ts] ok new tot f inv(5) False
      by (simp add: R_def)
    with b False show ?thesis by (intro exI [of _ ?m] exI [of _ ?ts]) simp
  next
    case True
    have "\<exists>m t. rescale_row f ?p = Some (?p\<lparr>dn_matrix := m, dn_totals := t\<rparr>) \<and>
        rows_ok R (unat f) m t \<and> row_total R (unat f) m = unat (t ! unat f) \<and> unat (t ! unat f) < row_limit"
      using rescale_rows_ok [of ?p f] ok new old(2) inv(3) f by (auto simp: R_def)
    then obtain m ts where m: "rescale_row f ?p = Some (p\<lparr>dn_matrix := m, dn_totals := ts\<rparr>)"
      "rows_ok R (unat f) m ts" "row_total R (unat f) m = unat (ts ! unat f)" "unat (ts ! unat f) < row_limit"
      by auto
    have "dense_inv (p\<lparr>dn_matrix := m, dn_totals := ts\<rparr>)"
      using dense_inv_rows [OF assms(1), of "unat f" m ts] m by (simp add: R_def)
    with b m True show ?thesis by (intro exI [of _ m] exI [of _ ts]) simp
  qed
qed

lemma dense_inv_registry: "dense_inv p \<Longrightarrow> reg_inv reg \<Longrightarrow> dense_inv (p\<lparr>dn_registry := reg\<rparr>)"
  by (simp add: dense_inv_def Let_def)

lemma dense_inv_concrete [simp]: "dense_inv (p\<lparr>dn_concrete := x\<rparr>) = dense_inv p"
  by (simp add: dense_inv_def Let_def)

lemma dense_inv_shards:
  assumes "dense_inv p" "sessions_ok 500 (dn_maxHistory p) (\<lambda>st. unat (ds_id st) < unat (dn_maxRoutes p)) ss"
  shows "dense_inv (p\<lparr>dn_shards := (dn_shards p)[i := ss]\<rparr>)"
  using assms set_update_subset_insert [of "dn_shards p" i ss] by (auto simp: dense_inv_def Let_def)

lemma shard_ok: "dense_inv p \<Longrightarrow> sessions_ok 500 (dn_maxHistory p)
    (\<lambda>st. unat (ds_id st) < unat (dn_maxRoutes p)) (dn_shards p ! session_shard xx sid)"
  using dense_invD(6) [of p] session_shard_less [of xx sid] by (intro dense_invD(8)) simp_all

lemma last_id_less:
  assumes "dense_inv p" "dense_history xx sid p \<noteq> []"
  shows "unat (ds_id (last (dense_history xx sid p))) < unat (dn_maxRoutes p)"
proof -
  have "list_all (\<lambda>st. unat (ds_id st) < unat (dn_maxRoutes p)) (dense_history xx sid p)"
    unfolding dense_history_def by (rule session_history_ok [OF shard_ok [OF assms(1)]])
  with assms(2) show ?thesis by (simp add: list_all_iff)
qed

lemma dense_record_ok:
  assumes "dense_inv p"
  shows "\<exists>p'. dense_record xx pick sid method path rawQuery p = Some p' \<and> dense_inv p' \<and>
    dn_maxRoutes p' = dn_maxRoutes p"
proof -
  obtain i reg where reg: "get_or_register (normalize_route (to_upper method) path) (dn_registry p) = (i, reg)"
    by fastforce
  have "reg_inv reg"
    using reg_inv_get_or_register [OF dense_invD(1) [OF assms]] reg by (metis snd_conv)
  with assms have inv0: "dense_inv (p\<lparr>dn_registry := reg\<rparr>)" by (rule dense_inv_registry)
  show ?thesis
  proof (cases "i = InvalidRouteID \<or> dn_maxRoutes p \<le> ucast i")
    case True
    with reg inv0 show ?thesis by (auto simp: dense_record_def Let_def)
  next
    case False
    define step where "step = \<lparr>ds_id = i, ds_concrete = concrete_call (to_upper method) path rawQuery,
      ds_pattern = normalize_route (to_upper method) path, ds_path = path, ds_query = rawQuery\<rparr>"
    define p1 where "p1 = (if static_pattern (normalize_route (to_upper method) path)
      then p\<lparr>dn_registry := reg, dn_concrete := mput i (concrete_call (to_upper method) path rawQuery) (dn_concrete p)\<rparr>
      else p\<lparr>dn_registry := reg\<rparr>)"
    define p2 where "p2 = p1\<lparr>dn_shards := (dn_shards p1)[session_shard xx sid :=
      record_session pick 500 (dn_maxHistory p1) sid step (dn_shards p1 ! session_shard xx sid)]\<rparr>"
    have fields: "dn_maxRoutes p1 = dn_maxRoutes p" "dn_shards p1 = dn_shards p" "dn_maxHistory p1 = dn_maxHistory p"
      "dn_maxRoutes p2 = dn_maxRoutes p"
      by (simp_all add: p1_def p2_def)
    have inv1: "dense_inv p1" using inv0 by (simp add: p1_def)
    have i: "unat i < unat (dn_maxRoutes p)" using False by (simp add: word_le_nat_alt)
    have "sessions_ok 500 (dn_maxHistory p1) (\<lambda>st. unat (ds_id st) < unat (dn_maxRoutes p1))
        (record_session pick 500 (dn_maxHistory p1) sid step (dn_shards p1 ! session_shard xx sid))"
      using i dense_invD(7) [OF inv1] by (intro sessions_ok_record [OF shard_ok [OF inv1]])
        (simp_all add: step_def fields)
    then have inv2: "dense_inv p2" unfolding p2_def by (rule dense_inv_shards [OF inv1])
    let ?hist = "session_history sid (dn_shards p ! session_shard xx sid)"
    have rec: "dense_record xx pick sid method path rawQuery p =
        (if ?hist \<noteq> [] \<and> ucast (ds_id (last ?hist)) < dn_maxRoutes p2 then bump (ds_id (last ?hist)) i p2 else Some p2)"
      using False reg by (simp add: dense_record_def Let_def p1_def p2_def step_def)
    show ?thesis
    proof (cases "?hist \<noteq> [] \<and> ucast (ds_id (last ?hist)) < dn_maxRoutes p2")
      case True
      then have "unat (ds_id (last ?hist)) < unat (dn_maxRoutes p2)" "unat i < unat (dn_maxRoutes p2)"
        using i by (simp_all add: word_less_nat_alt fields)
      from bump_ok [OF inv2 this] obtain m ts where
        "bump (ds_id (last ?hist)) i p2 = Some (p2\<lparr>dn_matrix := m, dn_totals := ts\<rparr>)"
        "dense_inv (p2\<lparr>dn_matrix := m, dn_totals := ts\<rparr>)" by blast
      then show ?thesis unfolding rec using True by (simp add: fields)
    next
      case False
      then show ?thesis unfolding rec using inv2 by (auto simp: fields)
    qed
  qed
qed

section \<open>Predictions\<close>

definition candidates :: "nat \<Rightarrow> nat \<Rightarrow> nat \<Rightarrow> 32 word list \<Rightarrow> (16 word \<times> 32 word) list" where
  "candidates R f n m = filter (\<lambda>(t, c). c > 0) (zip (map of_nat [0..<n]) (take n (mrow R f m)))"

lemma candidates_mem:
  assumes "(t, c) \<in> set (candidates R f n m)"
  shows "\<exists>i < n. t = of_nat i \<and> i < R \<and> c = mrow R f m ! i \<and> c > 0"
proof -
  from assms obtain i where "i < n" "i < R" "t = map of_nat [0..<n] ! i" "c = take n (mrow R f m) ! i" "c > 0"
    by (auto simp: candidates_def in_set_conv_nth)
  then show ?thesis by (intro exI [of _ i]) simp
qed

lemma candidates_sum: "sum_list (map (\<lambda>(t, c). unat c) (candidates R f n m)) \<le> row_total R f m"
proof -
  have "sum_list (map (\<lambda>(t, c). unat c) (filter (\<lambda>(t, c). c > 0) (zip xs ys))) \<le> sum_list (map unat ys)"
    for xs :: "16 word list" and ys :: "32 word list"
    by (induction xs ys rule: list_induct2') auto
  then have "sum_list (map (\<lambda>(t, c). unat c) (candidates R f n m)) \<le> sum_list (map unat (take n (mrow R f m)))"
    unfolding candidates_def .
  also have "\<dots> \<le> row_total R f m"
    unfolding row_total_def
    by (metis append_take_drop_id le_add1 map_append sum_list_append)
  finally show ?thesis .
qed

lemma candidates_distinct:
  assumes "n \<le> 65536" "distinct (map g [0..<n])"
  shows "distinct (map (\<lambda>(t, c). g (unat t)) (candidates R f n m))"
proof -
  have u: "unat (of_nat i :: 16 word) = i" if "i < n" for i
    using that assms(1) by (simp add: unat_of_nat take_bit_nat_eq_self)
  let ?z = "zip (map of_nat [0..<n] :: 16 word list) (take n (mrow R f m))"
  have "map (\<lambda>(t, c). g (unat t)) ?z = take (length ?z) (map g [0..<n])"
    by (rule nth_equalityI) (simp_all add: u)
  then have "distinct (map (\<lambda>(t, c). g (unat t)) ?z)" using assms(2) by (metis distinct_take)
  then show ?thesis unfolding candidates_def by (rule distinct_map_filter)
qed

lemma dense_predict_eq:
  assumes "dense_inv p" "dense_history xx sid p \<noteq> []"
  defines "lst \<equiv> last (dense_history xx sid p)"
  defines "R \<equiv> unat (dn_maxRoutes p)"
  defines "cands \<equiv> candidates R (unat (ds_id lst)) (min (reg_count (dn_registry p)) R) (dn_matrix p)"
  shows "dense_predict srt xx sid topK p =
    (if dn_totals p ! unat (ds_id lst) = 0 \<or> cands = [] then Some []
     else if topK < 0 then None
     else Some (map (\<lambda>(toID, c). \<lparr>
         pd_call = hydrate_call toID (reg_pattern toID (dn_registry p)) lst p,
         pd_pattern = reg_pattern toID (dn_registry p),
         pd_prob = of_nat (unat c) / of_nat (unat (dn_totals p ! unat (ds_id lst)))\<rparr>)
       (take (nat (min topK (int (length cands)))) (srt cands))))"
proof -
  note inv = dense_invD [OF assms(1), folded R_def]
  have f: "unat (ds_id lst) < R" using last_id_less [OF assms(1,2)] by (simp add: lst_def R_def)
  have cnt: "unat (min (of_nat (reg_count (dn_registry p))) (dn_maxRoutes p)) = min (reg_count (dn_registry p)) R"
  proof -
    have "reg_count (dn_registry p) < 2 ^ 32"
      using unsigned_less [of "registry.count (dn_registry p)"] by (simp add: reg_count_def)
    then have "unat (of_nat (reg_count (dn_registry p)) :: 32 word) = reg_count (dn_registry p)"
      by (simp add: unat_of_nat take_bit_nat_eq_self)
    then show ?thesis by (auto simp: min_def word_le_nat_alt R_def)
  qed
  have b: "unat (ds_id lst) * R + min (reg_count (dn_registry p)) R \<le> length (dn_matrix p)"
    "length (dn_matrix p) < 2 ^ 32" "unat (ds_id lst) * R + R \<le> length (dn_matrix p)"
    using row_bound [OF f] matrix_small [OF inv(3)] inv(4) by simp_all
  have tk: "take (min n R) (drop (unat (ds_id lst) * R) (dn_matrix p)) =
      take (min n R) (mrow R (unat (ds_id lst)) (dn_matrix p))" for n
    unfolding mrow_take [OF b(3), symmetric] by simp
  have scan: "scan_row (dn_matrix p) (ucast (ds_id lst) * dn_maxRoutes p) 0
      (min (reg_count (dn_registry p)) R) = Some cands"
    using scan_row_eq [OF b(1,2), of 0] cell_idx_unat(1) [of p "ds_id lst" "ds_id lst"] inv(3) f
    by (simp add: cands_def candidates_def tk R_def [symmetric] del: of_nat_mult)
  have "\<not> dn_maxRoutes p \<le> ucast (ds_id lst)" using f by (simp add: word_le_nat_alt R_def)
  moreover have "at_index (dn_totals p) (unat (ds_id lst)) = Some (dn_totals p ! unat (ds_id lst))"
    using f inv(5) by (simp add: at_index_def)
  ultimately show ?thesis
    using assms(2) scan cnt
    by (auto simp: dense_predict_def Let_def lst_def [symmetric] min_def nat_add_distrib split: list.split)
qed

lemma dense_predict_ok:
  assumes "sorts_desc snd srt" "dense_inv p" "0 \<le> topK"
  shows "\<exists>ps. dense_predict srt xx sid topK p = Some ps \<and> predictions_ok ps \<and> int (length ps) \<le> topK"
proof (cases "dense_history xx sid p = []")
  case True
  with assms(3) show ?thesis by (simp add: dense_predict_def Let_def)
next
  case False
  define lst where "lst = last (dense_history xx sid p)"
  define R where "R = unat (dn_maxRoutes p)"
  define n where "n = min (reg_count (dn_registry p)) R"
  define cands where "cands = candidates R (unat (ds_id lst)) n (dn_matrix p)"
  define tot where "tot = dn_totals p ! unat (ds_id lst)"
  define mk where "mk = (\<lambda>(toID, c :: 32 word). \<lparr>
         pd_call = hydrate_call toID (reg_pattern toID (dn_registry p)) lst p,
         pd_pattern = reg_pattern toID (dn_registry p),
         pd_prob = of_nat (unat c) / of_nat (unat tot)\<rparr>)"
  note inv = dense_invD [OF assms(2), folded R_def]
  have eq: "dense_predict srt xx sid topK p = (if tot = 0 \<or> cands = [] then Some []
      else Some (map mk (take (nat (min topK (int (length cands)))) (srt cands))))"
    using dense_predict_eq [OF assms(2) False, of srt topK] assms(3)
    by (simp add: lst_def R_def n_def cands_def tot_def mk_def)
  show ?thesis
  proof (cases "tot = 0 \<or> cands = []")
    case True
    with eq assms(3) show ?thesis by simp
  next
    case nonzero: False
    then have tot: "0 < unat tot" by (simp add: unat_gt_0)
    have f: "unat (ds_id lst) < R" using last_id_less [OF assms(2) False] by (simp add: lst_def R_def)
    have reg: "reg_inv (dn_registry p)" by (rule inv(1))
    then have n: "n \<le> length (reverse (dn_registry p))" "n \<le> 65536"
      by (auto simp: n_def reg_inv_def reg_count_def MaxIndexedRoutes_def)
    have pat: "map (pd_pattern \<circ> mk) cands = map (\<lambda>(t, c). reverse (dn_registry p) ! unat t) cands"
    proof (rule map_cong [OF refl])
      fix x
      assume "x \<in> set cands"
      moreover obtain t c where x: "x = (t, c)" by (cases x)
      ultimately obtain i where i: "i < n" "t = of_nat i" using candidates_mem unfolding cands_def by blast
      then have "unat t < length (reverse (dn_registry p))"
        using n by (simp add: unat_of_nat take_bit_nat_eq_self)
      then show "(pd_pattern \<circ> mk) x = (case x of (t, c) \<Rightarrow> reverse (dn_registry p) ! unat t)"
        by (simp add: x mk_def reg_pattern_def)
    qed
    have "map ((!) (reverse (dn_registry p))) [0..<n] = take n (reverse (dn_registry p))"
      using n(1) by (intro nth_equalityI) simp_all
    then have "distinct (map ((!) (reverse (dn_registry p))) [0..<n])"
      using reg by (simp add: reg_inv_def)
    then have dist: "distinct (map (pd_pattern \<circ> mk) cands)"
      unfolding pat unfolding cands_def by (rule candidates_distinct [OF n(2)])
    have "sum_list (map (pd_prob \<circ> mk) cands) = of_nat (sum_list (map (\<lambda>(t, c). unat c) cands)) / of_nat (unat tot)"
      by (induction cands) (auto simp: mk_def add_divide_distrib)
    also have "\<dots> \<le> 1"
    proof -
      have "sum_list (map (\<lambda>(t, c). unat c) cands) \<le> unat tot"
        using candidates_sum [of R "unat (ds_id lst)" n "dn_matrix p"] inv(9) [OF f]
        by (simp add: cands_def tot_def)
      then have "(of_nat (sum_list (map (\<lambda>(t, c). unat c) cands)) :: rat) \<le> of_nat (unat tot)"
        by (rule of_nat_mono)
      then show ?thesis using tot by (simp add: divide_le_eq)
    qed
    finally have sum: "sum_list (map (pd_prob \<circ> mk) cands) \<le> 1" .
    have "predictions_ok (map mk (srt cands))"
    proof (rule predictions_ok_ranked [OF assms(1) _ sum dist])
      show "0 < pd_prob (mk x)" if x: "x \<in> set cands" for x
      proof -
        have "snd x > 0" using candidates_mem [of "fst x" "snd x"] x unfolding cands_def by auto
        then have "0 < unat (snd x)" by (simp add: unat_gt_0 word_gt_0)
        then have "0 < (of_nat (unat (snd x)) :: rat)" "0 < (of_nat (unat tot) :: rat)"
          using tot by (simp_all only: of_nat_0_less_iff)
        then show ?thesis
          by (simp only: mk_def case_prod_unfold prediction.select_convs divide_pos_pos)
      qed
      show "pd_prob (mk y) \<le> pd_prob (mk x)" if "snd y \<le> snd x" for x y
      proof -
        have "unat (snd y) \<le> unat (snd x)" using that by (simp add: word_le_nat_alt)
        then show ?thesis
          unfolding mk_def case_prod_unfold prediction.select_convs
          by (intro divide_right_mono of_nat_mono of_nat_0_le_iff)
      qed
    qed
    from predictions_ok_take [OF this, of "nat (min topK (int (length cands)))"] assms(3) show ?thesis
      unfolding eq using nonzero by (simp add: take_map sorts_desc_length [OF assms(1)])
  qed
qed

text \<open>Whatever permutation the sort returns, the dense predictor meets the same contract.\<close>

locale dense_sort =
  fixes srt :: "(16 word \<times> 32 word) list \<Rightarrow> (16 word \<times> 32 word) list"
  assumes sorts: "sorts_desc snd srt"

sublocale dense_sort \<subseteq> contract: predictor_contract "dense_ops xx pick srt" dense_inv for xx pick
proof
  fix p sid m path q
  assume "dense_inv p"
  then show "\<exists>p'. pr_record (dense_ops xx pick srt) sid m path q p = Some p' \<and> dense_inv p'"
    using dense_record_ok [of p xx pick sid m path q] by (auto simp: dense_ops_def)
next
  fix p sid and k :: int
  assume "dense_inv p" "0 \<le> k"
  then show "\<exists>ps. pr_predict (dense_ops xx pick srt) sid k p = Some ps \<and> predictions_ok ps \<and>
      (0 < k \<longrightarrow> int (length ps) \<le> k)"
    using dense_predict_ok [OF sorts, of p k xx sid] by (auto simp: dense_ops_def)
next
  fix p sid
  assume "dense_inv p"
  then show "dense_inv (pr_reset (dense_ops xx pick srt) sid p)"
    by (simp add: dense_ops_def dense_reset_def dense_inv_shards shard_ok sessions_ok_del)
next
  fix p sid and k :: int
  assume "dense_inv p"
  then have "session_shard xx sid < length (dn_shards p)"
    using session_shard_less [of xx sid] by (simp add: dense_invD(6))
  then show "pr_predict (dense_ops xx pick srt) sid k (pr_reset (dense_ops xx pick srt) sid p) = Some []"
    by (simp add: dense_ops_def dense_predict_def dense_reset_def dense_history_def history_del Let_def)
next
  fix p and sid' sid :: string and k :: int
  assume p: "dense_inv p" and "sid' \<noteq> sid"
  let ?q = "dense_reset xx sid p"
  have "session_shard xx sid < length (dn_shards p)"
    using session_shard_less [of xx sid] p by (simp add: dense_invD(6))
  then have h: "dense_history xx sid' ?q = dense_history xx sid' p"
    using \<open>sid' \<noteq> sid\<close>
    by (cases "session_shard xx sid' = session_shard xx sid")
      (simp_all add: dense_history_def dense_reset_def history_del)
  have f: "dn_registry ?q = dn_registry p" "dn_maxRoutes ?q = dn_maxRoutes p" "dn_matrix ?q = dn_matrix p"
    "dn_totals ?q = dn_totals p" "dn_concrete ?q = dn_concrete p"
    by (simp_all add: dense_reset_def)
  have "dense_predict srt xx sid' k ?q = dense_predict srt xx sid' k p"
    unfolding dense_predict_def h hydrate_call_def f by (rule refl)
  then show "pr_predict (dense_ops xx pick srt) sid' k (pr_reset (dense_ops xx pick srt) sid p) =
      pr_predict (dense_ops xx pick srt) sid' k p"
    by (simp add: dense_ops_def)
qed

interpretation dense: dense_sort "stable_desc snd"
  by unfold_locales (rule sorts_desc_stable)

section \<open>Properties\<close>

datatype dense_call =
    DRecord string string string string
  | DReset string

fun dense_step_call ::
  "(string \<Rightarrow> 64 word) \<Rightarrow> (dense_step sessions \<Rightarrow> nat) \<Rightarrow> dense_call \<Rightarrow> dense option \<Rightarrow> dense option" where
  "dense_step_call xx pick c None = None"
| "dense_step_call xx pick (DRecord sid m path q) (Some p) = dense_record xx pick sid m path q p"
| "dense_step_call xx pick (DReset sid) (Some p) = Some (dense_reset xx sid p)"

definition dense_run ::
  "(string \<Rightarrow> 64 word) \<Rightarrow> (dense_step sessions \<Rightarrow> nat) \<Rightarrow> dense_config option \<Rightarrow> dense_call list \<Rightarrow> dense option" where
  "dense_run xx pick cfg cs = fold (dense_step_call xx pick) cs (Some (new_dense cfg))"

definition routes_ok :: "dense_config option \<Rightarrow> bool" where
  "routes_ok cfg = (case cfg of None \<Rightarrow> True
     | Some c \<Rightarrow> dc_max_routes c \<le> 65535 \<and> (case dc_registry c of None \<Rightarrow> True | Some r \<Rightarrow> reg_inv r))"

lemma dense_inv_fresh:
  assumes "reg_inv reg" "0 < R" "R \<le> 65535" "0 < h"
  shows "dense_inv \<lparr>dn_registry = reg, dn_maxRoutes = of_nat R, dn_matrix = replicate (unat (of_nat R * of_nat R :: 32 word)) 0,
    dn_totals = replicate (unat (of_nat R :: 32 word)) 0, dn_shards = replicate NumSessionShards [],
    dn_maxHistory = h, dn_concrete = []\<rparr>"
proof -
  have u: "unat (of_nat R :: 32 word) = R" using assms(3) by (simp add: unat_of_nat take_bit_nat_eq_self)
  have "unat (of_nat (R * R) :: 32 word) = R * R"
    using matrix_small [OF assms(3)] by (simp add: unat_of_nat take_bit_nat_eq_self del: of_nat_mult)
  then have uu: "unat (of_nat R * of_nat R :: 32 word) = R * R" by simp
  have "row_total R f (replicate (R * R) 0) = 0" if "f < R" for f
  proof -
    have "mrow R f (replicate (R * R) 0) = (replicate R 0 :: 32 word list)"
      using cell_bound [OF that] by (intro nth_equalityI) simp_all
    then show ?thesis by (simp add: row_total_def sum_list_replicate)
  qed
  with assms show ?thesis
    by (simp add: dense_inv_def Let_def u uu row_limit_def)
qed

lemma dense_inv_new:
  assumes "routes_ok cfg"
  shows "dense_inv (new_dense cfg)"
proof -
  define maxR where "maxR = (case cfg of Some c \<Rightarrow> if 0 < dc_max_routes c then dc_max_routes c
    else DefaultMaxDenseRoutes | None \<Rightarrow> DefaultMaxDenseRoutes)"
  define h where "h = (case cfg of Some c \<Rightarrow> if 0 < dc_max_history c then dc_max_history c else 10 | None \<Rightarrow> 10)"
  define reg where "reg = (case cfg of Some c \<Rightarrow> (case dc_registry c of Some r \<Rightarrow> r | None \<Rightarrow> new_registry)
    | None \<Rightarrow> new_registry)"
  have R: "0 < maxR" "maxR \<le> 65535"
    using assms by (auto simp: maxR_def routes_ok_def DefaultMaxDenseRoutes_def split: option.splits)
  have w: "(of_int maxR :: 32 word) = of_nat (nat maxR)" using R by simp
  have reg: "reg_inv reg" using assms reg_inv_new by (auto simp: reg_def routes_ok_def split: option.splits)
  have h: "0 < nat h" by (auto simp: h_def split: option.split)
  have "(case cfg of Some c \<Rightarrow> if 0 < dc_max_routes c then of_int (dc_max_routes c)
      else of_int DefaultMaxDenseRoutes | None \<Rightarrow> of_int DefaultMaxDenseRoutes) = (of_int maxR :: 32 word)"
    by (simp add: maxR_def split: option.split)
  then have "new_dense cfg = \<lparr>dn_registry = reg, dn_maxRoutes = of_int maxR,
      dn_matrix = replicate (unat (of_int maxR * of_int maxR :: 32 word)) 0,
      dn_totals = replicate (unat (of_int maxR :: 32 word)) 0, dn_shards = replicate NumSessionShards [],
      dn_maxHistory = nat h, dn_concrete = []\<rparr>"
    unfolding new_dense_def h_def [symmetric] reg_def [symmetric] Let_def by simp
  with dense_inv_fresh [OF reg _ _ h, of "nat maxR"] R show ?thesis
    unfolding w by simp
qed

lemma dense_inv_reset: "dense_inv p \<Longrightarrow> dense_inv (dense_reset xx sid p)"
  by (simp add: dense_reset_def dense_inv_shards shard_ok sessions_ok_del)

lemma dense_run_ok:
  assumes "routes_ok cfg"
  shows "\<exists>p. dense_run xx pick cfg cs = Some p \<and> dense_inv p"
proof -
  have "\<exists>q. fold (dense_step_call xx pick) cs (Some p) = Some q \<and> dense_inv q" if "dense_inv p" for p
    using that
  proof (induction cs arbitrary: p)
    case (Cons c cs)
    have "\<exists>q. dense_step_call xx pick c (Some p) = Some q \<and> dense_inv q"
      using Cons.prems dense_record_ok [OF Cons.prems] dense_inv_reset by (cases c) fastforce+
    with Cons.IH show ?case by auto
  qed simp
  with dense_inv_new [OF assms] show ?thesis by (simp add: dense_run_def)
qed

text \<open>
  C18: with at most 65535 routes the dense predictor never panics and never overflows, whatever is
  recorded or reset: after any calls the identifiers of the stored steps index the matrix, every row
  total is exactly the sum of the row's counters and stays below \<open>0x7FFFFFFF\<close>, and no shard holds more
  than 500 sessions.
\<close>

theorem dense_counters_consistent:
  assumes "routes_ok cfg"
  shows "\<exists>p. dense_run xx pick cfg cs = Some p \<and>
    (let R = unat (dn_maxRoutes p) in length (dn_matrix p) = R * R \<and>
      (\<forall>f < R. row_total R f (dn_matrix p) = unat (dn_totals p ! f) \<and> unat (dn_totals p ! f) < 0x7FFFFFFF) \<and>
      (\<forall>ss \<in> set (dn_shards p). length ss \<le> 500 \<and> (\<forall>h \<in> snd ` set ss. \<forall>st \<in> set h. unat (ds_id st) < R)))"
proof -
  obtain p where p: "dense_run xx pick cfg cs = Some p" "dense_inv p"
    using dense_run_ok [OF assms] by blast
  have "\<forall>st \<in> set h. unat (ds_id st) < unat (dn_maxRoutes p)"
    if "ss \<in> set (dn_shards p)" "h \<in> snd ` set ss" for ss h
  proof -
    note ok = dense_invD(8) [OF p(2) that(1)]
    from that(2) obtain k where "(k, h) \<in> set ss" by auto
    with ok have "mget ss k = Some h" by (simp add: sessions_ok_def)
    with ok show ?thesis by (simp add: sessions_ok_def list_all_iff)
  qed
  moreover have "length ss \<le> 500" if "ss \<in> set (dn_shards p)" for ss
    using dense_invD(8) [OF p(2) that] by (simp add: sessions_ok_def)
  ultimately show ?thesis
    using p dense_invD(4,9,10) [OF p(2)] by (auto simp: Let_def row_limit_def)
qed

theorem dense_counters_consistent_witness:
  "\<exists>p. dense_run (\<lambda>_. 0) (\<lambda>_. 0) None [DRecord ''s'' ''GET'' ''/a'' [], DRecord ''s'' ''GET'' ''/b'' []] = Some p"
  using dense_counters_consistent [of None "\<lambda>_. 0" "\<lambda>_. 0"
      "[DRecord ''s'' ''GET'' ''/a'' [], DRecord ''s'' ''GET'' ''/b'' []]"]
  by (auto simp: routes_ok_def)

text \<open>
  C20: for any calls and any order the sort gives to equal counts, \<open>Predict\<close> with a non-negative \<open>topK\<close>
  returns at most \<open>topK\<close> distinct patterns with positive probabilities in descending order that sum to
  at most 1, so at most \<open>1 / \<tau>\<close> of them reach a threshold \<open>\<tau>\<close>; and a session that was reset has none.
\<close>

theorem dense_predictions_ok:
  assumes "sorts_desc snd srt" "routes_ok cfg" "dense_run xx pick cfg cs = Some p" "0 \<le> topK" "0 < \<tau>"
  shows "\<exists>ps. dense_predict srt xx sid topK p = Some ps \<and> predictions_ok ps \<and> int (length ps) \<le> topK \<and>
    of_nat (length (filter (\<lambda>r. \<tau> \<le> pd_prob r) ps)) * \<tau> \<le> 1 \<and>
    dense_predict srt xx sid topK (dense_reset xx sid p) = Some []"
proof -
  have inv: "dense_inv p" using dense_run_ok [OF assms(2), of xx pick cs] assms(3) by auto
  obtain ps where "dense_predict srt xx sid topK p = Some ps" "predictions_ok ps"
    "int (length ps) \<le> topK"
    using dense_predict_ok [OF assms(1) inv assms(4)] by blast
  moreover have "dense_predict srt xx sid topK (dense_reset xx sid p) = Some []"
    using session_shard_less [of xx sid] dense_invD(6) [OF inv]
    by (simp add: dense_predict_def dense_reset_def dense_history_def history_del)
  ultimately show ?thesis using above_threshold_bound [OF _ assms(5)] by blast
qed

theorem dense_predictions_ok_witness:
  "\<exists>p ps. dense_run (\<lambda>_. 0) (\<lambda>_. 0) None [DRecord ''s'' ''GET'' ''/a'' [], DRecord ''s'' ''GET'' ''/b'' []] = Some p \<and>
    dense_predict (stable_desc snd) (\<lambda>_. 0) ''s'' 3 p = Some ps \<and> predictions_ok ps \<and> length ps \<le> 3"
proof -
  let ?cs = "[DRecord ''s'' ''GET'' ''/a'' [], DRecord ''s'' ''GET'' ''/b'' []]"
  have ok: "routes_ok None" by (simp add: routes_ok_def)
  obtain p where run: "dense_run (\<lambda>_. 0) (\<lambda>_. 0) None ?cs = Some p"
    using dense_run_ok [OF ok, of "\<lambda>_. 0" "\<lambda>_. 0" ?cs] by blast
  from dense_predictions_ok [OF sorts_desc_stable ok run, of 3 1 "''s''"] run show ?thesis by auto
qed

text \<open>
  C32: the rescaling of a saturated row halves each of its counters, makes the row total the sum of the
  halves, at most half of the old one, and leaves all other rows and totals as they were.
\<close>

theorem dense_rescale_halves:
  assumes "dense_inv p" "unat f < unat (dn_maxRoutes p)"
  shows "\<exists>p'. rescale_row f p = Some p' \<and> dense_inv p' \<and>
    mrow (unat (dn_maxRoutes p)) (unat f) (dn_matrix p') =
      map (\<lambda>c. c div 2) (mrow (unat (dn_maxRoutes p)) (unat f) (dn_matrix p)) \<and>
    2 * unat (dn_totals p' ! unat f) \<le> unat (dn_totals p ! unat f) \<and>
    (\<forall>g < unat (dn_maxRoutes p). g \<noteq> unat f \<longrightarrow> dn_totals p' ! g = dn_totals p ! g \<and>
      mrow (unat (dn_maxRoutes p)) g (dn_matrix p') = mrow (unat (dn_maxRoutes p)) g (dn_matrix p))"
proof -
  define R where "R = unat (dn_maxRoutes p)"
  note inv = dense_invD [OF assms(1), folded R_def]
  have f: "unat f < R" using assms(2) by (simp add: R_def)
  let ?row = "mrow R (unat f) (dn_matrix p)"
  let ?m = "take (unat f * R) (dn_matrix p) @ map (\<lambda>c. c div 2) ?row @ drop (unat f * R + R) (dn_matrix p)"
  let ?t = "(dn_totals p)[unat f := sum_list (map (\<lambda>c. c div 2) ?row)]"
  have eq: "rescale_row f p = Some (p\<lparr>dn_matrix := ?m, dn_totals := ?t\<rparr>)"
    using rescale_row_eq [of p f] inv(3-5) f by (simp add: R_def)
  have rows: "mrow R g ?m = (if g = unat f then map (\<lambda>c. c div 2) ?row else mrow R g (dn_matrix p))"
    if "g < R" for g
    by (rule mrow_replace [OF f that inv(4)])
  have "rows_ok R (unat f) (dn_matrix p) (dn_totals p)" "row_total R (unat f) (dn_matrix p) \<le> row_limit"
    using inv(4,5,9,10) f by (auto simp: rows_ok_def less_imp_le)
  from rescale_rows_ok [of p f] this inv(3) f obtain m t where mt:
    "rescale_row f p = Some (p\<lparr>dn_matrix := m, dn_totals := t\<rparr>)" "rows_ok R (unat f) m t"
    "row_total R (unat f) m = unat (t ! unat f)" "unat (t ! unat f) < row_limit"
    "2 * unat (t ! unat f) \<le> row_total R (unat f) (dn_matrix p)"
    unfolding R_def by blast
  have inv': "dense_inv (p\<lparr>dn_matrix := m, dn_totals := t\<rparr>)"
    using dense_inv_rows [OF assms(1), of "unat f" m t] mt by (simp add: R_def)
  have same: "p\<lparr>dn_matrix := m, dn_totals := t\<rparr> = p\<lparr>dn_matrix := ?m, dn_totals := ?t\<rparr>"
    using eq mt(1) by simp
  have "m = ?m" "t = ?t"
    using arg_cong [OF same, of dn_matrix] arg_cong [OF same, of dn_totals] by simp_all
  then have "mrow R g m = (if g = unat f then map (\<lambda>c. c div 2) ?row else mrow R g (dn_matrix p))"
    "g \<noteq> unat f \<Longrightarrow> t ! g = dn_totals p ! g" if "g < R" for g
    using rows [OF that] by simp_all
  with mt(1,5) f inv' inv(9) [OF f] show ?thesis
    unfolding R_def [symmetric] by (intro exI [of _ "p\<lparr>dn_matrix := m, dn_totals := t\<rparr>"]) simp
qed

theorem dense_rescale_halves_witness:
  "\<exists>p'. rescale_row 3 (new_dense None) = Some p' \<and> dense_inv p'"
  using dense_rescale_halves [OF dense_inv_new [of None], of 3]
  by (auto simp: routes_ok_def new_dense_def Let_def DefaultMaxDenseRoutes_def)

text \<open>
  C31: identifiers do not leak between sessions through a route with placeholders: the call predicted
  for such a route is computed from the route and the session's own last call alone, so it is the same
  in every predictor, whatever other sessions recorded; and recording a call of such a route leaves the
  shared table of concrete calls as it is.
\<close>

theorem dense_no_id_leak:
  assumes "\<not> static_pattern pattern"
  shows "hydrate_call i pattern lst p = hydrate_call j pattern lst p' \<and>
    (normalize_route (to_upper method) path = pattern \<longrightarrow>
      dense_record xx pick sid method path rawQuery p = Some p1 \<longrightarrow> dn_concrete p1 = dn_concrete p)"
proof (intro conjI impI)
  show "hydrate_call i pattern lst p = hydrate_call j pattern lst p'"
    unfolding hydrate_call_def if_not_P [OF assms] by (rule refl)
  assume pat: "normalize_route (to_upper method) path = pattern"
    and rec: "dense_record xx pick sid method path rawQuery p = Some p1"
  have bump: "dn_concrete q' = dn_concrete q" if "bump f t q = Some q'" for f t q q'
    using that by (auto simp: bump_def rescale_row_def Let_def split: option.splits if_splits prod.splits)
  show "dn_concrete p1 = dn_concrete p"
    using rec assms unfolding dense_record_def Let_def pat
    by (auto split: prod.splits if_splits dest: bump)
qed

theorem dense_no_id_leak_witness:
  "hydrate_call 0 ''GET /u/:id'' \<lparr>ds_id = 0, ds_concrete = [], ds_pattern = [], ds_path = ''/a/7'', ds_query = []\<rparr>
     (new_dense None) = ''GET /u/7''"
proof -
  have s: "\<not> static_pattern ''GET /u/:id''" by code_simp
  let ?l = "\<lparr>ds_id = 0, ds_concrete = [], ds_pattern = [], ds_path = ''/a/7'', ds_query = []\<rparr>"
  let ?small = "\<lparr>dn_registry = new_registry, dn_maxRoutes = 0, dn_matrix = [], dn_totals = [],
     dn_shards = [], dn_maxHistory = 1, dn_concrete = []\<rparr>"
  have "hydrate_call 0 ''GET /u/:id'' ?l ?small = ''GET /u/7''" by code_simp
  with dense_no_id_leak [OF s, of 0 ?l "new_dense None" 0 ?small] show ?thesis by simp
qed

text \<open>
  a query string does leak between sessions through a route without placeholders: after session
  \<open>u\<close> called \<open>/search?q=secret\<close>, session \<open>s\<close>, which only ever called \<open>/search\<close> with no query, is
  predicted the call with the other session's query string.
\<close>

theorem dense_query_leaks_across_sessions:
  "Option.bind (dense_run (\<lambda>_. 0) (\<lambda>_. 0)
      (Some \<lparr>dc_max_routes = 4, dc_max_history = 0, dc_registry = None\<rparr>)
      [DRecord ''s'' ''GET'' ''/home'' [], DRecord ''s'' ''GET'' ''/search'' [],
       DRecord ''u'' ''GET'' ''/search'' ''q=secret'', DRecord ''s'' ''GET'' ''/home'' []])
    (\<lambda>p. map_option (map pd_call) (dense_predict (stable_desc snd) (\<lambda>_. 0) ''s'' 3 p)) =
   Some [''GET /search?q=secret'']"
  by code_simp

text \<open>
  the limit on routes is needed: with \<open>MaxRoutes\<close> 65536 the size of the matrix wraps to zero, so the
  second call of a session makes \<open>Record\<close> panic with an index out of range; and a negative \<open>topK\<close> makes
  \<open>Predict\<close> panic as soon as there is a candidate.
\<close>

theorem dense_panics:
  "dn_matrix (new_dense (Some \<lparr>dc_max_routes = 65536, dc_max_history = 0, dc_registry = None\<rparr>)) = [] \<and>
   Option.bind (dense_run (\<lambda>_. 0) (\<lambda>_. 0)
      (Some \<lparr>dc_max_routes = 4, dc_max_history = 0, dc_registry = None\<rparr>)
      [DRecord ''s'' ''GET'' ''/a'' [], DRecord ''s'' ''GET'' ''/a'' []])
     (\<lambda>p. dense_predict (stable_desc snd) (\<lambda>_. 0) ''s'' (- 1) p) = None \<and>
   (let p = new_dense (Some \<lparr>dc_max_routes = 65536, dc_max_history = 0, dc_registry = None\<rparr>) in
     bump 0 0 p = None)"
proof -
  have "Option.bind (dense_run (\<lambda>_. 0) (\<lambda>_. 0)
      (Some \<lparr>dc_max_routes = 4, dc_max_history = 0, dc_registry = None\<rparr>)
      [DRecord ''s'' ''GET'' ''/a'' [], DRecord ''s'' ''GET'' ''/a'' []])
     (\<lambda>p. dense_predict (stable_desc snd) (\<lambda>_. 0) ''s'' (- 1) p) = None" by code_simp
  moreover have m: "dn_matrix (new_dense (Some \<lparr>dc_max_routes = 65536, dc_max_history = 0, dc_registry = None\<rparr>)) = []"
    by (simp add: new_dense_def Let_def)
  ultimately show ?thesis by (simp add: bump_def at_index_def Let_def)
qed

text \<open>
  \<open>Record\<close> adds to the counter and to the row total in two atomic steps; a \<open>Predict\<close> between them sees
  the first without the second, and can report a probability above 1: here the second transition from
  \<open>/a\<close> to \<open>/b\<close> is counted and not yet in the total.
\<close>

theorem dense_torn_predict:
  "Option.bind (dense_run (\<lambda>_. 0) (\<lambda>_. 0)
      (Some \<lparr>dc_max_routes = 4, dc_max_history = 0, dc_registry = None\<rparr>)
      [DRecord ''s'' ''GET'' ''/a'' [], DRecord ''s'' ''GET'' ''/b'' [], DRecord ''t'' ''GET'' ''/a'' []])
    (\<lambda>p. let i = unat (cell_idx 0 1 p); q = p\<lparr>dn_matrix := (dn_matrix p)[i := dn_matrix p ! i + 1]\<rparr>
     in map_option (map pd_prob) (dense_predict (stable_desc snd) (\<lambda>_. 0) ''t'' 3 q)) = Some [2]"
  by code_simp

end
