(* ===== verification/Markov.thy ===== *)
theory Markov
  imports Predictor
begin

text \<open>
  \<open>predictor.go\<close>: the map-based Markov chain. Counts are Go \<open>int\<close>s, which do not overflow for
  counters that grow by one per request. \<open>pick\<close> is the session the run time visits first when one has
  to be evicted, \<open>srt\<close> the result of \<open>sort.Slice\<close>.
\<close>

record history_step =
  hs_concrete :: string
  hs_pattern :: string
  hs_path :: string
  hs_query :: string

record markov =
  mk_maxHistory :: nat
  mk_maxSessions :: nat
  mk_sessions :: "history_step sessions"
  mk_transitions :: "(string, (string, int) gomap) gomap"
  mk_totals :: "(string, int) gomap"

definition new_markov :: markov where
  "new_markov = \<lparr>mk_maxHistory = 10, mk_maxSessions = 5000, mk_sessions = [], mk_transitions = [],
     mk_totals = []\<rparr>"

text \<open>\<open>m[k] += d\<close> and the lookup of a missing row.\<close>

definition map_plus :: "'k \<Rightarrow> int \<Rightarrow> ('k, int) gomap \<Rightarrow> ('k, int) gomap" where
  "map_plus k d m = mput k ((case mget m k of None \<Rightarrow> 0 | Some v \<Rightarrow> v) + d) m"

definition row_of :: "string \<Rightarrow> markov \<Rightarrow> (string, int) gomap" where
  "row_of f p = (case mget (mk_transitions p) f of None \<Rightarrow> [] | Some row \<Rightarrow> row)"

definition seed_transition :: "string \<Rightarrow> string \<Rightarrow> int \<Rightarrow> markov \<Rightarrow> markov" where
  "seed_transition f t weight p = p\<lparr>
     mk_transitions := mput f (map_plus t weight (row_of f p)) (mk_transitions p),
     mk_totals := map_plus f weight (mk_totals p)\<rparr>"

definition markov_step :: "string \<Rightarrow> string \<Rightarrow> string \<Rightarrow> history_step" where
  "markov_step method path rawQuery = (let m = to_upper method in
     \<lparr>hs_concrete = concrete_call m path rawQuery, hs_pattern = normalize_route m path,
      hs_path = path, hs_query = rawQuery\<rparr>)"

definition markov_record ::
  "(history_step sessions \<Rightarrow> nat) \<Rightarrow> string \<Rightarrow> string \<Rightarrow> string \<Rightarrow> string \<Rightarrow> markov \<Rightarrow> markov" where
  "markov_record pick sid method path rawQuery p = (let
     step = markov_step method path rawQuery;
     hist = session_history sid (mk_sessions p);
     p1 = (if hist \<noteq> [] then seed_transition (hs_pattern (last hist)) (hs_pattern step) 1 p else p)
   in p1\<lparr>mk_sessions := record_session pick (mk_maxSessions p1) (mk_maxHistory p1) sid step (mk_sessions p1)\<rparr>)"

text \<open>The loop over the segments of the last path, from the right.\<close>

fun fill_segments :: "string list \<Rightarrow> string \<Rightarrow> string" where
  "fill_segments [] target = target"
| "fill_segments (seg # segs) target =
     (if seg = [] then fill_segments segs target
      else if isNumeric seg \<and> contains target '':id'' then replace1 target '':id'' seg
      else if isUUID seg \<and> contains target '':uuid'' then replace1 target '':uuid'' seg
      else if isHexID seg \<and> contains target '':hex'' then replace1 target '':hex'' seg
      else fill_segments segs target)"

definition reconstruct_call :: "string \<Rightarrow> history_step \<Rightarrow> string" where
  "reconstruct_call targetPattern lst = (case split_n2 (CHR '' '') targetPattern of
     [method, path] \<Rightarrow>
       (let targetPath = fill_segments (rev (split (CHR ''/'') (hs_path lst))) path;
            call = method @ '' '' @ targetPath
        in if hs_query lst \<noteq> [] \<and> contains targetPath (hs_path lst) then call @ ''?'' @ hs_query lst
           else call)
   | _ \<Rightarrow> targetPattern)"

definition markov_predict ::
  "(prediction list \<Rightarrow> prediction list) \<Rightarrow> string \<Rightarrow> int \<Rightarrow> markov \<Rightarrow> prediction list" where
  "markov_predict srt sid topK p = (let hist = session_history sid (mk_sessions p) in
     if hist = [] then []
     else (let lastStep = last hist; fromState = hs_pattern lastStep in
       case mget (mk_transitions p) fromState of
         None \<Rightarrow> []
       | Some nextCounts \<Rightarrow>
          (if nextCounts = [] then []
           else (let total = (case mget (mk_totals p) fromState of None \<Rightarrow> 0 | Some v \<Rightarrow> v) in
             if total \<le> 0 then []
             else (let preds = srt (map (\<lambda>(nextPattern, cnt).
                      \<lparr>pd_call = reconstruct_call nextPattern lastStep, pd_pattern = nextPattern,
                       pd_prob = of_int cnt / of_int total\<rparr>) nextCounts)
               in if 0 < topK \<and> topK < int (length preds) then take (nat topK) preds else preds)))))"

definition markov_reset :: "string \<Rightarrow> markov \<Rightarrow> markov" where
  "markov_reset sid p = p\<lparr>mk_sessions := mdel sid (mk_sessions p)\<rparr>"

definition markov_ops ::
  "(history_step sessions \<Rightarrow> nat) \<Rightarrow> (prediction list \<Rightarrow> prediction list) \<Rightarrow> markov predictor_ops" where
  "markov_ops pick srt = \<lparr>pr_record = (\<lambda>sid m p q s. Some (markov_record pick sid m p q s)),
     pr_predict = (\<lambda>sid k s. Some (markov_predict srt sid k s)), pr_reset = markov_reset\<rparr>"

section \<open>The invariant\<close>

definition row_sum :: "('k, int) gomap \<Rightarrow> int" where
  "row_sum row = sum_list (map snd row)"

definition markov_inv :: "markov \<Rightarrow> bool" where
  "markov_inv p = (0 < mk_maxHistory p \<and> 0 < mk_maxSessions p \<and>
     sessions_ok (mk_maxSessions p) (mk_maxHistory p) (\<lambda>_. True) (mk_sessions p) \<and>
     (\<forall>f row. mget (mk_transitions p) f = Some row \<longrightarrow>
        mwf row \<and> row \<noteq> [] \<and> (\<forall>c \<in> snd ` set row. 0 < c) \<and> mget (mk_totals p) f = Some (row_sum row)) \<and>
     (\<forall>f. mget (mk_transitions p) f = None \<longrightarrow> mget (mk_totals p) f = None))"

lemma row_sum_plus: "mwf row \<Longrightarrow> row_sum (map_plus k d row) = row_sum row + d"
proof (induction row)
  case (Cons x row)
  show ?case
  proof (cases "fst x = k")
    case True
    then show ?thesis by (cases x) (simp add: map_plus_def row_sum_def)
  next
    case False
    with Cons show ?thesis by (cases x) (simp add: map_plus_def row_sum_def)
  qed
qed (simp add: map_plus_def row_sum_def)

lemma map_plus_positive:
  assumes "mwf row" "\<forall>c \<in> snd ` set row. 0 < c" "0 < d"
  shows "\<forall>c \<in> snd ` set (map_plus k d row). 0 < c"
proof -
  have "0 < (case mget row k of None \<Rightarrow> 0 | Some v \<Rightarrow> v) + d"
    using assms(2,3) by (force split: option.split dest: map_of_SomeD)
  with assms(2) set_mput_subset [of k "(case mget row k of None \<Rightarrow> 0 | Some v \<Rightarrow> v) + d" row]
  show ?thesis unfolding map_plus_def by fastforce
qed

lemma map_plus_simps [simp]:
  "mwf row \<Longrightarrow> mwf (map_plus k d row)" "map_plus k d row \<noteq> []"
  "mget (map_plus k d row) k' = (if k' = k then Some ((case mget row k of None \<Rightarrow> 0 | Some v \<Rightarrow> v) + d)
     else mget row k')"
  by (simp_all add: map_plus_def wf_intros map_simps)

lemma markov_inv_new: "markov_inv new_markov"
  by (simp add: markov_inv_def new_markov_def)

lemma markov_inv_seed:
  assumes "markov_inv p" "0 < weight"
  shows "markov_inv (seed_transition f t weight p)"
proof -
  let ?row = "row_of f p" and ?p = "seed_transition f t weight p"
  have row: "mwf ?row" "\<forall>c \<in> snd ` set ?row. 0 < c"
    "(case mget (mk_totals p) f of None \<Rightarrow> 0 | Some v \<Rightarrow> v) = row_sum ?row"
  proof -
    consider "mget (mk_transitions p) f = None" | r where "mget (mk_transitions p) f = Some r" by fastforce
    then have "mwf ?row \<and> (\<forall>c \<in> snd ` set ?row. 0 < c) \<and>
        (case mget (mk_totals p) f of None \<Rightarrow> 0 | Some v \<Rightarrow> v) = row_sum ?row"
    proof cases
      case 1
      with assms(1) show ?thesis by (simp add: markov_inv_def row_of_def row_sum_def)
    next
      case 2
      with assms(1) have "mwf r" "\<forall>c \<in> snd ` set r. 0 < c" "mget (mk_totals p) f = Some (row_sum r)"
        unfolding markov_inv_def by blast+
      with 2 show ?thesis by (simp add: row_of_def)
    qed
    then show "mwf ?row" "\<forall>c \<in> snd ` set ?row. 0 < c"
      "(case mget (mk_totals p) f of None \<Rightarrow> 0 | Some v \<Rightarrow> v) = row_sum ?row" by blast+
  qed
  have "mwf r \<and> r \<noteq> [] \<and> (\<forall>c \<in> snd ` set r. 0 < c) \<and> mget (mk_totals ?p) g = Some (row_sum r)"
    if "mget (mk_transitions ?p) g = Some r" for g r
  proof (cases "g = f")
    case True
    with that have "r = map_plus t weight ?row" by (simp add: seed_transition_def map_simps)
    with True row map_plus_positive [OF row(1,2) assms(2)] show ?thesis
      by (simp add: seed_transition_def row_sum_plus)
  next
    case False
    with that assms(1) show ?thesis by (simp add: seed_transition_def map_simps markov_inv_def)
  qed
  with assms(1) show ?thesis
    by (auto simp: markov_inv_def seed_transition_def map_simps)
qed

lemma markov_inv_record:
  assumes "markov_inv p"
  shows "markov_inv (markov_record pick sid method path rawQuery p)"
proof -
  define p1 where "p1 = (if session_history sid (mk_sessions p) \<noteq> []
    then seed_transition (hs_pattern (last (session_history sid (mk_sessions p))))
      (hs_pattern (markov_step method path rawQuery)) 1 p else p)"
  have "markov_inv p1" using assms by (simp add: p1_def markov_inv_seed)
  then show ?thesis
    by (simp add: markov_record_def p1_def [symmetric] Let_def markov_inv_def sessions_ok_record)
qed

lemma markov_inv_reset: "markov_inv p \<Longrightarrow> markov_inv (markov_reset sid p)"
  by (simp add: markov_inv_def markov_reset_def sessions_ok_del)

lemma sum_probs:
  "sum_list (map (\<lambda>(k, c). of_int c / (of_int t :: rat)) row) = of_int (row_sum row) / of_int t"
  by (induction row) (auto simp: row_sum_def add_divide_distrib)

lemma markov_predict_ok:
  assumes "sorts_desc pd_prob srt" "markov_inv p"
  shows "predictions_ok (markov_predict srt sid k p)"
    and "0 < k \<Longrightarrow> int (length (markov_predict srt sid k p)) \<le> k"
proof -
  have "predictions_ok (markov_predict srt sid k p) \<and>
      (0 < k \<longrightarrow> int (length (markov_predict srt sid k p)) \<le> k)"
  proof (cases "session_history sid (mk_sessions p) = [] \<or>
      mget (mk_transitions p) (hs_pattern (last (session_history sid (mk_sessions p)))) = None")
    case True
    then show ?thesis by (auto simp: markov_predict_def Let_def)
  next
    case False
    let ?last = "last (session_history sid (mk_sessions p))"
    from False obtain row where row: "mget (mk_transitions p) (hs_pattern ?last) = Some row" by auto
    with assms(2) have r: "mwf row" "row \<noteq> []" "\<forall>c \<in> snd ` set row. 0 < c"
      "mget (mk_totals p) (hs_pattern ?last) = Some (row_sum row)"
      unfolding markov_inv_def by blast+
    have pos: "0 < row_sum row"
    proof (cases row)
      case (Cons x xs)
      have "0 \<le> sum_list (map snd xs)"
        using r(3) Cons by (intro sum_list_nonneg) force
      with r(3) Cons show ?thesis by (cases x) (auto simp: row_sum_def)
    qed (use r(2) in simp)
    define preds where "preds = map (\<lambda>(np, c). \<lparr>pd_call = reconstruct_call np ?last, pd_pattern = np,
      pd_prob = of_int c / of_int (row_sum row)\<rparr>) row"
    have maps: "map pd_prob preds = map (\<lambda>(k, c). of_int c / of_int (row_sum row)) row"
      "map pd_pattern preds = map fst row"
      by (auto simp: preds_def)
    have "sum_list (map pd_prob preds) \<le> 1" "distinct (map pd_pattern preds)"
      using pos r(1) unfolding maps sum_probs by simp_all
    moreover have "\<forall>q \<in> set preds. 0 < pd_prob q"
      using pos r(3) by (auto simp: preds_def)
    ultimately have "predictions_ok (srt preds)"
      using predictions_ok_ranked [OF assms(1), of preds "\<lambda>q. q"] by (simp add: comp_def)
    moreover have "markov_predict srt sid k p =
        (if 0 < k \<and> k < int (length (srt preds)) then take (nat k) (srt preds) else srt preds)"
      using False row r pos by (simp add: markov_predict_def Let_def preds_def)
    ultimately show ?thesis by (auto simp: predictions_ok_take)
  qed
  then show "predictions_ok (markov_predict srt sid k p)"
    "0 < k \<Longrightarrow> int (length (markov_predict srt sid k p)) \<le> k" by blast+
qed

text \<open>Whatever permutation the sort returns, the predictor meets the contract.\<close>

locale markov_sort =
  fixes srt :: "prediction list \<Rightarrow> prediction list"
  assumes sorts: "sorts_desc pd_prob srt"

sublocale markov_sort \<subseteq> contract: predictor_contract "markov_ops pick srt" markov_inv for pick
proof
  fix p sid m path q
  assume "markov_inv p"
  then show "\<exists>p'. pr_record (markov_ops pick srt) sid m path q p = Some p' \<and> markov_inv p'"
    by (simp add: markov_ops_def markov_inv_record)
next
  fix p sid and k :: int
  assume "markov_inv p"
  then show "\<exists>ps. pr_predict (markov_ops pick srt) sid k p = Some ps \<and> predictions_ok ps \<and>
      (0 < k \<longrightarrow> int (length ps) \<le> k)"
    using markov_predict_ok [OF sorts] by (simp add: markov_ops_def)
next
  fix p sid and k :: int
  show "pr_predict (markov_ops pick srt) sid k (pr_reset (markov_ops pick srt) sid p) = Some []"
    by (simp add: markov_ops_def markov_predict_def markov_reset_def history_del Let_def)
next
  fix p and sid' sid :: string and k :: int
  assume "sid' \<noteq> sid"
  then show "pr_predict (markov_ops pick srt) sid' k (pr_reset (markov_ops pick srt) sid p) =
      pr_predict (markov_ops pick srt) sid' k p"
    by (auto simp: markov_ops_def markov_predict_def markov_reset_def history_del Let_def
        split: option.split)
qed (simp add: markov_ops_def markov_inv_reset)

interpretation markov: markov_sort "stable_desc pd_prob"
  by unfold_locales (rule sorts_desc_stable)

section \<open>What the chain learns\<close>

text \<open>
  The specification counts, in the sequence of recorded calls (session, method, path, query), how
  often a session whose previous call had pattern \<open>f\<close> made a call with pattern \<open>t\<close>.
\<close>

type_synonym call = "string \<times> string \<times> string \<times> string"

definition call_pattern :: "call \<Rightarrow> string" where
  "call_pattern c = (case c of (sid, m, path, q) \<Rightarrow> normalize_route (to_upper m) path)"

definition last_pattern :: "string \<Rightarrow> call list \<Rightarrow> string option" where
  "last_pattern sid cs = (let xs = filter (\<lambda>c. fst c = sid) cs in
     if xs = [] then None else Some (call_pattern (last xs)))"

definition transition_count :: "call list \<Rightarrow> string \<Rightarrow> string \<Rightarrow> nat" where
  "transition_count cs f t = length (filter (\<lambda>i. last_pattern (fst (cs ! i)) (take i cs) = Some f \<and>
     call_pattern (cs ! i) = t) [0..<length cs])"

definition departures :: "call list \<Rightarrow> string \<Rightarrow> nat" where
  "departures cs f = length (filter (\<lambda>i. last_pattern (fst (cs ! i)) (take i cs) = Some f)
     [0..<length cs])"

definition markov_run :: "(history_step sessions \<Rightarrow> nat) \<Rightarrow> call list \<Rightarrow> markov" where
  "markov_run pick cs = fold (\<lambda>(sid, m, path, q). markov_record pick sid m path q) cs new_markov"

lemma last_pattern_snoc:
  "last_pattern sid (cs @ [c]) = (if fst c = sid then Some (call_pattern c) else last_pattern sid cs)"
  by (simp add: last_pattern_def Let_def)

lemma transition_count_snoc:
  "transition_count (cs @ [c]) f t = transition_count cs f t +
    (if last_pattern (fst c) cs = Some f \<and> call_pattern c = t then 1 else 0)"
proof -
  have "filter (\<lambda>i. last_pattern (fst ((cs @ [c]) ! i)) (take i (cs @ [c])) = Some f \<and>
      call_pattern ((cs @ [c]) ! i) = t) [0..<length cs] =
    filter (\<lambda>i. last_pattern (fst (cs ! i)) (take i cs) = Some f \<and> call_pattern (cs ! i) = t)
      [0..<length cs]"
    by (rule filter_cong) (auto simp: nth_append)
  then show ?thesis by (simp add: transition_count_def)
qed

lemma departures_snoc:
  "departures (cs @ [c]) f = departures cs f + (if last_pattern (fst c) cs = Some f then 1 else 0)"
proof -
  have "filter (\<lambda>i. last_pattern (fst ((cs @ [c]) ! i)) (take i (cs @ [c])) = Some f) [0..<length cs] =
    filter (\<lambda>i. last_pattern (fst (cs ! i)) (take i cs) = Some f) [0..<length cs]"
    by (rule filter_cong) (auto simp: nth_append)
  then show ?thesis by (simp add: departures_def)
qed

abbreviation get0 :: "('k, int) gomap \<Rightarrow> 'k \<Rightarrow> int" where
  "get0 m k \<equiv> (case mget m k of None \<Rightarrow> 0 | Some v \<Rightarrow> v)"

text \<open>While no session is evicted, the state is the specification.\<close>

definition learned :: "call list \<Rightarrow> markov \<Rightarrow> bool" where
  "learned cs p = (mk_maxSessions p = 5000 \<and> fst ` set (mk_sessions p) = fst ` set cs \<and>
     (\<forall>sid. last_pattern sid cs = (let h = session_history sid (mk_sessions p) in
        if h = [] then None else Some (hs_pattern (last h)))) \<and>
     (\<forall>f t. get0 (row_of f p) t = int (transition_count cs f t)) \<and>
     (\<forall>f. get0 (mk_totals p) f = int (departures cs f)))"

lemma seed_counts:
  "get0 (row_of g (seed_transition f t w p)) u = get0 (row_of g p) u + (if g = f \<and> u = t then w else 0)"
  "get0 (mk_totals (seed_transition f t w p)) g = get0 (mk_totals p) g + (if g = f then w else 0)"
  by (simp_all add: seed_transition_def row_of_def map_plus_def map_simps)

lemma row_of_sessions [simp]: "row_of f (p\<lparr>mk_sessions := x\<rparr>) = row_of f p"
  by (simp add: row_of_def)

lemma seed_fields [simp]:
  "mk_sessions (seed_transition f t w p) = mk_sessions p"
  "mk_maxSessions (seed_transition f t w p) = mk_maxSessions p"
  "mk_maxHistory (seed_transition f t w p) = mk_maxHistory p"
  by (simp_all add: seed_transition_def)

lemma learned_record:
  assumes "learned cs p" "markov_inv p" "card (fst ` set (cs @ [c])) \<le> 5000"
    and "c = (sid, m, path, q)"
  shows "learned (cs @ [c]) (markov_record pick sid m path q p)"
proof -
  let ?ss = "mk_sessions p" and ?step = "markov_step m path q"
  let ?hist = "session_history sid ?ss"
  let ?p1 = "if ?hist \<noteq> [] then seed_transition (hs_pattern (last ?hist)) (hs_pattern ?step) 1 p else p"
  let ?p' = "markov_record pick sid m path q p"
  have inv: "mwf ?ss" "0 < mk_maxHistory p"
    using assms(2) by (simp_all add: markov_inv_def sessions_ok_def)
  have keys: "fst ` set ?ss = fst ` set cs" and max: "mk_maxSessions p = 5000"
    using assms(1) by (simp_all add: learned_def)
  have last: "last_pattern sid cs = (if ?hist = [] then None else Some (hs_pattern (last ?hist)))"
    using assms(1) by (simp add: learned_def Let_def)
  have pat: "call_pattern c = hs_pattern ?step"
    by (simp add: assms(4) call_pattern_def markov_step_def Let_def)
  have room: "length ?ss < 5000" if "?hist = []"
  proof -
    have "mget ?ss sid = None"
      using that assms(2) session_history_None [of 5000 "mk_maxHistory p" "\<lambda>_. True" ?ss sid]
      by (simp add: markov_inv_def max)
    then have "sid \<notin> fst ` set cs" unfolding keys [symmetric] by (simp add: map_of_eq_None_iff)
    then have "Suc (card (fst ` set cs)) \<le> 5000"
      using assms(3,4) by simp
    moreover have "card (fst ` set ?ss) = length ?ss"
      using inv(1) distinct_card [of "map fst ?ss"] by simp
    ultimately show ?thesis by (simp add: keys)
  qed
  then have ss: "mk_sessions ?p' = mput sid (append_history (mk_maxHistory p) ?step ?hist) ?ss"
    by (auto simp: markov_record_def Let_def record_session_def max)
  have "fst ` set (mk_sessions ?p') = fst ` set (cs @ [c])"
    using keys_mput [of sid _ ?ss] by (simp add: ss keys assms(4))
  moreover have "last_pattern sid' (cs @ [c]) = (let h = session_history sid' (mk_sessions ?p') in
        if h = [] then None else Some (hs_pattern (last h)))" for sid'
  proof (cases "sid' = sid")
    case True
    then show ?thesis
      by (simp add: last_pattern_snoc ss session_history_def map_simps pat [unfolded assms(4)]
          assms(4) Let_def append_history_facts(1,2) [OF inv(2)])
  next
    case False
    with assms(1) show ?thesis
      by (simp add: last_pattern_snoc ss session_history_def map_simps assms(4) learned_def Let_def)
  qed
  moreover have "get0 (row_of f ?p') t = int (transition_count (cs @ [c]) f t) \<and>
      get0 (mk_totals ?p') f = int (departures (cs @ [c]) f)" for f t
  proof -
    have old: "get0 (row_of f p) t = int (transition_count cs f t)"
      "get0 (mk_totals p) f = int (departures cs f)"
      using assms(1) by (simp_all add: learned_def)
    have "row_of f ?p' = row_of f ?p1" "mk_totals ?p' = mk_totals ?p1"
      by (simp_all add: markov_record_def Let_def)
    then show ?thesis
      using old last pat by (auto simp: transition_count_snoc departures_snoc assms(4) seed_counts)
  qed
  moreover have "mk_maxSessions ?p' = 5000" by (simp add: markov_record_def Let_def max)
  ultimately show ?thesis by (simp add: learned_def)
qed

lemma markov_inv_run: "markov_inv (markov_run pick cs)"
proof -
  have "markov_inv p \<Longrightarrow> markov_inv (fold (\<lambda>(sid, m, path, q). markov_record pick sid m path q) cs p)" for p
    by (induction cs arbitrary: p) (auto simp: markov_inv_record)
  then show ?thesis by (simp add: markov_run_def markov_inv_new)
qed

lemma learned_run: "card (fst ` set cs) \<le> 5000 \<Longrightarrow> learned cs (markov_run pick cs)"
proof (induction cs rule: rev_induct)
  case Nil
  show ?case
    by (simp add: learned_def markov_run_def new_markov_def last_pattern_def session_history_def
        transition_count_def departures_def row_of_def)
next
  case (snoc c cs)
  obtain sid m path q where c: "c = (sid, m, path, q)" by (cases c)
  have "card (fst ` set cs) \<le> card (fst ` set (cs @ [c]))" by (intro card_mono) auto
  with snoc have "learned cs (markov_run pick cs)" by simp
  from learned_record [OF this markov_inv_run snoc.prems c] c show ?case
    by (simp add: markov_run_def)
qed

section \<open>Properties\<close>

text \<open>
  C17: the Markov predictor learns the observed frequencies exactly. As long as at most 5000 sessions
  were seen, the predictions for a session whose last call had pattern \<open>f\<close> are the patterns that
  followed \<open>f\<close> in some session, each with the probability (times it followed) / (times \<open>f\<close> was left),
  whatever ties and map order the sort resolves, and the capped history makes no difference.
\<close>

theorem markov_predicts_frequencies:
  assumes "sorts_desc pd_prob srt" "card (fst ` set cs) \<le> 5000" "last_pattern sid cs = Some f"
  shows "(\<lambda>r. (pd_pattern r, pd_prob r)) ` set (markov_predict srt sid 0 (markov_run pick cs)) =
    {(t, of_nat (transition_count cs f t) / of_nat (departures cs f)) | t. 0 < transition_count cs f t}"
proof -
  let ?p = "markov_run pick cs"
  let ?hist = "session_history sid (mk_sessions ?p)"
  have learned: "learned cs ?p" by (rule learned_run [OF assms(2)])
  have f: "?hist \<noteq> []" "hs_pattern (last ?hist) = f"
    using learned assms(3) by (auto simp: learned_def Let_def split: if_splits)
  have cnt: "get0 (row_of f ?p) t = int (transition_count cs f t)"
    and tot: "get0 (mk_totals ?p) f = int (departures cs f)" for t
    using learned by (simp_all add: learned_def)
  show ?thesis
  proof (cases "mget (mk_transitions ?p) f")
    case None
    then have "transition_count cs f t = 0" for t using cnt [of t] by (simp add: row_of_def)
    with None f show ?thesis by (simp add: markov_predict_def Let_def)
  next
    case (Some row)
    from markov_inv_run [of pick cs] Some have row: "mwf row" "row \<noteq> []" "\<forall>c \<in> snd ` set row. 0 < c"
      "mget (mk_totals ?p) f = Some (row_sum row)"
      unfolding markov_inv_def by blast+
    have mem: "(t, c) \<in> set row \<longleftrightarrow> 0 < transition_count cs f t \<and> c = int (transition_count cs f t)" for t c
    proof -
      have "mget row t = Some c \<longleftrightarrow> (t, c) \<in> set row" using row(1) by (rule map_of_eq_Some_iff)
      moreover have "0 < c" if "(t, c) \<in> set row" using row(3) that by force
      ultimately show ?thesis
        using cnt [of t] Some by (auto simp: row_of_def split: option.splits)
    qed
    have total: "row_sum row = int (departures cs f)" using tot row(4) by simp
    have "0 < row_sum row"
    proof -
      obtain x xs where x: "row = x # xs" using row(2) by (cases row) auto
      have "0 \<le> sum_list (map snd xs)" using row(3) x by (intro sum_list_nonneg) force
      with row(3) x show ?thesis by (auto simp: row_sum_def)
    qed
    with f Some row have "markov_predict srt sid 0 ?p = srt (map (\<lambda>(np, c).
        \<lparr>pd_call = reconstruct_call np (last ?hist), pd_pattern = np,
         pd_prob = of_int c / of_int (row_sum row)\<rparr>) row)"
      by (simp add: markov_predict_def Let_def)
    then have "(\<lambda>r. (pd_pattern r, pd_prob r)) ` set (markov_predict srt sid 0 ?p) =
        (\<lambda>(np, c). (np, of_int c / of_int (row_sum row))) ` set row"
      by (simp add: sorts_desc_set [OF assms(1)] image_image case_prod_unfold)
    also have "\<dots> = {(t, of_nat (transition_count cs f t) / of_nat (departures cs f)) | t.
        0 < transition_count cs f t}"
    proof (rule set_eqI)
      fix x :: "string \<times> rat"
      obtain t y where x: "x = (t, y)" by (cases x)
      have "x \<in> (\<lambda>(np, c). (np, of_int c / of_int (row_sum row))) ` set row \<longleftrightarrow>
          (\<exists>c. (t, c) \<in> set row \<and> y = of_int c / of_int (row_sum row))"
        unfolding x by force
      also have "\<dots> \<longleftrightarrow> 0 < transition_count cs f t \<and>
          y = of_nat (transition_count cs f t) / of_nat (departures cs f)"
        unfolding mem total by simp
      finally show "x \<in> (\<lambda>(np, c). (np, of_int c / of_int (row_sum row))) ` set row \<longleftrightarrow>
          x \<in> {(t, of_nat (transition_count cs f t) / of_nat (departures cs f)) | t.
            0 < transition_count cs f t}"
        unfolding x by auto
    qed
    finally show ?thesis .
  qed
qed

definition sample_calls :: "call list" where
  "sample_calls = [(''s'', ''get'', ''/a'', []), (''u'', ''get'', ''/a'', []), (''s'', ''get'', ''/b/17'', []),
     (''u'', ''get'', ''/c'', []), (''s'', ''get'', ''/a'', [])]"

theorem markov_predicts_frequencies_witness:
  "(''GET /b/:id'', 1 / 2) \<in> (\<lambda>r. (pd_pattern r, pd_prob r)) `
     set (markov_predict (stable_desc pd_prob) ''s'' 0 (markov_run (\<lambda>_. 0) sample_calls))"
proof -
  have l: "last_pattern ''s'' sample_calls = Some ''GET /a''" by code_simp
  have c: "transition_count sample_calls ''GET /a'' ''GET /b/:id'' = 1"
    "departures sample_calls ''GET /a'' = 2" by code_simp+
  have "card (fst ` set sample_calls) \<le> 5000"
    by (simp add: sample_calls_def card_insert_if)
  from markov_predicts_frequencies [OF sorts_desc_stable this l, of "\<lambda>_. 0"] show ?thesis
    using c by (auto intro!: exI [of _ "''GET /b/:id''"])
qed



text \<open>
  memory is bounded and sessions are separate: after any calls at most 5000 sessions with at most
  10 steps each are kept, and a call in one session leaves every other session's history as it was or,
  if it was evicted, empty.
\<close>

theorem markov_sessions_bounded:
  fixes pick :: "history_step sessions \<Rightarrow> nat" and cs :: "call list"
  defines "p \<equiv> markov_run pick cs"
  shows "length (mk_sessions p) \<le> 5000 \<and> (\<forall>h \<in> snd ` set (mk_sessions p). length h \<le> 10) \<and>
    session_history sid' (mk_sessions (markov_record pick sid m path q p)) \<in>
      (if sid' = sid then {append_history 10 (markov_step m path q) (session_history sid (mk_sessions p))}
       else {[], session_history sid' (mk_sessions p)})"
proof -
  have max: "mk_maxSessions (fold (\<lambda>(sid, m, path, q). markov_record pick sid m path q) cs p0) = mk_maxSessions p0 \<and>
      mk_maxHistory (fold (\<lambda>(sid, m, path, q). markov_record pick sid m path q) cs p0) = mk_maxHistory p0" for p0
    by (induction cs arbitrary: p0) (auto simp: markov_record_def Let_def)
  then have m: "mk_maxSessions p = 5000" "mk_maxHistory p = 10"
    by (simp_all add: p_def markov_run_def new_markov_def)
  have ok: "sessions_ok 5000 10 (\<lambda>_. True) (mk_sessions p)"
    using markov_inv_run [of pick cs] m by (simp add: p_def markov_inv_def)
  have ss: "mk_sessions (markov_record pick sid m path q p) =
      record_session pick 5000 10 sid (markov_step m path q) (mk_sessions p)" for sid
    by (simp add: markov_record_def Let_def m)
  have "length h \<le> 10" if "h \<in> snd ` set (mk_sessions p)" for h
  proof -
    from that obtain k where "(k, h) \<in> set (mk_sessions p)" by auto
    with ok show ?thesis by (auto simp: sessions_ok_def)
  qed
  moreover have "session_history sid' (mk_sessions (markov_record pick sid m path q p)) \<in>
      (if sid' = sid then {append_history 10 (markov_step m path q) (session_history sid (mk_sessions p))}
       else {[], session_history sid' (mk_sessions p)})"
    using history_record_other [of sid' sid pick 5000 10 "markov_step m path q" "mk_sessions p"]
      history_record_same [of 10 sid pick 5000 "markov_step m path q" "mk_sessions p"]
    by (simp add: ss)
  ultimately show ?thesis using ok by (simp add: sessions_ok_def)
qed

theorem markov_sessions_bounded_witness:
  "length (mk_sessions (markov_run (\<lambda>_. 0) sample_calls)) \<le> 5000 \<and>
    list_all (\<lambda>h. length h \<le> 10) (map snd (mk_sessions (markov_run (\<lambda>_. 0) sample_calls)))"
  using markov_sessions_bounded [of "\<lambda>_. 0" sample_calls] by (simp add: list_all_iff)

end
