(* ===== verification/Engine.thy ===== *)
theory Engine
  imports Prefetcher Dense Markov
begin

text \<open>
  \<open>precog.go\<close>: the configuration with its defaults, the classification of requests, and the engine's
  state: store, predictor, telemetry and, once \<open>Handler\<close> was called, the prefetcher. The in-flight group
  is the subject of \<open>Coalesce\<close>.
\<close>

record config =
  c_threshold :: rat
  c_ttl :: int
  c_cookie_name :: string
  c_cookie_secure :: bool
  c_session_extractor :: "(request \<Rightarrow> string) option"
  c_is_authenticated :: "(request \<Rightarrow> bool) option"
  c_auth_cookies :: "string list"
  c_skip_routes :: "string list"
  c_public_routes :: "string list"
  c_max_response :: int
  c_coalesce_auth :: bool
  c_workers :: int

text \<open>The defaults \<open>New\<close> fills in; durations are in nanoseconds.\<close>

definition with_defaults :: "config \<Rightarrow> config" where
  "with_defaults cfg = cfg\<lparr>
     c_threshold := (if c_threshold cfg \<le> 0 then 65 / 100 else c_threshold cfg),
     c_ttl := (if c_ttl cfg \<le> 0 then 60 * 1000000000 else c_ttl cfg),
     c_cookie_name := (if c_cookie_name cfg = [] then ''precog_sid'' else c_cookie_name cfg),
     c_workers := (if c_workers cfg \<le> 0 then 4 else c_workers cfg),
     c_max_response := (if c_max_response cfg \<le> 0 then 2 * 1024 * 1024 else c_max_response cfg)\<rparr>"

record ('s, 'p) engine =
  en_config :: config
  en_store :: 's
  en_predictor :: 'p
  en_prefetcher :: "prefetcher option"
  en_telemetry :: telemetry

definition new_engine :: "config \<Rightarrow> 's \<Rightarrow> 'p \<Rightarrow> ('s, 'p) engine" where
  "new_engine cfg store predictor = \<lparr>en_config = with_defaults cfg, en_store = store,
     en_predictor = predictor, en_prefetcher = None, en_telemetry = new_telemetry\<rparr>"

text \<open>A configuration without store and predictor.\<close>

definition default_engine :: "config \<Rightarrow> (sharded_store tiered_store, dense) engine" where
  "default_engine cfg = new_engine cfg (new_tiered_store (new_sharded_store None)) (new_dense None)"

definition engine_handler :: "('s, 'p) engine \<Rightarrow> ('s, 'p) engine" where
  "engine_handler e = (case en_prefetcher e of
     Some p \<Rightarrow> e
   | None \<Rightarrow> e\<lparr>en_prefetcher := Some (new_prefetcher (c_ttl (en_config e)) (c_threshold (en_config e)))\<rparr>)"

definition engine_close :: "'s store_ops \<Rightarrow> ('s, 'p) engine \<Rightarrow> ('s, 'p) engine" where
  "engine_close ops e = e\<lparr>en_prefetcher := map_option pf_close (en_prefetcher e),
     en_store := st_close ops (en_store e)\<rparr>"

definition engine_stats :: "('s, 'p) engine \<Rightarrow> stats" where
  "engine_stats e = stats_of (en_telemetry e)"

definition is_route_public :: "config \<Rightarrow> string \<Rightarrow> bool" where
  "is_route_public cfg path = list_ex (\<lambda>pub. has_prefix path pub) (c_public_routes cfg)"

definition is_default_authenticated :: "request \<Rightarrow> string \<Rightarrow> string list \<Rightarrow> bool" where
  "is_default_authenticated r sessionCookieName authCookieNames = (
     if hget (r_header r) ''Authorization'' \<noteq> [] \<or> hget (r_header r) ''Proxy-Authorization'' \<noteq> [] then True
     else if hget (r_header r) ''X-Auth-Token'' \<noteq> [] \<or> hget (r_header r) ''X-API-Key'' \<noteq> [] then True
     else (let cs = cookies r in
       if cs = [] then False
       else if authCookieNames \<noteq> []
       then list_ex (\<lambda>c. list_ex (\<lambda>name. ck_name c = name \<and> ck_value c \<noteq> []) authCookieNames) cs
       else list_ex (\<lambda>c. (sessionCookieName = [] \<or> ck_name c \<noteq> sessionCookieName) \<and> ck_value c \<noteq> []) cs))"

definition is_request_authenticated :: "config \<Rightarrow> request \<Rightarrow> bool" where
  "is_request_authenticated cfg r = (case c_is_authenticated cfg of
     Some f \<Rightarrow> f r
   | None \<Rightarrow> is_default_authenticated r (c_cookie_name cfg) (c_auth_cookies cfg))"

section \<open>Sessions\<close>

definition hex_nibble :: "nat \<Rightarrow> char" where
  "hex_nibble n = hex_digits ! n"

text \<open>\<open>hex.EncodeToString\<close> of the 16 random bytes.\<close>

definition generate_session_id :: "bytes \<Rightarrow> string" where
  "generate_session_id b = concat (map (\<lambda>c. [hex_nibble (of_char c div 16), hex_nibble (of_char c mod 16)]) b)"

definition extract_session :: "config \<Rightarrow> request \<Rightarrow> string" where
  "extract_session cfg r = (case c_session_extractor cfg of
     Some f \<Rightarrow> f r
   | None \<Rightarrow> (case find_cookie r (c_cookie_name cfg) of
        Some c \<Rightarrow> if ck_value c \<noteq> [] then ck_value c else hget (r_header r) ''X-Session-ID''
      | None \<Rightarrow> hget (r_header r) ''X-Session-ID''))"

text \<open>\<open>Cookie.String\<close> for the fields the engine sets; a name that is not a token gives no cookie.\<close>

definition session_cookie :: "config \<Rightarrow> string \<Rightarrow> string" where
  "session_cookie cfg sid = (if c_cookie_name cfg = [] \<or> \<not> list_all is_token_char (c_cookie_name cfg) then []
     else c_cookie_name cfg @ ''='' @ sid @ ''; Path=/; Max-Age=86400; HttpOnly'' @
       (if c_cookie_secure cfg then ''; Secure'' else []) @ ''; SameSite=Lax'')"

definition write_session_cookie :: "config \<Rightarrow> string \<Rightarrow> client \<Rightarrow> client" where
  "write_session_cookie cfg sid w = (if session_cookie cfg sid = [] then w
     else cl_add ''Set-Cookie'' (session_cookie cfg sid) w)"

section \<open>Properties\<close>

lemma default_fields:
  "0 < c_threshold (with_defaults cfg)" "0 < c_ttl (with_defaults cfg)" "c_cookie_name (with_defaults cfg) \<noteq> []"
  "0 < c_max_response (with_defaults cfg)" "0 < c_workers (with_defaults cfg)"
  by (simp_all add: with_defaults_def)

text \<open>
  C33: without a custom checker and without configured cookie names, a request is authenticated exactly
  if it carries one of the four credential headers or a non-empty cookie other than the session cookie;
  so the engine's own session cookie never makes a request authenticated, and any other cookie does.
\<close>

theorem default_authentication:
  assumes "c_is_authenticated cfg = None" "c_auth_cookies cfg = []"
  shows "is_request_authenticated (with_defaults cfg) r \<longleftrightarrow>
    (\<exists>h \<in> {''Authorization'', ''Proxy-Authorization'', ''X-Auth-Token'', ''X-API-Key''}. hget (r_header r) h \<noteq> []) \<or>
    (\<exists>c \<in> set (cookies r). ck_name c \<noteq> c_cookie_name (with_defaults cfg) \<and> ck_value c \<noteq> [])"
proof -
  have "c_is_authenticated (with_defaults cfg) = None" "c_auth_cookies (with_defaults cfg) = []"
    using assms by (simp_all add: with_defaults_def)
  then show ?thesis
    using default_fields(3) [of cfg]
    by (auto simp: is_request_authenticated_def is_default_authenticated_def Let_def list_ex_iff)
qed

definition sample_config :: config where
  "sample_config = \<lparr>c_threshold = 0, c_ttl = 0, c_cookie_name = [], c_cookie_secure = True,
     c_session_extractor = None, c_is_authenticated = None, c_auth_cookies = [], c_skip_routes = [''/admin''],
     c_public_routes = [''/pub''], c_max_response = 0, c_coalesce_auth = False, c_workers = 0\<rparr>"

theorem default_authentication_witness:
  "\<not> is_request_authenticated (with_defaults sample_config) \<lparr>r_method = ''GET'', r_host = [], r_path = ''/'',
     r_query = [], r_header = [(''Cookie'', [''precog_sid=ab''])]\<rparr>"
proof -
  let ?r = "\<lparr>r_method = ''GET'', r_host = [], r_path = ''/'', r_query = [], r_header = [(''Cookie'', [''precog_sid=ab''])]\<rparr>"
  have c: "cookies ?r = [\<lparr>ck_name = ''precog_sid'', ck_value = ''ab''\<rparr>]" by code_simp
  have n: "c_cookie_name (with_defaults sample_config) = ''precog_sid''"
    by (simp add: with_defaults_def sample_config_def)
  have h: "hget (r_header ?r) ''Authorization'' = []" "hget (r_header ?r) ''Proxy-Authorization'' = []"
    "hget (r_header ?r) ''X-Auth-Token'' = []" "hget (r_header ?r) ''X-API-Key'' = []" by code_simp+
  show ?thesis
    using default_authentication [of sample_config ?r] c n h by (simp add: sample_config_def)
qed

end
