(* ===== verification/Middleware.thy ===== *)
theory Middleware
  imports Engine
begin

text \<open>
  \<open>middleware.go\<close>: what happens to one request. The handler is a function from requests to the calls
  it makes on its writer; it is arbitrary. The part a request plays in the coalescer is a parameter: the
  leader runs \<open>fn\<close>, a follower gets the outcome of another request's \<open>fn\<close> (or its own cancellation).
  \<open>me_now\<close> is the clock before the handler runs and \<open>me_later\<close> after it. \<open>None\<close> is a panic of the
  predictor.
\<close>

record ('s, 'p) mw_env =
  me_xx :: "string \<Rightarrow> 64 word"
  me_store :: "'s store_ops"
  me_predictor :: "'p predictor_ops"
  me_assets :: assets
  me_handler :: "request \<Rightarrow> wop list"
  me_now :: int
  me_later :: int
  me_rand :: bytes

datatype co_role =
    Lead
  | Follow "entry option" "co_error option"

section \<open>Classification\<close>

definition is_speculative :: "request \<Rightarrow> bool" where
  "is_speculative r = (hget (r_header r) ''X-Precog-Speculative'' \<noteq> [])"

definition is_skipped :: "config \<Rightarrow> request \<Rightarrow> bool" where
  "is_skipped cfg r = list_ex (\<lambda>skip. has_prefix (r_path r) skip) (c_skip_routes cfg)"

definition is_safe :: "request \<Rightarrow> bool" where
  "is_safe r = (to_upper (r_method r) = ''GET'' \<or> to_upper (r_method r) = ''HEAD'')"

definition bypasses :: "request \<Rightarrow> bool" where
  "bypasses r = (hget (r_header r) ''Upgrade'' \<noteq> [] \<or>
     contains (hget (r_header r) ''Accept'') ''text/event-stream'' \<or> hget (r_header r) ''Range'' \<noteq> [])"

definition client_no_cache :: "request \<Rightarrow> bool" where
  "client_no_cache r = (let reqCC = hget (r_header r) ''Cache-Control'' in
     contains reqCC ''no-cache'' \<or> contains reqCC ''max-age=0'' \<or> hget (r_header r) ''Pragma'' = ''no-cache'')"

definition client_no_store :: "request \<Rightarrow> bool" where
  "client_no_store r = contains (hget (r_header r) ''Cache-Control'') ''no-store''"

definition request_key :: "(string \<Rightarrow> 64 word) \<Rightarrow> request \<Rightarrow> string" where
  "request_key xx r = canonical_cache_key_with_host xx (to_upper (r_method r)) (r_host r) (r_path r) (r_query r) []"

section \<open>Looking up and storing\<close>

text \<open>The primary entry, or the stored variant for the request's headers.\<close>

definition cache_candidate ::
  "('s, 'p) mw_env \<Rightarrow> string \<Rightarrow> request \<Rightarrow> 's \<Rightarrow> entry option \<times> 's" where
  "cache_candidate env cacheKey r s = (case st_get (me_store env) (me_now env) cacheKey s of
     (None, s1) \<Rightarrow> (None, s1)
   | (Some entry, s1) \<Rightarrow>
       (let varyHeader = hget (e_header entry) ''Vary'' in
        if varyHeader \<noteq> [] \<and> varyHeader \<noteq> ''*'' then
          (let vKey = vary_key (me_xx env) cacheKey varyHeader r in
           if vKey \<noteq> cacheKey then
             (case st_get (me_store env) (me_now env) vKey s1 of
                (Some ve, s2) \<Rightarrow> (Some ve, s2)
              | (None, s2) \<Rightarrow> (Some entry, s2))
           else (Some entry, s1))
        else (Some entry, s1)))"

definition may_serve :: "bool \<Rightarrow> bool \<Rightarrow> request \<Rightarrow> entry \<Rightarrow> bool" where
  "may_serve isAuth isPublic r e = (matches_vary (Some e) r \<and> (\<not> isAuth \<or> isPublic \<or> says_public e))"

definition cache_lookup ::
  "('s, 'p) mw_env \<Rightarrow> bool \<Rightarrow> bool \<Rightarrow> string \<Rightarrow> request \<Rightarrow> 's \<Rightarrow> entry option \<times> 's" where
  "cache_lookup env isAuth isPublic cacheKey r s = (case cache_candidate env cacheKey r s of
     (Some e, s1) \<Rightarrow> (if may_serve isAuth isPublic r e then Some e else None, s1)
   | (None, s1) \<Rightarrow> (None, s1))"

definition can_cache :: "bool \<Rightarrow> bool \<Rightarrow> crw \<Rightarrow> bool" where
  "can_cache isAuth isPublic rec = (let cc = hget (rw_header rec) ''Cache-Control'' in
     status_code rec = 200 \<and> hvalues (rw_header rec) ''Set-Cookie'' = [] \<and>
     \<not> contains cc ''no-store'' \<and> \<not> contains cc ''private'' \<and> hget (rw_header rec) ''Vary'' \<noteq> ''*'' \<and>
     (\<not> isAuth \<or> isPublic \<or> contains cc ''public''))"

definition make_entry :: "int \<Rightarrow> int \<Rightarrow> request \<Rightarrow> crw \<Rightarrow> entry" where
  "make_entry now ttl r rec = \<lparr>e_body = body_bytes rec, e_header = rw_header rec,
     e_ctype = hget (rw_header rec) ''Content-Type'', e_status = status_code rec, e_created = now,
     e_expires = Some (now + ttl), e_vary = extract_vary_map r (hget (rw_header rec) ''Vary'')\<rparr>"

text \<open>
  \<open>e.store.Set(cacheKey, ent, ttl)\<close> and, for a response with \<open>Vary\<close>, the variant under its own key. The
  store may update the entry it is given.
\<close>

definition store_entry ::
  "('s, 'p) mw_env \<Rightarrow> int \<Rightarrow> string \<Rightarrow> string \<Rightarrow> request \<Rightarrow> entry \<Rightarrow> 's \<Rightarrow> entry \<times> 's" where
  "store_entry env ttl cacheKey varyHeader r ent s = (let
     (ok1, e1, s1) = st_set (me_store env) (me_later env) cacheKey ent ttl s
   in if varyHeader \<noteq> [] \<and> varyHeader \<noteq> ''*'' then
        (let (ok2, e2, s2) = st_set (me_store env) (me_later env)
               (vary_key (me_xx env) cacheKey varyHeader r) e1 ttl s1
         in (e2, s2))
      else (e1, s1))"

section \<open>Writing the response\<close>

definition write_headers :: "header \<Rightarrow> string \<Rightarrow> client \<Rightarrow> client" where
  "write_headers hdr contentType w = (let w1 = cl_add_all (visible_header hdr) w in
     if contentType \<noteq> [] \<and> hget (cl_header w1) ''Content-Type'' = []
     then cl_set ''Content-Type'' contentType w1 else w1)"

definition write_miss :: "int \<Rightarrow> bytes \<Rightarrow> client \<Rightarrow> client" where
  "write_miss status body w = cl_write body (cl_write_header status (cl_set ''X-Cache'' ''MISS'' w))"

section \<open>Recording and prefetching\<close>

definition record_call ::
  "('s, 'p) mw_env \<Rightarrow> string \<Rightarrow> request \<Rightarrow> ('s, 'p) engine \<Rightarrow> ('s, 'p) engine option" where
  "record_call env sid r e = (if is_speculative r then Some e
     else map_option (\<lambda>p. e\<lparr>en_predictor := p\<rparr>)
       (pr_record (me_predictor env) sid (to_upper (r_method r)) (r_path r) (r_query r) (en_predictor e)))"

definition trigger_prefetch ::
  "('s, 'p) mw_env \<Rightarrow> string \<Rightarrow> request \<Rightarrow> client \<Rightarrow> ('s, 'p) engine \<Rightarrow> (client \<times> ('s, 'p) engine) option" where
  "trigger_prefetch env sid r w e = (case pr_predict (me_predictor env) sid 3 (en_predictor e) of
     None \<Rightarrow> None
   | Some preds \<Rightarrow>
       (if preds = [] then Some (w, e)
        else (let
          link = build_speculation_rules_header preds;
          w1 = (if link \<noteq> [] then cl_add ''Link'' link w else w)
        in Some (w1, e\<lparr>en_prefetcher := map_option
             (pf_submit (Some (is_request_authenticated (en_config e))) sid preds r) (en_prefetcher e)\<rparr>))))"

text \<open>\<open>if !isSpeculative { e.predictor.Record(...); e.triggerPrefetch(sid, r, w) }\<close>.\<close>

definition record_and_prefetch ::
  "('s, 'p) mw_env \<Rightarrow> string \<Rightarrow> request \<Rightarrow> client \<Rightarrow> ('s, 'p) engine \<Rightarrow> (client \<times> ('s, 'p) engine) option" where
  "record_and_prefetch env sid r w e = (if is_speculative r then Some (w, e)
     else (case record_call env sid r e of
             None \<Rightarrow> None
           | Some e1 \<Rightarrow> trigger_prefetch env sid r w e1))"

definition just_record ::
  "('s, 'p) mw_env \<Rightarrow> string \<Rightarrow> request \<Rightarrow> client \<Rightarrow> ('s, 'p) engine \<Rightarrow> (client \<times> ('s, 'p) engine) option" where
  "just_record env sid r w e = map_option (\<lambda>e1. (w, e1)) (record_call env sid r e)"

section \<open>The stages\<close>

text \<open>Unsafe methods, upgrades, event streams and range requests.\<close>

definition pass_through ::
  "('s, 'p) mw_env \<Rightarrow> string \<Rightarrow> request \<Rightarrow> client \<Rightarrow> ('s, 'p) engine \<Rightarrow> (client \<times> ('s, 'p) engine) option" where
  "pass_through env sid r w e =
     just_record env sid r (run_direct (me_handler env r) (cl_set ''X-Cache'' ''MISS'' w)) e"

text \<open>
  The leader's \<open>fn\<close>: the entry and error it returns, \<open>leaderRecorder\<close>, \<open>leaderEntry\<close> and the store.
\<close>

definition leader_fn ::
  "('s, 'p) mw_env \<Rightarrow> config \<Rightarrow> request \<Rightarrow> client \<Rightarrow> 's \<Rightarrow>
     entry option \<times> co_error option \<times> crw option \<times> entry option \<times> 's" where
  "leader_fn env cfg r w s = (let
     isPublic = is_route_public cfg (r_path r);
     isAuth = is_request_authenticated cfg r;
     cacheKey = request_key (me_xx env) r
   in case cache_lookup env isAuth isPublic cacheKey r s of
        (Some cached, s1) \<Rightarrow> (Some cached, None, None, None, s1)
      | (None, s1) \<Rightarrow>
          (let rec = run_ops (me_handler env r) (new_crw w (c_max_response cfg)) in
           if rw_streaming rec \<or> rw_overflow rec then (None, Some ErrStreamingResponse, Some rec, None, s1)
           else (let ent = make_entry (me_later env) (c_ttl cfg) r rec in
             if can_cache isAuth isPublic rec \<and> \<not> client_no_store r
             then (let (ent1, s2) = store_entry env (c_ttl cfg) cacheKey (hget (rw_header rec) ''Vary'') r ent s1
                   in (Some ent1, None, Some rec, Some ent1, s2))
             else (None, Some ErrNotShareable, Some rec, Some ent, s1))))"

definition coalesce_key :: "(string \<Rightarrow> 64 word) \<Rightarrow> config \<Rightarrow> string \<Rightarrow> request \<Rightarrow> string" where
  "coalesce_key xx cfg sid r = (let
     isPublic = is_route_public cfg (r_path r);
     isAuth = is_request_authenticated cfg r;
     canCoalesce = \<not> client_no_cache r \<and> \<not> client_no_store r \<and> (isPublic \<or> (\<not> isAuth \<and> cookies r = []))
   in if canCoalesce then request_key xx r
      else if isAuth \<and> c_coalesce_auth cfg then request_key xx r @ '':user:'' @ sid
      else [])"

text \<open>Case A: a shared entry. Case B: the leader's own unshareable response.\<close>

definition serve_shared ::
  "('s, 'p) mw_env \<Rightarrow> string \<Rightarrow> request \<Rightarrow> entry \<Rightarrow> client \<Rightarrow> ('s, 'p) engine \<Rightarrow> (client \<times> ('s, 'p) engine) option" where
  "serve_shared env sid r ent w e = map_option
     (\<lambda>(w1, e1). (write_miss (e_status ent) (e_body ent) (write_headers (e_header ent) (e_ctype ent) w1), e1))
     (record_and_prefetch env sid r w e)"

definition serve_own ::
  "('s, 'p) mw_env \<Rightarrow> string \<Rightarrow> request \<Rightarrow> entry \<Rightarrow> client \<Rightarrow> ('s, 'p) engine \<Rightarrow> (client \<times> ('s, 'p) engine) option" where
  "serve_own env sid r ent w e = map_option
     (\<lambda>(w1, e1). (write_miss (e_status ent) (e_body ent) (cl_add_all (visible_header (e_header ent)) w1), e1))
     (record_and_prefetch env sid r w e)"

text \<open>Section 10: the request runs on its own.\<close>

definition direct_path ::
  "('s, 'p) mw_env \<Rightarrow> string \<Rightarrow> request \<Rightarrow> client \<Rightarrow> ('s, 'p) engine \<Rightarrow> (client \<times> ('s, 'p) engine) option" where
  "direct_path env sid r w e = (let
     cfg = en_config e;
     isPublic = is_route_public cfg (r_path r);
     isAuth = is_request_authenticated cfg r;
     rec = run_ops (me_handler env r) (new_crw w (c_max_response cfg))
   in if rw_streaming rec \<or> rw_overflow rec then just_record env sid r (rw_w rec) e
      else (let
        ent = make_entry (me_later env) (c_ttl cfg) r rec;
        e1 = (if can_cache isAuth isPublic rec \<and> \<not> client_no_store r
              then e\<lparr>en_store := snd (store_entry env (c_ttl cfg) (request_key (me_xx env) r)
                      (hget (rw_header rec) ''Vary'') r ent (en_store e))\<rparr>
              else e)
      in map_option (\<lambda>(w1, e2). (write_miss (status_code rec) (body_bytes rec)
             (write_headers (rw_header rec) (hget (rw_header rec) ''Content-Type'') w1), e2))
           (record_and_prefetch env sid r w e1)))"

text \<open>Section 9: the coalesced path.\<close>

definition coalesced_path ::
  "('s, 'p) mw_env \<Rightarrow> co_role \<Rightarrow> string \<Rightarrow> request \<Rightarrow> client \<Rightarrow> ('s, 'p) engine \<Rightarrow> (client \<times> ('s, 'p) engine) option" where
  "coalesced_path env role sid r w e = (case role of
     Lead \<Rightarrow>
       (let (entry, err, leaderRecorder, leaderEntry, s1) = leader_fn env (en_config e) r w (en_store e);
            e1 = e\<lparr>en_store := s1\<rparr>
        in case (leaderRecorder, err, entry, leaderEntry) of
             (Some rec, Some ErrStreamingResponse, _, _) \<Rightarrow> just_record env sid r (rw_w rec) e1
           | (_, None, Some ent, _) \<Rightarrow> serve_shared env sid r ent w e1
           | (Some rec, _, _, Some ent) \<Rightarrow>
               if rw_written rec then direct_path env sid r w e1 else serve_own env sid r ent w e1
           | _ \<Rightarrow> direct_path env sid r w e1)
   | Follow entry err \<Rightarrow>
       (case (err, entry) of
          (None, Some ent) \<Rightarrow> serve_shared env sid r ent w e
        | _ \<Rightarrow> direct_path env sid r w e))"

definition serve_safe ::
  "('s, 'p) mw_env \<Rightarrow> co_role \<Rightarrow> string \<Rightarrow> request \<Rightarrow> client \<Rightarrow> ('s, 'p) engine \<Rightarrow> (client \<times> ('s, 'p) engine) option" where
  "serve_safe env role sid r w e = (let
     cfg = en_config e;
     isPublic = is_route_public cfg (r_path r);
     isAuth = is_request_authenticated cfg r;
     (hit, s1) = (if client_no_cache r then (None, en_store e)
                  else cache_lookup env isAuth isPublic (request_key (me_xx env) r) r (en_store e))
   in case hit of
        Some ent \<Rightarrow> map_option (\<lambda>(w1, e1). (write_response ent w1, e1))
          (record_and_prefetch env sid r w
             (e\<lparr>en_store := s1, en_telemetry := record_hit (en_telemetry e)\<rparr>))
      | None \<Rightarrow>
          (let e1 = e\<lparr>en_store := s1, en_telemetry := record_miss (en_telemetry e)\<rparr> in
           if coalesce_key (me_xx env) cfg sid r \<noteq> [] then coalesced_path env role sid r w e1
           else direct_path env sid r w e1))"

definition middleware ::
  "('s, 'p) mw_env \<Rightarrow> co_role \<Rightarrow> request \<Rightarrow> client \<Rightarrow> ('s, 'p) engine \<Rightarrow> (client \<times> ('s, 'p) engine) option" where
  "middleware env role r w e = (case serve_client_assets (me_assets env) r w of
     (True, w1) \<Rightarrow> Some (w1, e)
   | (False, w1) \<Rightarrow>
      (if is_skipped (en_config e) r then Some (run_direct (me_handler env r) w1, e)
       else (let
         sid0 = extract_session (en_config e) r;
         sid = (if sid0 = [] then generate_session_id (me_rand env) else sid0);
         w2 = (if sid0 = [] then write_session_cookie (en_config e) sid w1 else w1)
       in if \<not> is_safe r \<or> bypasses r then pass_through env sid r w2 e
          else serve_safe env role sid r w2 e)))"

section \<open>What a request does to the cache\<close>

text \<open>The store can represent what the handler answers to \<open>r\<close>.\<close>

definition handler_storable :: "(entry \<Rightarrow> bool) \<Rightarrow> ('s, 'p) mw_env \<Rightarrow> config \<Rightarrow> request \<Rightarrow> bool" where
  "handler_storable ok env cfg r = (\<forall>w m. ok (make_entry (me_later env) (c_ttl cfg) r
     (run_ops (me_handler env r) (new_crw w m))))"

text \<open>No response of the handler to \<open>r\<close> may be stored.\<close>

definition uncacheable :: "('s, 'p) mw_env \<Rightarrow> config \<Rightarrow> request \<Rightarrow> bool" where
  "uncacheable env cfg r = (client_no_store r \<or> (\<forall>w m. \<not> can_cache (is_request_authenticated cfg r)
     (is_route_public cfg (r_path r)) (run_ops (me_handler env r) (new_crw w m))))"

definition never_cached :: "('s, 'p) mw_env \<Rightarrow> config \<Rightarrow> request \<Rightarrow> bool" where
  "never_cached env cfg r = (is_skipped cfg r \<or> \<not> is_safe r \<or> bypasses r \<or> uncacheable env cfg r)"

text \<open>May this response be shown to a request of this class?\<close>

definition allowed :: "config \<Rightarrow> request \<Rightarrow> entry \<Rightarrow> bool" where
  "allowed cfg r e = (is_request_authenticated cfg r \<longrightarrow> is_route_public cfg (r_path r) \<or> says_public e)"

lemma can_cache_entry:
  "can_cache a p rec \<Longrightarrow> shareable (make_entry now ttl r rec)"
  "can_cache a p rec \<Longrightarrow> a \<Longrightarrow> p \<or> says_public (make_entry now ttl r rec)"
  by (auto simp: can_cache_def make_entry_def shareable_def says_public_def Let_def)

lemma record_call_store: "record_call env sid r e = Some e' \<Longrightarrow> en_store e' = en_store e \<and>
    en_telemetry e' = en_telemetry e \<and> en_config e' = en_config e"
  by (auto simp: record_call_def split: if_splits)

lemma trigger_store: "trigger_prefetch env sid r w e = Some (w', e') \<Longrightarrow> en_store e' = en_store e \<and>
    en_telemetry e' = en_telemetry e \<and> en_config e' = en_config e"
  by (auto simp: trigger_prefetch_def Let_def split: option.splits if_splits)

lemma just_record_store: "just_record env sid r w e = Some (w', e') \<Longrightarrow> w' = w \<and> en_store e' = en_store e \<and>
    en_telemetry e' = en_telemetry e \<and> en_config e' = en_config e"
  by (auto simp: just_record_def dest: record_call_store)

lemma record_and_prefetch_store:
  "record_and_prefetch env sid r w e = Some (w', e') \<Longrightarrow> en_store e' = en_store e \<and>
    en_telemetry e' = en_telemetry e \<and> en_config e' = en_config e"
  by (auto simp: record_and_prefetch_def dest!: trigger_store record_call_store split: if_splits option.splits)

lemma pass_through_store: "pass_through env sid r w e = Some (w', e') \<Longrightarrow> en_store e' = en_store e \<and>
    en_telemetry e' = en_telemetry e \<and> en_config e' = en_config e"
  by (auto simp: pass_through_def dest: just_record_store)

lemma serve_shared_store: "serve_shared env sid r ent w e = Some (w', e') \<Longrightarrow> en_store e' = en_store e \<and>
    en_telemetry e' = en_telemetry e \<and> en_config e' = en_config e"
  by (auto simp: serve_shared_def dest: record_and_prefetch_store)

lemma serve_own_store: "serve_own env sid r ent w e = Some (w', e') \<Longrightarrow> en_store e' = en_store e \<and>
    en_telemetry e' = en_telemetry e \<and> en_config e' = en_config e"
  by (auto simp: serve_own_def dest: record_and_prefetch_store)

context cache_store
begin

lemma candidate_clean:
  assumes "me_store env = ops" "clean inv held s" "cache_candidate env k r s = (c, s')"
  shows "clean inv held s'" "held_le (held s') (held s)"
    "c = Some e \<Longrightarrow> shareable e \<and> (\<exists>f x q. q \<in> insert k (range (\<lambda>vh. vary_key (me_xx env) k vh r)) \<and>
       (slot q, f, x) \<in> held s \<and> same_response e f \<and> fresh (me_now env) x)"
proof -
  obtain c1 s1 where get: "st_get ops (me_now env) k s = (c1, s1)" by fastforce
  note g = clean_get [OF assms(2) get]
  have src: "\<exists>f x. (slot k, f, x) \<in> held s \<and> same_response e f \<and> fresh (me_now env) x" if "c1 = Some e" for e
    using get_sound [OF clean_inv [OF assms(2)]] get that by blast
  have "clean inv held s' \<and> held_le (held s') (held s) \<and>
    (\<forall>e. c = Some e \<longrightarrow> shareable e \<and> (\<exists>f x q. q \<in> insert k (range (\<lambda>vh. vary_key (me_xx env) k vh r)) \<and>
       (slot q, f, x) \<in> held s \<and> same_response e f \<and> fresh (me_now env) x))"
  proof (cases c1)
    case None
    with assms(1,3) get g show ?thesis by (simp add: cache_candidate_def)
  next
    case (Some e1)
    let ?vh = "hget (e_header e1) ''Vary''"
    let ?vk = "vary_key (me_xx env) k ?vh r"
    obtain c2 s2 where get2: "st_get ops (me_now env) ?vk s1 = (c2, s2)" by fastforce
    note g2 = clean_get [OF g(1) get2]
    have src2: "\<exists>f x. (slot ?vk, f, x) \<in> held s \<and> same_response e f \<and> fresh (me_now env) x" if c2: "c2 = Some e" for e
    proof -
      obtain f x where "(slot ?vk, f, x) \<in> held s1" "same_response e f" "fresh (me_now env) x"
        using get_sound [OF clean_inv [OF g(1)]] get2 c2 by blast
      with g(2) show ?thesis unfolding held_le_def by (meson same_response_trans)
    qed
    consider (one) "c = Some e1" "s' = s1" | (two) e2 where "c2 = Some e2" "c = Some e2" "s' = s2"
      | (three) "c2 = None" "c = Some e1" "s' = s2"
      using assms(1,3) get Some get2
      by (cases c2) (auto simp: cache_candidate_def Let_def split: if_splits)
    then show ?thesis
    proof cases
      case one
      with g src Some show ?thesis by blast
    next
      case (two e2)
      with g g2 src2 show ?thesis by (blast intro: held_le_trans)
    next
      case three
      with g g2 src Some show ?thesis by (blast intro: held_le_trans)
    qed
  qed
  then show "clean inv held s'" "held_le (held s') (held s)"
    "c = Some e \<Longrightarrow> shareable e \<and> (\<exists>f x q. q \<in> insert k (range (\<lambda>vh. vary_key (me_xx env) k vh r)) \<and>
       (slot q, f, x) \<in> held s \<and> same_response e f \<and> fresh (me_now env) x)"
    by blast+
qed

lemma lookup_clean:
  assumes "me_store env = ops" "clean inv held s" "cache_lookup env a p k r s = (c, s')"
  shows "clean inv held s'" "held_le (held s') (held s)"
    "c = Some e \<Longrightarrow> shareable e \<and> may_serve a p r e \<and>
       (\<exists>f x q. q \<in> insert k (range (\<lambda>vh. vary_key (me_xx env) k vh r)) \<and>
         (slot q, f, x) \<in> held s \<and> same_response e f \<and> fresh (me_now env) x)"
proof -
  obtain c1 s1 where cand: "cache_candidate env k r s = (c1, s1)" by fastforce
  have "s' = s1" "c = Some e \<Longrightarrow> c1 = Some e \<and> may_serve a p r e"
    using assms(3) cand by (auto simp: cache_lookup_def split: option.splits if_splits)
  with candidate_clean [OF assms(1,2) cand] show "clean inv held s'" "held_le (held s') (held s)"
    "c = Some e \<Longrightarrow> shareable e \<and> may_serve a p r e \<and>
       (\<exists>f x q. q \<in> insert k (range (\<lambda>vh. vary_key (me_xx env) k vh r)) \<and>
         (slot q, f, x) \<in> held s \<and> same_response e f \<and> fresh (me_now env) x)"
    by blast+
qed

lemma store_entry_clean:
  assumes "me_store env = ops" "clean inv held s" "storable ent" "shareable ent" "clock_ok (me_later env) ttl"
    and "store_entry env ttl k vh r ent s = (ent', s')"
  shows "clean inv held s' \<and> shareable ent' \<and> says_public ent' = says_public ent \<and> same_origin ent ent'"
proof -
  obtain ok1 e1 s1 where set: "st_set ops (me_later env) k ent ttl s = (ok1, e1, s1)"
    by (cases "st_set ops (me_later env) k ent ttl s") auto
  note c1 = clean_set [OF assms(2,3,5,4) set]
  show ?thesis
  proof (cases "vh \<noteq> [] \<and> vh \<noteq> ''*''")
    case True
    obtain ok2 e2 s2 where set2: "st_set ops (me_later env) (vary_key (me_xx env) k vh r) e1 ttl s1 = (ok2, e2, s2)"
      by (cases "st_set ops (me_later env) (vary_key (me_xx env) k vh r) e1 ttl s1") auto
    have "ent' = e2" "s' = s2"
      using assms(1,6) set set2 True by (simp_all add: store_entry_def)
    with clean_set [OF c1(1,3) assms(5) c1(2) set2] c1(4,5) show ?thesis
      by (simp add: same_origin_def)
  next
    case False
    then have "ent' = e1" "s' = s1"
      using assms(1,6) set by (auto simp: store_entry_def)
    with c1 show ?thesis by simp
  qed
qed

lemma leader_clean:
  assumes "me_store env = ops" "clean inv held s" "clock_ok (me_later env) (c_ttl cfg)"
    and "handler_storable storable env cfg r"
    and "leader_fn env cfg r w s = (entry, err, rec, lent, s')"
  shows "clean inv held s'" "uncacheable env cfg r \<Longrightarrow> held_le (held s') (held s)"
    "entry = Some ent \<Longrightarrow> err = None \<and> shareable ent \<and> allowed cfg r ent"
proof -
  let ?a = "is_request_authenticated cfg r" and ?p = "is_route_public cfg (r_path r)"
  let ?k = "request_key (me_xx env) r"
  let ?rec = "run_ops (me_handler env r) (new_crw w (c_max_response cfg))"
  let ?ent = "make_entry (me_later env) (c_ttl cfg) r ?rec"
  obtain c s1 where look: "cache_lookup env ?a ?p ?k r s = (c, s1)" by fastforce
  note l = lookup_clean [OF assms(1,2) look]
  have "clean inv held s' \<and> (uncacheable env cfg r \<longrightarrow> held_le (held s') (held s)) \<and>
    (\<forall>ent. entry = Some ent \<longrightarrow> err = None \<and> shareable ent \<and> allowed cfg r ent)"
  proof (cases c)
    case (Some e)
    with look assms(5) l show ?thesis
      by (auto simp: leader_fn_def Let_def allowed_def may_serve_def)
  next
    case None
    show ?thesis
    proof (cases "\<not> (rw_streaming ?rec \<or> rw_overflow ?rec) \<and> can_cache ?a ?p ?rec \<and> \<not> client_no_store r")
      case True
      obtain e1 s2 where st: "store_entry env (c_ttl cfg) ?k (hget (rw_header ?rec) ''Vary'') r ?ent s1 = (e1, s2)"
        by fastforce
      have ok: "storable ?ent" using assms(4) by (simp add: handler_storable_def)
      have "shareable ?ent" using True by (blast intro: can_cache_entry(1))
      from store_entry_clean [OF assms(1) l(1) ok this assms(3) st]
      have "clean inv held s2" "shareable e1" "says_public e1 = says_public ?ent" by simp_all
      moreover have "entry = Some e1" "err = None" "s' = s2"
        using True look None st assms(5) by (simp_all add: leader_fn_def Let_def)
      moreover have "\<not> uncacheable env cfg r" using True by (auto simp: uncacheable_def)
      ultimately show ?thesis
        using True can_cache_entry(2) [of ?a ?p ?rec "me_later env" "c_ttl cfg" r] by (auto simp: allowed_def)
    next
      case False
      then have "entry = None" "s' = s1"
        using look None assms(5) by (auto simp: leader_fn_def Let_def split: if_splits)
      with l show ?thesis by simp
    qed
  qed
  then show "clean inv held s'" "uncacheable env cfg r \<Longrightarrow> held_le (held s') (held s)"
    "entry = Some ent \<Longrightarrow> err = None \<and> shareable ent \<and> allowed cfg r ent" by blast+
qed

lemma direct_clean:
  assumes "me_store env = ops" "clean inv held (en_store e)" "clock_ok (me_later env) (c_ttl (en_config e))"
    and "handler_storable storable env (en_config e) r" "direct_path env sid r w e = Some (w', e')"
  shows "clean inv held (en_store e') \<and>
    (uncacheable env (en_config e) r \<longrightarrow> held_le (held (en_store e')) (held (en_store e)))"
proof -
  let ?cfg = "en_config e"
  let ?a = "is_request_authenticated ?cfg r" and ?p = "is_route_public ?cfg (r_path r)"
  let ?rec = "run_ops (me_handler env r) (new_crw w (c_max_response ?cfg))"
  let ?ent = "make_entry (me_later env) (c_ttl ?cfg) r ?rec"
  obtain e1 s2 where st: "store_entry env (c_ttl ?cfg) (request_key (me_xx env) r)
      (hget (rw_header ?rec) ''Vary'') r ?ent (en_store e) = (e1, s2)" by fastforce
  consider (stream) "just_record env sid r (rw_w ?rec) e = Some (w', e')"
    | (keep) w1 where "record_and_prefetch env sid r w e = Some (w1, e')"
    | (save) w1 where "can_cache ?a ?p ?rec" "\<not> client_no_store r"
        "record_and_prefetch env sid r w (e\<lparr>en_store := s2\<rparr>) = Some (w1, e')"
    using assms(5) st by (auto simp: direct_path_def Let_def split: if_splits)
  then show ?thesis
  proof cases
    case stream
    from just_record_store [OF this] assms(2) show ?thesis by simp
  next
    case (keep w1)
    from record_and_prefetch_store [OF keep] assms(2) show ?thesis by simp
  next
    case (save w1)
    have ok: "storable ?ent" using assms(4) by (simp add: handler_storable_def)
    have "shareable ?ent" by (rule can_cache_entry(1) [OF save(1)])
    from store_entry_clean [OF assms(1,2) ok this assms(3) st] have "clean inv held s2" by simp
    moreover have "\<not> uncacheable env ?cfg r" using save by (auto simp: uncacheable_def)
    ultimately show ?thesis using record_and_prefetch_store [OF save(3)] by simp
  qed
qed

lemma coalesced_clean:
  assumes "me_store env = ops" "clean inv held (en_store e)" "clock_ok (me_later env) (c_ttl (en_config e))"
    and "handler_storable storable env (en_config e) r" "coalesced_path env role sid r w e = Some (w', e')"
  shows "clean inv held (en_store e') \<and>
    (uncacheable env (en_config e) r \<longrightarrow> held_le (held (en_store e')) (held (en_store e)))"
proof (cases role)
  case Lead
  obtain entry err rec lent s1 where fn: "leader_fn env (en_config e) r w (en_store e) = (entry, err, rec, lent, s1)"
    by (cases "leader_fn env (en_config e) r w (en_store e)") auto
  note l = leader_clean [OF assms(1-4) fn]
  let ?e1 = "e\<lparr>en_store := s1\<rparr>"
  have "en_store e' = s1 \<or> direct_path env sid r w ?e1 = Some (w', e')"
    using assms(5) Lead fn
    by (auto simp: coalesced_path_def Let_def
        dest!: just_record_store serve_shared_store serve_own_store
        split: option.splits co_error.splits if_splits)
  then show ?thesis
  proof
    assume "en_store e' = s1"
    with l show ?thesis by simp
  next
    assume "direct_path env sid r w ?e1 = Some (w', e')"
    from direct_clean [OF assms(1) _ _ _ this] l assms(3,4) show ?thesis
      by (auto intro: held_le_trans)
  qed
next
  case (Follow entry err)
  then consider ent where "serve_shared env sid r ent w e = Some (w', e')"
    | "direct_path env sid r w e = Some (w', e')"
    using assms(5) by (auto simp: coalesced_path_def split: option.splits)
  then show ?thesis
  proof cases
    case (1 ent)
    from serve_shared_store [OF this] assms(2) show ?thesis by simp
  next
    case 2
    from direct_clean [OF assms(1-4) this] show ?thesis .
  qed
qed

lemma serve_safe_clean:
  assumes "me_store env = ops" "clean inv held (en_store e)" "clock_ok (me_later env) (c_ttl (en_config e))"
    and "handler_storable storable env (en_config e) r" "serve_safe env role sid r w e = Some (w', e')"
  shows "clean inv held (en_store e') \<and>
    (uncacheable env (en_config e) r \<longrightarrow> held_le (held (en_store e')) (held (en_store e)))"
proof -
  let ?cfg = "en_config e"
  obtain c s1 where look: "(if client_no_cache r then (None, en_store e)
      else cache_lookup env (is_request_authenticated ?cfg r) (is_route_public ?cfg (r_path r))
        (request_key (me_xx env) r) r (en_store e)) = (c, s1)" by fastforce
  have l: "clean inv held s1" "held_le (held s1) (held (en_store e))"
    using look assms(2) lookup_clean(1,2) [OF assms(1,2)] by (auto split: if_splits)
  show ?thesis
  proof (cases c)
    case (Some ent)
    with assms(5) look l show ?thesis
      by (auto simp: serve_safe_def Let_def dest!: record_and_prefetch_store)
  next
    case None
    let ?e1 = "e\<lparr>en_store := s1, en_telemetry := record_miss (en_telemetry e)\<rparr>"
    have e1: "clean inv held (en_store ?e1)" "en_config ?e1 = ?cfg" using l by simp_all
    from assms(5) look None have "coalesced_path env role sid r w ?e1 = Some (w', e') \<or>
        direct_path env sid r w ?e1 = Some (w', e')"
      by (auto simp: serve_safe_def Let_def split: if_splits)
    then have "clean inv held (en_store e') \<and>
        (uncacheable env ?cfg r \<longrightarrow> held_le (held (en_store e')) (held s1))"
      using coalesced_clean [OF assms(1) e1(1), of r role sid w w' e'] direct_clean [OF assms(1) e1(1), of r sid w w' e']
        assms(3,4) by auto
    with l(2) show ?thesis by (blast intro: held_le_trans)
  qed
qed

lemma middleware_clean:
  assumes "me_store env = ops" "clean inv held (en_store e)" "clock_ok (me_later env) (c_ttl (en_config e))"
    and "handler_storable storable env (en_config e) r" "middleware env role r w e = Some (w', e')"
  shows "clean inv held (en_store e') \<and>
    (never_cached env (en_config e) r \<longrightarrow> held_le (held (en_store e')) (held (en_store e)))"
proof -
  consider (same) "e' = e"
    | (pass) sid w2 where "pass_through env sid r w2 e = Some (w', e')"
    | (serve) sid w2 where "is_safe r" "\<not> bypasses r" "\<not> is_skipped (en_config e) r"
        "serve_safe env role sid r w2 e = Some (w', e')"
    using assms(5) by (auto simp: middleware_def Let_def split: prod.splits bool.splits if_splits)
  then show ?thesis
  proof cases
    case same
    with assms(2) show ?thesis by simp
  next
    case pass
    from pass_through_store [OF this] assms(2) show ?thesis by simp
  next
    case serve
    from serve_safe_clean [OF assms(1-4) serve(4)] serve(1-3) show ?thesis
      by (auto simp: never_cached_def)
  qed
qed

end

section \<open>What a request gets\<close>

lemma write_miss_fields [simp]:
  "cl_sent w = None \<Longrightarrow> cl_sent (write_miss st b w) = Some (st, hset ''X-Cache'' ''MISS'' (cl_header w))"
  "cl_body (write_miss st b w) = cl_body w @ b"
  by (simp_all add: write_miss_def)

lemma write_headers_fields [simp]:
  "cl_sent (write_headers h ct w) = cl_sent w" "cl_body (write_headers h ct w) = cl_body w"
  by (simp_all add: write_headers_def Let_def)

lemma prefetch_client:
  assumes "record_and_prefetch env sid r w e = Some (w', e')"
  shows "cl_sent w' = cl_sent w \<and> cl_body w' = cl_body w \<and>
    (\<forall>k. canon_key k \<noteq> ''Link'' \<longrightarrow> hvalues (cl_header w') k = hvalues (cl_header w) k)"
proof -
  have link: "canon_key ''Link'' = ''Link''" by code_simp
  have "w' = w \<or> (\<exists>l. w' = cl_add ''Link'' l w)"
    using assms by (auto simp: record_and_prefetch_def trigger_prefetch_def Let_def split: if_splits option.splits)
  then show ?thesis by (auto simp: hadd_def hvalues_def map_simps link)
qed

lemma visible_canonical: "canonical_header h \<Longrightarrow> canonical_header (visible_header h)"
  unfolding canonical_header_def visible_header_def
  by (auto simp: distinct_map_filter)

lemma written_header:
  assumes "canonical_header (visible_header hdr)" "\<not> is_internal_key k" "canon_key k \<noteq> ''X-Cache''" "canon_key k \<noteq> ''Content-Type''"
    and "hvalues (cl_header w) k = []"
  shows "hvalues (hset ''X-Cache'' ''MISS'' (cl_header (write_headers hdr ct w))) k = hvalues hdr k"
    and "hvalues (hset ''X-Cache'' ''MISS'' (cl_header (cl_add_all (visible_header hdr) w))) k = hvalues hdr k"
proof -
  have v: "hvalues (cl_header (cl_add_all (visible_header hdr) w)) k = hvalues hdr k"
    using assms(2,5) mget_visible [of "canon_key k" hdr]
    by (simp add: hvalues_add_all [OF assms(1)]) (simp add: hvalues_def)
  then show "hvalues (hset ''X-Cache'' ''MISS'' (cl_header (cl_add_all (visible_header hdr) w))) k = hvalues hdr k"
    using assms(3) by (simp add: hset_def hvalues_def map_simps)
  show "hvalues (hset ''X-Cache'' ''MISS'' (cl_header (write_headers hdr ct w))) k = hvalues hdr k"
    using v assms(3,4) by (simp add: write_headers_def Let_def hset_def hvalues_def map_simps)
qed

text \<open>
  A request that is not answered from the cache, on the way it takes alone or as the leader, gets the
  status, the body and the header values that the handler gives the server's own writer.
\<close>

definition same_answer :: "client \<Rightarrow> client \<Rightarrow> client \<Rightarrow> bool" where
  "same_answer w0 w d = (\<exists>code h h'. cl_sent d = Some (code, h) \<and> cl_sent w = Some (code, h') \<and>
     cl_body w = cl_body d \<and>
     (\<forall>k. \<not> is_internal_key k \<longrightarrow> canon_key k \<notin> {''X-Cache'', ''Content-Type'', ''Link''} \<longrightarrow>
        hvalues (cl_header w0) k = [] \<longrightarrow> hvalues h' k = hvalues h k))"

text \<open>The request handler is proper: headers, one \<open>WriteHeader\<close>, then writes and flushes.\<close>

definition proper :: "wop list \<Rightarrow> int \<Rightarrow> bool" where
  "proper ops code = (0 < code \<and> (\<exists>hs bs. ops = hs @ WriteHdr code # bs \<and> list_all is_header_op hs \<and>
     list_all is_body_op bs))"

lemma proper_mirrors:
  assumes "proper ops code" "cl_sent w = None" "cl_body w = []"
  shows "\<exists>h. canonical_header h \<and> mirrors h code w (run_ops ops (new_crw w m)) (run_direct ops (w\<lparr>cl_header := []\<rparr>))"
  using assms capture_mirrors unfolding proper_def by blast

lemma same_answer_stream:
  assumes "mirrors h code w c d" "canonical_header h" "rw_streaming c" "0 < code"
  shows "same_answer w (rw_w c) d"
proof -
  have "hvalues (cl_header (cl_add_all h w)) k = hvalues h k" if "hvalues (cl_header w) k = []" for k
    using that by (simp add: hvalues_add_all [OF assms(2)])
  with assms show ?thesis by (auto simp: same_answer_def mirrors_def)
qed

lemma same_answer_buffered:
  assumes "mirrors h code w c d" "canonical_header h" "\<not> rw_streaming c" "0 < code" "cl_sent w = None"
    "cl_body w = []" "record_and_prefetch env sid r w e = Some (w1, e')"
    and "visible_header hdr = visible_header (rw_header c)"
  shows "same_answer w (write_miss (status_code c) (body_bytes c) (write_headers hdr ct w1)) d"
    and "same_answer w (write_miss (status_code c) (body_bytes c) (cl_add_all (visible_header hdr) w1)) d"
proof -
  have m: "rw_header c = h" "rw_status c = code" "cl_sent d = Some (code, h)" "rw_buf c = cl_body d"
    using assms(1,3) by (simp_all add: mirrors_def)
  have can: "canonical_header (visible_header hdr)"
    using visible_canonical [OF assms(2)] assms(8) m(1) by simp
  have v: "hvalues hdr k = hvalues h k" if "\<not> is_internal_key k" for k
    using hvalues_visible [OF that assms(8)] m(1) by simp
  note p = prefetch_client [OF assms(7)]
  show "same_answer w (write_miss (status_code c) (body_bytes c) (write_headers hdr ct w1)) d"
    "same_answer w (write_miss (status_code c) (body_bytes c) (cl_add_all (visible_header hdr) w1)) d"
    using m p assms(4-6) written_header [OF can, of _ w1] v
    by (auto simp: same_answer_def status_code_def body_bytes_def)
qed

lemma direct_same_answer:
  assumes "proper (me_handler env r) code" "cl_sent w = None" "cl_body w = []"
    and "direct_path env sid r w e = Some (w', e')"
  shows "same_answer w w' (run_direct (me_handler env r) (w\<lparr>cl_header := []\<rparr>))"
proof -
  let ?c = "run_ops (me_handler env r) (new_crw w (c_max_response (en_config e)))"
  obtain h where h: "canonical_header h" "mirrors h code w ?c (run_direct (me_handler env r) (w\<lparr>cl_header := []\<rparr>))"
    using proper_mirrors [OF assms(1-3)] by blast
  have code: "0 < code" using assms(1) by (simp add: proper_def)
  have over: "rw_overflow ?c \<Longrightarrow> rw_streaming ?c"
    using crw_inv_run [OF crw_inv_new [of w "c_max_response (en_config e)"], of "me_handler env r"]
    by (simp add: crw_inv_def)
  show ?thesis
  proof (cases "rw_streaming ?c")
    case True
    with assms(4) have "w' = rw_w ?c" by (auto simp: direct_path_def Let_def dest: just_record_store)
    with same_answer_stream [OF h(2,1) True code] show ?thesis by simp
  next
    case False
    then have "\<not> rw_overflow ?c" using over by blast
    with False assms(4) obtain w1 e1 where "record_and_prefetch env sid r w e1 = Some (w1, e')"
      "w' = write_miss (status_code ?c) (body_bytes ?c) (write_headers (rw_header ?c) (hget (rw_header ?c) ''Content-Type'') w1)"
      by (auto simp: direct_path_def Let_def)
    with same_answer_buffered(1) [OF h(2,1) False code assms(2,3)] show ?thesis by blast
  qed
qed

context cache_store
begin

lemma leader_miss_answer:
  assumes "me_store env = ops" "clean inv held (en_store e)" "clock_ok (me_later env) (c_ttl (en_config e))"
    and "handler_storable storable env (en_config e) r"
  assumes "proper (me_handler env r) code" "cl_sent w = None" "cl_body w = []"
    and "fst (cache_lookup env (is_request_authenticated (en_config e) r)
      (is_route_public (en_config e) (r_path r)) (request_key (me_xx env) r) r (en_store e)) = None"
    and "coalesced_path env Lead sid r w e = Some (w', e')"
  shows "same_answer w w' (run_direct (me_handler env r) (w\<lparr>cl_header := []\<rparr>))"
proof -
  let ?cfg = "en_config e"
  let ?a = "is_request_authenticated ?cfg r" and ?p = "is_route_public ?cfg (r_path r)"
  let ?c = "run_ops (me_handler env r) (new_crw w (c_max_response ?cfg))"
  let ?ent = "make_entry (me_later env) (c_ttl ?cfg) r ?c"
  obtain h where h: "canonical_header h" "mirrors h code w ?c (run_direct (me_handler env r) (w\<lparr>cl_header := []\<rparr>))"
    using proper_mirrors [OF assms(5-7)] by blast
  have code: "0 < code" using assms(5) by (simp add: proper_def)
  have over: "rw_overflow ?c \<Longrightarrow> rw_streaming ?c" "rw_written ?c \<Longrightarrow> rw_streaming ?c"
    using crw_inv_run [OF crw_inv_new [of w "c_max_response ?cfg"], of "me_handler env r"]
    by (simp_all add: crw_inv_def)
  obtain s1 where look: "cache_lookup env ?a ?p (request_key (me_xx env) r) r (en_store e) = (None, s1)"
    using assms(8) by (metis prod.collapse)
  show ?thesis
  proof (cases "rw_streaming ?c")
    case True
    with assms(9) look have "just_record env sid r (rw_w ?c) (e\<lparr>en_store := s1\<rparr>) = Some (w', e')"
      by (simp add: coalesced_path_def leader_fn_def Let_def)
    then have "w' = rw_w ?c" by (auto dest: just_record_store)
    with same_answer_stream [OF h(2,1) True code] show ?thesis by simp
  next
    case False
    then have buf: "\<not> rw_overflow ?c" "\<not> rw_written ?c" using over by blast+
    show ?thesis
    proof (cases "can_cache ?a ?p ?c \<and> \<not> client_no_store r")
      case True
      obtain e1 s2 where st: "store_entry env (c_ttl ?cfg) (request_key (me_xx env) r)
          (hget (rw_header ?c) ''Vary'') r ?ent s1 = (e1, s2)" by fastforce
      have "serve_shared env sid r e1 w (e\<lparr>en_store := s2\<rparr>) = Some (w', e')"
        using assms(9) look False buf True st by (simp add: coalesced_path_def leader_fn_def Let_def)
      then obtain w1 where rp: "record_and_prefetch env sid r w (e\<lparr>en_store := s2\<rparr>) = Some (w1, e')"
        "w' = write_miss (e_status e1) (e_body e1) (write_headers (e_header e1) (e_ctype e1) w1)"
        by (auto simp: serve_shared_def)
      have ok: "storable ?ent" using assms(4) by (simp add: handler_storable_def)
      have "shareable ?ent" using True by (blast intro: can_cache_entry(1))
      from store_entry_clean [OF assms(1) lookup_clean(1) [OF assms(1,2) look] ok this assms(3) st]
      have "same_origin ?ent e1" by simp
      then have o: "e_status e1 = status_code ?c" "e_body e1 = body_bytes ?c"
        "visible_header (e_header e1) = visible_header (rw_header ?c)"
        by (simp_all add: same_origin_def make_entry_def)
      from same_answer_buffered(1) [OF h(2,1) False code assms(6,7) rp(1) o(3)] rp(2) o
      show ?thesis by simp
    next
      case no: False
      have "serve_own env sid r ?ent w (e\<lparr>en_store := s1\<rparr>) = Some (w', e')"
        using assms(9) look False buf no by (auto simp: coalesced_path_def leader_fn_def Let_def)
      then obtain w1 where "record_and_prefetch env sid r w (e\<lparr>en_store := s1\<rparr>) = Some (w1, e')"
        "w' = write_miss (status_code ?c) (body_bytes ?c) (cl_add_all (visible_header (rw_header ?c)) w1)"
        by (auto simp: serve_own_def make_entry_def)
      with same_answer_buffered(2) [OF h(2,1) False code assms(6,7)] show ?thesis by blast
    qed
  qed
qed

end

end
