(* ===== verification/Serving.thy ===== *)
theory Serving
  imports Middleware
begin

text \<open>
  What the middleware promises its clients: it always returns, it counts every request once, it never
  stores or shares what must not be shared, and a request that misses gets the handler's own response.
\<close>

section \<open>Every request returns\<close>

text \<open>
  The outcome of a stage that ran from engine \<open>e\<close>: it did not panic, the predictor's invariant and the
  configuration are kept, and the prefetcher got at most one batch of predictions.
\<close>

definition stage_ok ::
  "('p \<Rightarrow> bool) \<Rightarrow> request \<Rightarrow> ('s, 'p) engine \<Rightarrow> (client \<times> ('s, 'p) engine) option \<Rightarrow> bool" where
  "stage_ok I r e out = (case out of
     None \<Rightarrow> False
   | Some (w', e') \<Rightarrow> I (en_predictor e') \<and> en_config e' = en_config e \<and>
       (en_prefetcher e' = en_prefetcher e \<or> (\<exists>sid preds. predictions_ok preds \<and>
          en_prefetcher e' = map_option (pf_submit (Some (is_request_authenticated (en_config e))) sid preds r)
            (en_prefetcher e))))"

definition same_parts :: "('s, 'p) engine \<Rightarrow> ('s, 'p) engine \<Rightarrow> bool" where
  "same_parts e1 e = (en_config e1 = en_config e \<and> en_predictor e1 = en_predictor e \<and>
     en_prefetcher e1 = en_prefetcher e)"

lemma same_parts_simps [simp]:
  "same_parts e e" "same_parts (e\<lparr>en_store := s\<rparr>) e" "same_parts (e\<lparr>en_store := s, en_telemetry := t\<rparr>) e"
  by (simp_all add: same_parts_def)

lemma stage_ok_parts: "same_parts e1 e \<Longrightarrow> stage_ok I r e1 out \<Longrightarrow> stage_ok I r e out"
  by (auto simp: stage_ok_def same_parts_def split: option.splits)

lemma stage_ok_map:
  "stage_ok I r e out \<Longrightarrow> stage_ok I r e (map_option (\<lambda>(w1, e1). (f w1, e1)) out)"
  by (auto simp: stage_ok_def split: option.splits)

context predictor_contract
begin

lemma record_call_total:
  assumes "me_predictor env = ops" "inv (en_predictor e)"
  shows "\<exists>e'. record_call env sid r e = Some e' \<and> inv (en_predictor e') \<and>
    en_config e' = en_config e \<and> en_prefetcher e' = en_prefetcher e"
  using record_ok [OF assms(2), of sid "to_upper (r_method r)" "r_path r" "r_query r"] assms
  by (auto simp: record_call_def)

lemma just_record_total:
  assumes "me_predictor env = ops" "inv (en_predictor e)"
  shows "stage_ok inv r e (just_record env sid r w e)"
  using record_call_total [OF assms, of sid r] by (auto simp: just_record_def stage_ok_def)

lemma record_and_prefetch_total:
  assumes "me_predictor env = ops" "inv (en_predictor e)"
  shows "stage_ok inv r e (record_and_prefetch env sid r w e)"
proof (cases "is_speculative r")
  case True
  with assms(2) show ?thesis by (simp add: record_and_prefetch_def stage_ok_def)
next
  case False
  obtain e1 where e1: "record_call env sid r e = Some e1" "inv (en_predictor e1)" "en_config e1 = en_config e"
    "en_prefetcher e1 = en_prefetcher e"
    using record_call_total [OF assms, of sid r] by blast
  obtain ps where "pr_predict ops sid 3 (en_predictor e1) = Some ps" "predictions_ok ps"
    using predict_ok [OF e1(2), of 3 sid] by auto
  with False e1 assms(1) show ?thesis
    by (auto simp: record_and_prefetch_def trigger_prefetch_def stage_ok_def Let_def)
qed

lemma pass_through_total:
  assumes "me_predictor env = ops" "inv (en_predictor e)"
  shows "stage_ok inv r e (pass_through env sid r w e)"
  unfolding pass_through_def by (rule just_record_total [OF assms])

lemma serve_shared_total:
  assumes "me_predictor env = ops" "inv (en_predictor e)"
  shows "stage_ok inv r e (serve_shared env sid r ent w e)"
  unfolding serve_shared_def by (intro stage_ok_map record_and_prefetch_total assms)

lemma serve_own_total:
  assumes "me_predictor env = ops" "inv (en_predictor e)"
  shows "stage_ok inv r e (serve_own env sid r ent w e)"
  unfolding serve_own_def by (intro stage_ok_map record_and_prefetch_total assms)

lemma direct_path_total:
  assumes "me_predictor env = ops" "inv (en_predictor e)"
  shows "stage_ok inv r e (direct_path env sid r w e)"
proof -
  have parts: "stage_ok inv r e (map_option (\<lambda>(w1, e1). (f w1, e1)) (record_and_prefetch env sid r w e1))"
    if "same_parts e1 e" for e1 f
  proof (rule stage_ok_parts [OF that stage_ok_map [OF record_and_prefetch_total [OF assms(1)]]])
    show "inv (en_predictor e1)" using that assms(2) by (simp add: same_parts_def)
  qed
  show ?thesis
    using just_record_total [OF assms, of r sid] parts [of "e\<lparr>en_store := s\<rparr>" for s] parts [of e]
    by (simp add: direct_path_def Let_def)
qed

lemma coalesced_path_total:
  assumes "me_predictor env = ops" "inv (en_predictor e)"
  shows "stage_ok inv r e (coalesced_path env role sid r w e)"
proof (cases role)
  case Lead
  obtain entry err rec lent s1 where fn: "leader_fn env (en_config e) r w (en_store e) = (entry, err, rec, lent, s1)"
    by (cases "leader_fn env (en_config e) r w (en_store e)") auto
  let ?e1 = "e\<lparr>en_store := s1\<rparr>"
  have inv: "inv (en_predictor ?e1)" using assms(2) by simp
  have "stage_ok inv r ?e1 (coalesced_path env role sid r w e)"
    using fn Lead just_record_total [OF assms(1) inv] serve_shared_total [OF assms(1) inv]
      serve_own_total [OF assms(1) inv] direct_path_total [OF assms(1) inv]
    by (auto simp: coalesced_path_def Let_def split: option.splits co_error.splits)
  then show ?thesis by (rule stage_ok_parts [rotated]) simp
next
  case (Follow entry err)
  with serve_shared_total [OF assms] direct_path_total [OF assms] show ?thesis
    by (auto simp: coalesced_path_def split: option.splits)
qed

lemma serve_safe_total:
  assumes "me_predictor env = ops" "inv (en_predictor e)"
  shows "stage_ok inv r e (serve_safe env role sid r w e)"
proof -
  obtain hit s1 where look: "(if client_no_cache r then (None, en_store e)
      else cache_lookup env (is_request_authenticated (en_config e) r) (is_route_public (en_config e) (r_path r))
        (request_key (me_xx env) r) r (en_store e)) = (hit, s1)" by fastforce
  have parts: "stage_ok inv r e (map_option (\<lambda>(w1, e1). (f w1, e1)) (record_and_prefetch env sid r w e1))"
    "stage_ok inv r e (coalesced_path env role sid r w e1)" "stage_ok inv r e (direct_path env sid r w e1)"
    if "same_parts e1 e" for e1 f
  proof -
    have "inv (en_predictor e1)" using that assms(2) by (simp add: same_parts_def)
    from stage_ok_map [OF record_and_prefetch_total [OF assms(1) this]]
      coalesced_path_total [OF assms(1) this] direct_path_total [OF assms(1) this]
    show "stage_ok inv r e (map_option (\<lambda>(w1, e1). (f w1, e1)) (record_and_prefetch env sid r w e1))"
      "stage_ok inv r e (coalesced_path env role sid r w e1)" "stage_ok inv r e (direct_path env sid r w e1)"
      by (blast intro: stage_ok_parts [OF that])+
  qed
  show ?thesis
  proof (cases hit)
    case None
    with look parts(2,3) show ?thesis by (simp add: serve_safe_def Let_def)
  next
    case (Some ent)
    with look parts(1) show ?thesis by (simp add: serve_safe_def Let_def)
  qed
qed

lemma middleware_total:
  assumes "me_predictor env = ops" "inv (en_predictor e)"
  shows "stage_ok inv r e (middleware env role r w e)"
proof -
  have same: "stage_ok inv r e (Some (w1, e))" for w1 using assms(2) by (simp add: stage_ok_def)
  show ?thesis
    using pass_through_total [OF assms] serve_safe_total [OF assms] same
    by (auto simp: middleware_def Let_def split: prod.splits bool.splits)
qed

end

section \<open>The pipeline, request by request\<close>

text \<open>The default store: its operations, its invariant with every entry shareable, what it holds.\<close>

abbreviation default_ops :: "(string \<Rightarrow> 64 word) \<Rightarrow> sharded_store tiered_store store_ops" where
  "default_ops xx \<equiv> tiered_ops xx (sharded_ops xx)"

abbreviation store_clean :: "sharded_store tiered_store \<Rightarrow> bool" where
  "store_clean \<equiv> clean (tiered_inv sharded_inv) (tiered_held sharded_held)"

abbreviation store_held :: "sharded_store tiered_store \<Rightarrow> 64 word holding" where
  "store_held \<equiv> tiered_held sharded_held"

text \<open>The look-up a request makes, and the requests that get past the early returns.\<close>

definition look :: "('s, 'p) mw_env \<Rightarrow> config \<Rightarrow> request \<Rightarrow> 's \<Rightarrow> entry option \<times> 's" where
  "look env cfg r s = cache_lookup env (is_request_authenticated cfg r) (is_route_public cfg (r_path r))
     (request_key (me_xx env) r) r s"

definition is_asset :: "request \<Rightarrow> bool" where
  "is_asset r = (r_path r \<in> {''/precog/precog.js'', ''/precog/wasm_exec.js'', ''/precog/precog.wasm''})"

definition served :: "config \<Rightarrow> request \<Rightarrow> bool" where
  "served cfg r = (\<not> is_asset r \<and> \<not> is_skipped cfg r \<and> is_safe r \<and> \<not> bypasses r)"

lemma serve_client_assets_eq: "fst (serve_client_assets a r w) = is_asset r"
  "\<not> is_asset r \<Longrightarrow> serve_client_assets a r w = (False, w)"
  by (simp_all add: serve_client_assets_def is_asset_def split: option.splits)

lemma middleware_served:
  assumes "served (en_config e) r"
  obtains sid c where "\<And>role. middleware env role r w e = serve_safe env role sid r
    (if c = [] then w else cl_add ''Set-Cookie'' c w) e"
proof -
  let ?found = "extract_session (en_config e) r"
  let ?sid = "if ?found = [] then generate_session_id (me_rand env) else ?found"
  let ?c = "if ?found = [] then session_cookie (en_config e) ?sid else []"
  have "middleware env role r w e = serve_safe env role ?sid r (if ?c = [] then w else cl_add ''Set-Cookie'' ?c w) e"
    for role
    using assms by (simp add: middleware_def serve_client_assets_eq served_def Let_def write_session_cookie_def)
  with that show thesis by blast
qed

lemma middleware_not_served:
  assumes "\<not> served (en_config e) r" "middleware env role r w e = Some (w', e')"
  shows "en_store e' = en_store e \<and> en_telemetry e' = en_telemetry e"
proof (cases "is_asset r \<or> is_skipped (en_config e) r")
  case True
  with assms(2) serve_client_assets_eq(1) [of "me_assets env" r w] show ?thesis
    by (auto simp: middleware_def split: prod.splits bool.splits if_splits)
next
  case False
  with assms(1) have "\<not> is_safe r \<or> bypasses r" by (simp add: served_def)
  with assms(2) False show ?thesis
    by (auto simp: middleware_def serve_client_assets_eq Let_def dest!: pass_through_store)
qed

lemma no_internal_add:
  assumes "\<forall>k \<in> set (map fst (cl_header w)). \<not> is_internal_key k" "\<not> is_internal_key k"
  shows "\<forall>k \<in> set (map fst (cl_header (cl_add k v w))). \<not> is_internal_key k"
  using assms keys_mput [of "canon_key k" "hvalues (cl_header w) k @ [v]" "cl_header w"]
  by (auto simp: hadd_def)

lemma not_internal_added: "\<not> is_internal_key ''Set-Cookie''" "\<not> is_internal_key ''Link''"
  by code_simp+

lemma prefetch_no_internal:
  assumes "record_and_prefetch env sid r w e = Some (w', e')"
    and "\<forall>k \<in> set (map fst (cl_header w)). \<not> is_internal_key k"
  shows "\<forall>k \<in> set (map fst (cl_header w')). \<not> is_internal_key k"
proof -
  have "w' = w \<or> (\<exists>l. w' = cl_add ''Link'' l w)"
    using assms(1) by (auto simp: record_and_prefetch_def trigger_prefetch_def Let_def split: if_splits option.splits)
  with no_internal_add [OF assms(2) not_internal_added(2)] assms(2) show ?thesis by blast
qed

lemma serve_hit:
  assumes "\<not> client_no_cache r" "look env (en_config e) r (en_store e) = (Some ent, s1)"
    and "serve_safe env role sid r w e = Some (w', e')" "cl_sent w = None" "cl_body w = []"
    and "\<forall>k \<in> set (map fst (cl_header w)). \<not> is_internal_key k"
  shows "\<exists>h. cl_sent w' = Some (if 0 < e_status ent then e_status ent else 200, h) \<and> cl_body w' = e_body ent \<and>
    hget h ''X-Cache'' = ''HIT'' \<and> (\<forall>k \<in> set (map fst h). \<not> is_internal_key k) \<and>
    en_telemetry e' = record_hit (en_telemetry e) \<and> en_store e' = s1"
proof -
  obtain w1 where w1: "record_and_prefetch env sid r w
      (e\<lparr>en_store := s1, en_telemetry := record_hit (en_telemetry e)\<rparr>) = Some (w1, e')" "w' = write_response ent w1"
    using assms(1-3) by (auto simp: serve_safe_def look_def Let_def)
  have "cl_sent w1 = None" "cl_body w1 = []" using prefetch_client [OF w1(1)] assms(4,5) by simp_all
  from write_response_facts [OF this prefetch_no_internal [OF w1(1) assms(6)], of ent]
  show ?thesis using w1(2) record_and_prefetch_store [OF w1(1)] by auto
qed

lemma direct_path_telemetry:
  "direct_path env sid r w e = Some (w', e') \<Longrightarrow> en_telemetry e' = en_telemetry e"
  by (auto simp: direct_path_def Let_def dest!: just_record_store record_and_prefetch_store split: if_splits)

lemma coalesced_path_telemetry:
  assumes "coalesced_path env role sid r w e = Some (w', e')"
  shows "en_telemetry e' = en_telemetry e"
proof (cases role)
  case Lead
  obtain entry err rec lent s1 where fn: "leader_fn env (en_config e) r w (en_store e) = (entry, err, rec, lent, s1)"
    by (cases "leader_fn env (en_config e) r w (en_store e)") auto
  show ?thesis
    using assms Lead fn
    by (auto simp: coalesced_path_def Let_def
        dest!: just_record_store serve_shared_store serve_own_store direct_path_telemetry
        split: option.splits co_error.splits if_splits)
next
  case (Follow entry err)
  with assms show ?thesis
    by (auto simp: coalesced_path_def dest!: serve_shared_store direct_path_telemetry split: option.splits)
qed

lemma serve_miss_telemetry:
  assumes "client_no_cache r \<or> fst (look env (en_config e) r (en_store e)) = None"
    and "serve_safe env role sid r w e = Some (w', e')"
  shows "en_telemetry e' = record_miss (en_telemetry e)"
proof -
  obtain s1 where "(if client_no_cache r then (None, en_store e)
      else cache_lookup env (is_request_authenticated (en_config e) r) (is_route_public (en_config e) (r_path r))
        (request_key (me_xx env) r) r (en_store e)) = (None, s1)"
    using assms(1) by (cases "client_no_cache r"; cases "look env (en_config e) r (en_store e)") (auto simp: look_def)
  then show ?thesis
    using assms(2) by (auto simp: serve_safe_def Let_def dest!: coalesced_path_telemetry direct_path_telemetry split: if_splits)
qed

text \<open>A miss, alone or as the leader, gives the client the handler's own response.\<close>

definition unshared :: "co_role \<Rightarrow> bool" where
  "unshared role = (case role of Lead \<Rightarrow> True | Follow entry err \<Rightarrow> entry = None \<or> err \<noteq> None)"

context cache_store
begin

lemma serve_miss:
  assumes "me_store env = ops" "clean inv held (en_store e)" "clock_ok (me_later env) (c_ttl (en_config e))"
    and "handler_storable storable env (en_config e) r" "proper (me_handler env r) code"
    and "cl_sent w = None" "cl_body w = []" "unshared role"
    and "\<forall>s \<in> {en_store e, snd (look env (en_config e) r (en_store e))}. fst (look env (en_config e) r s) = None"
    and "serve_safe env role sid r w e = Some (w', e')"
  shows "same_answer w w' (run_direct (me_handler env r) (w\<lparr>cl_header := []\<rparr>))"
proof -
  obtain s1 where s1: "look env (en_config e) r (en_store e) = (None, s1)"
    using assms(9) by (cases "look env (en_config e) r (en_store e)") auto
  define s2 where "s2 = (if client_no_cache r then en_store e else s1)"
  let ?e = "e\<lparr>en_store := s2, en_telemetry := record_miss (en_telemetry e)\<rparr>"
  have miss: "fst (look env (en_config e) r s2) = None" using assms(9) s1 by (simp add: s2_def)
  have clean: "clean inv held (en_store ?e)"
    using assms(2) lookup_clean(1) [OF assms(1,2)] s1 by (simp add: s2_def look_def)
  have "coalesced_path env role sid r w ?e = Some (w', e') \<or> direct_path env sid r w ?e = Some (w', e')"
    using assms(10) s1 by (auto simp: serve_safe_def look_def s2_def Let_def split: if_splits)
  then consider (co) "role = Lead" "coalesced_path env Lead sid r w ?e = Some (w', e')"
    | (own) "direct_path env sid r w ?e = Some (w', e')"
    using assms(8) by (cases role) (auto simp: coalesced_path_def unshared_def split: option.splits)
  then show ?thesis
  proof cases
    case co
    show ?thesis
      using leader_miss_answer [OF assms(1) clean _ _ assms(5-7) _ co(2)] assms(3,4) miss
      by (simp add: look_def)
  next
    case own
    then show ?thesis by (rule direct_same_answer [OF assms(5-7)])
  qed
qed

end

section \<open>Coalescing keys\<close>

definition shared_eligible :: "config \<Rightarrow> request \<Rightarrow> bool" where
  "shared_eligible cfg r = (\<not> client_no_cache r \<and> \<not> client_no_store r \<and>
     (is_route_public cfg (r_path r) \<or> (\<not> is_request_authenticated cfg r \<and> cookies r = [])))"

lemma length_request_key: "length (request_key xx r) = 16"
  by (simp add: request_key_def canonical_cache_key_with_host_def hex_key_def length_hex_loop)

lemma coalesce_key_cases:
  "coalesce_key xx cfg sid r = (if shared_eligible cfg r then request_key xx r
     else if is_request_authenticated cfg r \<and> c_coalesce_auth cfg then request_key xx r @ '':user:'' @ sid else [])"
  by (simp add: coalesce_key_def shared_eligible_def Let_def)

lemma coalesce_key_eq:
  assumes "coalesce_key xx cfg sid1 r1 = coalesce_key xx cfg sid2 r2" "coalesce_key xx cfg sid1 r1 \<noteq> []"
  shows "request_key xx r1 = request_key xx r2 \<and> (shared_eligible cfg r1 \<and> shared_eligible cfg r2 \<or>
    \<not> shared_eligible cfg r1 \<and> \<not> shared_eligible cfg r2 \<and> is_request_authenticated cfg r1 \<and>
    is_request_authenticated cfg r2 \<and> c_coalesce_auth cfg \<and> sid1 = sid2)"
proof -
  have l: "length (coalesce_key xx cfg sid r) = (if shared_eligible cfg r then 16 else if
      is_request_authenticated cfg r \<and> c_coalesce_auth cfg then 22 + length sid else 0)" for sid r
    by (simp add: coalesce_key_cases length_request_key)
  have "length (coalesce_key xx cfg sid1 r1) = length (coalesce_key xx cfg sid2 r2)" using assms(1) by simp
  moreover have "length (coalesce_key xx cfg sid1 r1) \<noteq> 0" using assms(2) by simp
  ultimately have "shared_eligible cfg r1 = shared_eligible cfg r2 \<and> (shared_eligible cfg r1 \<or>
      (is_request_authenticated cfg r1 \<and> is_request_authenticated cfg r2 \<and> c_coalesce_auth cfg))"
    unfolding l by (auto split: if_splits)
  with assms(1) show ?thesis
    by (auto simp: coalesce_key_cases length_request_key append_eq_append_conv)
qed

section \<open>Properties\<close>

text \<open>An engine with the default store and predictor in front of a handler that answers plain text.\<close>

definition plain_mw :: "(sharded_store tiered_store, dense) mw_env" where
  "plain_mw = \<lparr>me_xx = (\<lambda>_. 7), me_store = default_ops (\<lambda>_. 7),
     me_predictor = dense_ops (\<lambda>_. 7) (\<lambda>_. 0) (stable_desc snd),
     me_assets = \<lparr>a_script = [], a_wasm_exec = [], a_wasm = None\<rparr>,
     me_handler = (\<lambda>r. [SetHdr ''Content-Type'' ''text/plain'', WriteHdr 200, WriteB ''hi'']),
     me_now = 5, me_later = 6, me_rand = []\<rparr>"

definition plain_get :: "string \<Rightarrow> request" where
  "plain_get path = \<lparr>r_method = ''GET'', r_host = ''h'', r_path = path, r_query = [], r_header = []\<rparr>"

lemma default_engine_fields [simp]:
  "en_store (default_engine cfg) = new_tiered_store (new_sharded_store None)"
  "en_predictor (default_engine cfg) = new_dense None"
  "en_config (default_engine cfg) = with_defaults cfg"
  "en_prefetcher (default_engine cfg) = None" "en_telemetry (default_engine cfg) = new_telemetry"
  by (simp_all add: default_engine_def new_engine_def)

lemma new_dense_inv: "dense_inv (new_dense None)"
  by (rule dense_inv_new) (simp add: routes_ok_def)

lemma plain_mw_fields [simp]:
  "me_store plain_mw = default_ops (\<lambda>_. 7)" "me_predictor plain_mw = dense_ops (\<lambda>_. 7) (\<lambda>_. 0) (stable_desc snd)"
  "me_xx plain_mw = (\<lambda>_. 7)" "me_now plain_mw = 5" "me_later plain_mw = 6"
  "me_handler plain_mw r = [SetHdr ''Content-Type'' ''text/plain'', WriteHdr 200, WriteB ''hi'']"
  by (simp_all add: plain_mw_def)

lemma plain_run:
  "\<exists>b. length b < 100 \<and> body_bytes (run_ops (me_handler plain_mw r) (new_crw w m)) = b \<and>
    status_code (run_ops (me_handler plain_mw r) (new_crw w m)) = 200 \<and>
    rw_header (run_ops (me_handler plain_mw r) (new_crw w m)) = [(''Content-Type'', [''text/plain''])]"
proof -
  have t: "canon_key ''Content-Type'' = ''Content-Type''" "canon_key ''Upgrade'' = ''Upgrade''"
    "\<not> has_prefix ''text/plain'' ''text/event-stream''" by code_simp+
  show ?thesis
    by (simp add: run_ops_def new_crw_def crw_write_header_def crw_write_def crw_commit_def crw_drain_def
        crw_through_def body_bytes_def status_code_def hset_def hget_def hvalues_def t Let_def)
qed

lemma plain_handler_storable: "handler_storable storable plain_mw cfg r"
  unfolding handler_storable_def
proof (intro allI)
  fix w m
  obtain b where b: "length b < 100" "body_bytes (run_ops (me_handler plain_mw r) (new_crw w m)) = b"
    "status_code (run_ops (me_handler plain_mw r) (new_crw w m)) = 200"
    "rw_header (run_ops (me_handler plain_mw r) (new_crw w m)) = [(''Content-Type'', [''text/plain''])]"
    using plain_run by blast
  show "storable (make_entry (me_later plain_mw) (c_ttl cfg) r (run_ops (me_handler plain_mw r) (new_crw w m)))"
    using plain_entry_storable [OF b(1)] b(2-4)
    by (simp add: make_entry_def no_vary_header extract_vary_map_def plain_content_type)
qed

lemma default_ttl: "c_ttl (with_defaults sample_config) = 60000000000"
  by (simp add: with_defaults_def sample_config_def)






definition plain_entry :: entry where
  "plain_entry = \<lparr>e_body = ''hello'', e_header = [(''Content-Type'', [''text/plain''])], e_ctype = ''text/plain'',
     e_status = 200, e_created = 0, e_expires = Some 10, e_vary = []\<rparr>"

lemma plain_entry_ok: "storable plain_entry"
  unfolding plain_entry_def by (rule plain_entry_storable) simp

lemma plain_set:
  obtains e' t' where "tiered_set xx (sharded_ops xx) 0 k plain_entry 10 (new_tiered_store (new_sharded_store None)) =
    (True, e', t')"
proof -
  have clk: "clock_ok 0 10" by (simp add: clock_ok_def)
  have p: "persist_vary plain_entry = e_header plain_entry" by (simp add: persist_vary_def plain_entry_def)
  have "entry_len plain_entry < 500"
    by (simp add: plain_entry_def entry_len_def entryHeaderSize_def encode_headers_def encode_kv_def encode_values_def)
  then have "fst (set_by_hash 0 (xx k) plain_entry 10 (new_sharded_store None))"
    using set_by_hash_accepts [OF sharded_inv_new plain_entry_ok clk, of "xx k"] p by (simp add: shard_for_new)
  then obtain e' l2 where set: "set_by_hash 0 (xx k) plain_entry 10 (new_sharded_store None) = (True, e', l2)"
    by (metis prod.collapse)
  have x: "plain_entry\<lparr>e_expires := Some 10\<rparr> = plain_entry" by (simp add: plain_entry_def)
  show thesis
    by (rule that [of e']) (simp add: tiered_set_def new_tiered_store_def sharded_ops_def x set)
qed

lemma plain_get_served: "served (with_defaults sample_config) (plain_get ''/pub/x'')" "\<not> client_no_cache (plain_get ''/pub/x'')"
  "is_route_public (with_defaults sample_config) ''/pub/x''"
proof -
  have "c_skip_routes (with_defaults sample_config) = [''/admin'']" "c_public_routes (with_defaults sample_config) = [''/pub'']"
    by (simp_all add: with_defaults_def sample_config_def)
  moreover have "\<not> has_prefix ''/pub/x'' ''/admin''" "has_prefix ''/pub/x'' ''/pub''" "is_safe (plain_get ''/pub/x'')"
    "\<not> bypasses (plain_get ''/pub/x'')" "\<not> is_asset (plain_get ''/pub/x'')" by code_simp+
  ultimately show "served (with_defaults sample_config) (plain_get ''/pub/x'')"
    "is_route_public (with_defaults sample_config) ''/pub/x''"
    by (simp_all add: served_def is_skipped_def is_route_public_def plain_get_def)
  show "\<not> client_no_cache (plain_get ''/pub/x'')" by code_simp
qed

lemma plain_total:
  assumes "dense_inv (en_predictor e)"
  obtains w' e' where "middleware plain_mw role r w e = Some (w', e')"
  using dense.contract.middleware_total [of plain_mw "\<lambda>_. 7" "\<lambda>_. 0" e r role w] assms
  by (auto simp: stage_ok_def split: option.splits)

lemma plain_hit:
  assumes "is_route_public cfg (r_path r)"
  obtains ent t t1 where "store_clean t" "look plain_mw cfg r t = (Some ent, t1)"
proof -
  let ?k = "request_key (\<lambda>_. 7) r"
  have clk: "clock_ok 0 10" by (simp add: clock_ok_def)
  obtain ent t where set: "tiered_set (\<lambda>_. 7) (sharded_ops (\<lambda>_. 7)) 0 ?k plain_entry 10
      (new_tiered_store (new_sharded_store None)) = (True, ent, t)" by (rule plain_set)
  then have st: "st_set (default_ops (\<lambda>_. 7)) 0 ?k plain_entry 10 (new_tiered_store (new_sharded_store None)) = (True, ent, t)"
    by (simp add: tiered_ops_def)
  have "shareable plain_entry" by code_simp
  note c = sharded.tiered.clean_set [OF new_store_clean plain_entry_ok clk this st]
  obtain t1 where get: "st_get (default_ops (\<lambda>_. 7)) 5 ?k t = (Some ent, t1)"
    using sharded.tiered_set_keeps(3) [OF tiered_new_inv plain_entry_ok clk set, of 5]
    by (cases "tiered_get (\<lambda>_. 7) (sharded_ops (\<lambda>_. 7)) 5 ?k t") (auto simp: tiered_ops_def fresh_def deadline_def)
  have "hvalues (e_header ent) ''Vary'' = hvalues (e_header plain_entry) ''Vary''"
    using c(5) by (intro hvalues_visible) (simp_all add: same_origin_def)
  then have v: "hget (e_header ent) ''Vary'' = []" "e_vary ent = []"
    using no_vary_header [of "[''text/plain'']"] c(5) by (simp_all add: hget_def plain_entry_def same_origin_def)
  have "look plain_mw cfg r t = (Some ent, t1)"
    using get v assms
    by (simp add: look_def cache_lookup_def cache_candidate_def may_serve_def matches_vary_def Let_def)
  with c(1) that show thesis by blast
qed




text \<open>
  C24: every served request is counted once, as a hit exactly if its look-up found an entry it may be
  served, and as a miss otherwise; requests that are skipped, passed through or answered with an asset
  are not counted, and neither the coalescer nor the double check of the leader counts again.
\<close>

theorem middleware_counts_once:
  assumes "middleware env role r w e = Some (w', e')" "cl_sent w = None" "cl_body w = []" "cl_header w = []"
  shows "en_telemetry e' = (if \<not> served (en_config e) r then en_telemetry e
    else if \<not> client_no_cache r \<and> fst (look env (en_config e) r (en_store e)) \<noteq> None
    then record_hit (en_telemetry e) else record_miss (en_telemetry e))"
proof (cases "served (en_config e) r")
  case False
  with middleware_not_served [OF this assms(1)] show ?thesis by simp
next
  case True
  obtain sid c where "middleware env role r w e = serve_safe env role sid r
      (if c = [] then w else cl_add ''Set-Cookie'' c w) e"
    using middleware_served [OF True] by metis
  moreover define w2 where "w2 = (if c = [] then w else cl_add ''Set-Cookie'' c w)"
  ultimately have run: "serve_safe env role sid r w2 e = Some (w', e')" using assms(1) by simp
  show ?thesis
  proof (cases "\<not> client_no_cache r \<and> fst (look env (en_config e) r (en_store e)) \<noteq> None")
    case hit: True
    then obtain ent s1 where l: "look env (en_config e) r (en_store e) = (Some ent, s1)"
      by (cases "look env (en_config e) r (en_store e)") auto
    have "\<forall>k \<in> set (map fst (cl_header w2)). \<not> is_internal_key k" "cl_sent w2 = None" "cl_body w2 = []"
      using no_internal_add [of w "''Set-Cookie''" c] assms(2-4) not_internal_added(1) by (simp_all add: w2_def)
    from serve_hit [OF _ l run this(2,3,1)] hit True show ?thesis by auto
  next
    case False
    then have "client_no_cache r \<or> fst (look env (en_config e) r (en_store e)) = None" by blast
    from serve_miss_telemetry [OF this run] False True show ?thesis by auto
  qed
qed

theorem middleware_counts_once_witness:
  "\<exists>w' e'. middleware plain_mw Lead (plain_get ''/admin/x'') new_client (default_engine sample_config) = Some (w', e') \<and>
    en_telemetry e' = new_telemetry"
proof -
  have "has_prefix ''/admin/x'' ''/admin''" by code_simp
  moreover have "c_skip_routes (with_defaults sample_config) = [''/admin'']"
    by (simp add: with_defaults_def sample_config_def)
  ultimately have n: "\<not> served (with_defaults sample_config) (plain_get ''/admin/x'')"
    by (simp add: served_def is_skipped_def plain_get_def)
  obtain w' e' where run: "middleware plain_mw Lead (plain_get ''/admin/x'') new_client (default_engine sample_config) =
      Some (w', e')"
    by (rule plain_total [of "default_engine sample_config" Lead "plain_get ''/admin/x''" new_client])
      (simp_all add: new_dense_inv)
  from middleware_counts_once [OF run] n run show ?thesis by (simp add: new_client_def)
qed

text \<open>
  C9: coalescing isolates clients: two requests share an in-flight call only if they have the same cache
  key and either both may share (no \<open>no-cache\<close> or \<open>no-store\<close>, and a public route or neither credentials
  nor cookies), or coalescing of authenticated requests was switched on, both are authenticated and both
  have the same session. No crafted session or path can make the two kinds of key collide.
\<close>

theorem coalescing_isolates:
  assumes "coalesce_key xx cfg sid1 r1 = coalesce_key xx cfg sid2 r2" "coalesce_key xx cfg sid1 r1 \<noteq> []"
  shows "request_key xx r1 = request_key xx r2 \<and> (shared_eligible cfg r1 \<and> shared_eligible cfg r2 \<or>
    c_coalesce_auth cfg \<and> is_request_authenticated cfg r1 \<and> is_request_authenticated cfg r2 \<and> sid1 = sid2)"
  using coalesce_key_eq [OF assms] by blast

theorem coalescing_isolates_witness:
  "coalesce_key (\<lambda>_. 7) (with_defaults sample_config) ''s'' (plain_get ''/pub/x'') \<noteq> [] \<and>
    shared_eligible (with_defaults sample_config) (plain_get ''/pub/x'')"
proof -
  have "\<not> client_no_store (plain_get ''/pub/x'')" by code_simp
  then have e: "shared_eligible (with_defaults sample_config) (plain_get ''/pub/x'')"
    using plain_get_served(2,3) by (simp add: shared_eligible_def plain_get_def)
  then have "length (coalesce_key (\<lambda>_. 7) (with_defaults sample_config) ''s'' (plain_get ''/pub/x'')) = 16"
    by (simp add: coalesce_key_cases length_request_key)
  then have n: "coalesce_key (\<lambda>_. 7) (with_defaults sample_config) ''s'' (plain_get ''/pub/x'') \<noteq> []" by auto
  have "\<not> c_coalesce_auth (with_defaults sample_config)" by (simp add: with_defaults_def sample_config_def)
  with coalescing_isolates [OF refl n] n show ?thesis by blast
qed

text \<open>
  C10: what a follower gets from its leader is allowed: when a leader's \<open>fn\<close> ends, a follower of the same
  in-flight call on the same path either gets an entry that is shareable and that it may see (public, or
  the follower is not authenticated), with exactly the entry's body, or, when the leader's response was
  private, uncacheable or streamed, it runs the handler for itself.
\<close>

theorem follower_gets_only_shareable:
  assumes "me_store env = default_ops xx" "store_clean s" "clock_ok (me_later env) (c_ttl cfg)"
    and "handler_storable storable env cfg r1"
    and "leader_fn env cfg r1 w1 s = (entry, err, rec, lent, s')"
    and "coalesce_key (me_xx env) cfg sid1 r1 = coalesce_key (me_xx env) cfg sid2 r2"
    and "coalesce_key (me_xx env) cfg sid1 r1 \<noteq> []" "r_path r1 = r_path r2"
    and "coalesced_path env (Follow entry err) sid2 r2 w e = Some (w', e')" "cl_body w = []"
  shows "case entry of
      Some ent \<Rightarrow> shareable ent \<and> allowed cfg r2 ent \<and> cl_body w' = e_body ent
    | None \<Rightarrow> direct_path env sid2 r2 w e = Some (w', e')"
proof (cases entry)
  case None
  with assms(9) show ?thesis by (simp add: coalesced_path_def split: option.splits)
next
  case (Some ent)
  note l = sharded.tiered.leader_clean(3) [OF assms(1-5) Some]
  have "allowed cfg r2 ent"
    using coalesce_key_eq [OF assms(6,7)] l assms(8) by (auto simp: shared_eligible_def allowed_def)
  moreover from assms(9) Some l have "serve_shared env sid2 r2 ent w e = Some (w', e')"
    by (simp add: coalesced_path_def)
  then have "cl_body w' = e_body ent"
    using assms(10) by (auto simp: serve_shared_def dest!: prefetch_client)
  ultimately show ?thesis using Some l by simp
qed

theorem follower_gets_only_shareable_witness:
  "\<exists>entry err rec lent s' w' e'.
    leader_fn plain_mw (with_defaults sample_config) (plain_get ''/pub/x'') new_client (new_tiered_store (new_sharded_store None)) =
      (entry, err, rec, lent, s') \<and>
    coalesced_path plain_mw (Follow entry err) ''u'' (plain_get ''/pub/x'') new_client (default_engine sample_config) = Some (w', e') \<and>
    (case entry of Some ent \<Rightarrow> shareable ent | None \<Rightarrow> True)"
proof -
  let ?r = "plain_get ''/pub/x''" and ?cfg = "with_defaults sample_config"
  obtain entry err rec lent s' where fn: "leader_fn plain_mw ?cfg ?r new_client (new_tiered_store (new_sharded_store None)) =
      (entry, err, rec, lent, s')" by (metis prod_cases5)
  have "stage_ok dense_inv ?r (default_engine sample_config)
      (coalesced_path plain_mw (Follow entry err) ''u'' ?r new_client (default_engine sample_config))"
    by (rule dense.contract.coalesced_path_total) (simp_all add: new_dense_inv)
  then obtain w' e' where run: "coalesced_path plain_mw (Follow entry err) ''u'' ?r new_client (default_engine sample_config) =
      Some (w', e')" by (auto simp: stage_ok_def split: option.splits)
  have "\<not> client_no_store ?r" by code_simp
  then have "shared_eligible ?cfg ?r" using plain_get_served(2,3) by (simp add: shared_eligible_def plain_get_def)
  then have k: "coalesce_key (me_xx plain_mw) ?cfg ''u'' ?r \<noteq> []" "coalesce_key (me_xx plain_mw) ?cfg ''s'' ?r =
      coalesce_key (me_xx plain_mw) ?cfg ''u'' ?r"
    using length_request_key [of "\<lambda>_. 7" ?r] by (auto simp: coalesce_key_cases)
  have clk: "clock_ok (me_later plain_mw) (c_ttl ?cfg)" by (simp add: clock_ok_def default_ttl)
  have "coalesce_key (me_xx plain_mw) ?cfg ''s'' ?r \<noteq> []" using k by simp
  from follower_gets_only_shareable [OF plain_mw_fields(1) new_store_clean clk plain_handler_storable fn k(2) this refl run]
  show ?thesis using fn run by (auto simp: new_client_def split: option.splits)
qed


definition user_config :: config where
  "user_config = sample_config\<lparr>c_is_authenticated := Some (\<lambda>r. True), c_coalesce_auth := True\<rparr>"


text \<open>
  only the first \<open>Cache-Control\<close> line counts, and directives are compared case-sensitively: a
  response with a second line \<open>private\<close>, and one that says \<open>No-Store\<close>, are taken for cacheable; so is a
  response that lists \<open>*\<close> among other names in \<open>Vary\<close>.
\<close>

theorem cacheability_gaps:
  "can_cache False False (run_ops [AddHdr ''Cache-Control'' ''max-age=60'', AddHdr ''Cache-Control'' ''private'',
      WriteHdr 200, WriteB ''x''] (new_crw new_client 10)) \<and>
   can_cache False False (run_ops [SetHdr ''Cache-Control'' ''No-Store'', WriteHdr 200] (new_crw new_client 10)) \<and>
   can_cache False False (run_ops [SetHdr ''Vary'' ''Accept, *'', WriteHdr 200] (new_crw new_client 10))"
  by code_simp


end
