(* ===== verification/System.thy ===== *)
theory System
  imports Serving
begin

text \<open>
  The engine as a whole: requests, prefetch workers, \<open>Handler\<close> and \<open>Close\<close> as steps of one transition
  system, in any order and number, and the invariants of every state it reaches. One step is one request
  or one job from start to end: between the store's, the predictor's and the queue's own critical sections
  the code does not depend on what other goroutines do, except through the outcome a follower is handed,
  which is arbitrary here.
\<close>

section \<open>Steps\<close>

text \<open>
  The body of \<open>worker\<close> after it received a job, with the callback \<open>Handler\<close> installs; nothing happens when
  there is no prefetcher or no job. \<open>None\<close> is a panic of the worker.
\<close>

definition engine_work :: "'s prefetch_env \<Rightarrow> int \<Rightarrow> ('s, 'p) engine \<Rightarrow> ('s, 'p) engine option" where
  "engine_work env now e = (case en_prefetcher e of
     None \<Rightarrow> Some e
   | Some p \<Rightarrow>
      (case pf_queue p of
         [] \<Rightarrow> Some e
       | job # rest \<Rightarrow> map_option
           (\<lambda>(warmed, s'). e\<lparr>en_prefetcher := Some (p\<lparr>pf_queue := rest\<rparr>), en_store := s',
              en_telemetry := (if warmed then record_prefetch (en_telemetry e) else en_telemetry e)\<rparr>)
           (pf_execute env now job (en_store e))))"

text \<open>
  \<open>A\<close> restricts the environments and requests, \<open>B\<close> the environments of the workers; the handler and the
  clock may differ from step to step.
\<close>

inductive engine_step ::
  "(('s, 'p) mw_env \<Rightarrow> request \<Rightarrow> bool) \<Rightarrow> ('s prefetch_env \<Rightarrow> int \<Rightarrow> bool) \<Rightarrow> 's store_ops \<Rightarrow>
     ('s, 'p) engine \<Rightarrow> ('s, 'p) engine \<Rightarrow> bool"
  for A :: "('s, 'p) mw_env \<Rightarrow> request \<Rightarrow> bool" and B :: "'s prefetch_env \<Rightarrow> int \<Rightarrow> bool" and ops :: "'s store_ops"
  where
  handler: "engine_step A B ops e (engine_handler e)"
| request: "A env r \<Longrightarrow> me_store env = ops \<Longrightarrow> middleware env role r w e = Some (w', e') \<Longrightarrow>
     engine_step A B ops e e'"
| work: "B penv now \<Longrightarrow> pe_store penv = ops \<Longrightarrow> engine_work penv now e = Some e' \<Longrightarrow> engine_step A B ops e e'"
| close: "engine_step A B ops e (engine_close ops e)"

inductive_cases engine_stepE: "engine_step A B ops e e'"

definition engine_ok :: "('s \<Rightarrow> bool) \<Rightarrow> ('s \<Rightarrow> 'k holding) \<Rightarrow> ('p \<Rightarrow> bool) \<Rightarrow> config \<Rightarrow> ('s, 'p) engine \<Rightarrow> bool" where
  "engine_ok I H J cfg e = (clean I H (en_store e) \<and> J (en_predictor e) \<and> en_config e = cfg \<and>
     (\<forall>p. en_prefetcher e = Some p \<longrightarrow> length (pf_queue p) \<le> queue_size \<and> pf_threshold p = c_threshold cfg))"

text \<open>What the steps rely on: the clock, the representable responses and the parts of the engine.\<close>

definition request_ok :: "(entry \<Rightarrow> bool) \<Rightarrow> 'p predictor_ops \<Rightarrow> config \<Rightarrow> ('s, 'p) mw_env \<Rightarrow> request \<Rightarrow> bool" where
  "request_ok st pops cfg env r = (me_predictor env = pops \<and> clock_ok (me_later env) (c_ttl cfg) \<and>
     handler_storable st env cfg r)"

definition work_ok :: "(entry \<Rightarrow> bool) \<Rightarrow> 's prefetch_env \<Rightarrow> int \<Rightarrow> bool" where
  "work_ok st penv now = (clock_ok now (pe_ttl penv) \<and>
     (\<forall>r. st (prefetch_entry now (pe_ttl penv) r (run_recorder (pe_sniff penv) (pe_handler penv r)))))"

lemma submit_keeps:
  assumes "length (pf_queue p) \<le> queue_size"
  shows "length (pf_queue (pf_submit a sid preds r p)) \<le> queue_size \<and>
    pf_threshold (pf_submit a sid preds r p) = pf_threshold p"
proof (cases "pf_closed p")
  case True
  with assms show ?thesis by (simp add: pf_submit_def)
next
  case False
  then obtain b where b: "pf_submit a sid preds r p = submit_loop sid r b preds p" by (simp add: pf_submit_def)
  have "length (pf_queue (submit_loop sid r b preds p)) \<le> max queue_size (length (pf_queue p))"
    using submit_loop_queue [of sid r b preds p] by auto
  with assms b show ?thesis by simp
qed

text \<open>A store with its contract together with a predictor with its own.\<close>

locale engine_parts = cache_store ops inv held slot storable + pr: predictor_contract pops pinv
  for ops :: "'s store_ops" and inv :: "'s \<Rightarrow> bool" and held :: "'s \<Rightarrow> 'k holding"
    and slot :: "string \<Rightarrow> 'k" and storable :: "entry \<Rightarrow> bool"
    and pops :: "'p predictor_ops" and pinv :: "'p \<Rightarrow> bool"
begin

lemma work_keeps:
  assumes "engine_ok inv held pinv cfg e" "work_ok storable penv now" "pe_store penv = ops"
    and "engine_work penv now e = Some e'"
  shows "engine_ok inv held pinv cfg e' \<and>
    (e' = e \<or> (\<exists>p job rest warmed. en_prefetcher e = Some p \<and> pf_queue p = job # rest \<and>
       pf_execute penv now job (en_store e) = Some (warmed, en_store e')))"
proof (cases "\<exists>p job rest. en_prefetcher e = Some p \<and> pf_queue p = job # rest")
  case False
  with assms(4) have "e' = e" by (auto simp: engine_work_def split: option.splits list.splits)
  with assms(1) show ?thesis by simp
next
  case True
  then obtain p job rest where p: "en_prefetcher e = Some p" "pf_queue p = job # rest" by blast
  then obtain warmed s' where run: "pf_execute penv now job (en_store e) = Some (warmed, s')"
    and e': "e' = e\<lparr>en_prefetcher := Some (p\<lparr>pf_queue := rest\<rparr>), en_store := s',
      en_telemetry := (if warmed then record_prefetch (en_telemetry e) else en_telemetry e)\<rparr>"
    using assms(4) by (auto simp: engine_work_def)
  have "clean inv held (en_store e)" using assms(1) by (simp add: engine_ok_def)
  from pf_execute_clean [OF assms(3) this _ _ run] assms(2) have "clean inv held s'"
    by (simp add: work_ok_def)
  with assms(1) p e' run show ?thesis by (auto simp: engine_ok_def)
qed

lemma close_keeps:
  assumes "engine_ok inv held pinv cfg e"
  shows "engine_ok inv held pinv cfg (engine_close ops e) \<and> held (en_store (engine_close ops e)) = {}"
proof -
  have "inv (en_store e)" using assms by (simp add: engine_ok_def clean_def)
  note c = close_inv [OF this] close_held [OF this]
  have "every_held (\<lambda>k. shareable) (held (st_close ops (en_store e)))" by (simp add: c(2) every_held_def)
  with assms c show ?thesis
    by (auto simp: engine_ok_def engine_close_def clean_def pf_close_def)
qed

lemma handler_keeps:
  "engine_ok inv held pinv cfg e \<Longrightarrow> engine_ok inv held pinv cfg (engine_handler e) \<and>
    en_store (engine_handler e) = en_store e"
  by (auto simp: engine_ok_def engine_handler_def new_prefetcher_def split: option.splits)

lemma request_keeps:
  assumes "engine_ok inv held pinv cfg e" "request_ok storable pops cfg env r" "me_store env = ops"
    and "middleware env role r w e = Some (w', e')"
  shows "engine_ok inv held pinv cfg e'"
proof -
  have e: "clean inv held (en_store e)" "pinv (en_predictor e)" "en_config e = cfg"
    "\<And>p. en_prefetcher e = Some p \<Longrightarrow> length (pf_queue p) \<le> queue_size \<and> pf_threshold p = c_threshold cfg"
    using assms(1) by (simp_all add: engine_ok_def)
  have ok: "me_predictor env = pops" "clock_ok (me_later env) (c_ttl (en_config e))"
    "handler_storable storable env (en_config e) r" using assms(2) e(3) by (simp_all add: request_ok_def)
  have "clean inv held (en_store e')" using middleware_clean [OF assms(3) e(1) ok(2,3) assms(4)] by simp
  moreover have "stage_ok pinv r e (Some (w', e'))"
    using pr.middleware_total [OF ok(1) e(2), of r role w] assms(4) by simp
  ultimately show ?thesis
    using e(3,4) submit_keeps by (auto simp: engine_ok_def stage_ok_def)
qed

lemma step_keeps:
  assumes "engine_step A B ops e e'" "engine_ok inv held pinv cfg e"
    and "\<And>env r. A env r \<Longrightarrow> request_ok storable pops cfg env r" "\<And>penv now. B penv now \<Longrightarrow> work_ok storable penv now"
  shows "engine_ok inv held pinv cfg e'"
  using assms(1)
proof cases
  case handler
  with handler_keeps [OF assms(2)] show ?thesis by simp
next
  case (request env r role w w')
  from request_keeps [OF assms(2) assms(3) [OF request(1)] request(2,3)] show ?thesis .
next
  case (work penv now)
  from work_keeps [OF assms(2) assms(4) [OF work(1)] work(2,3)] show ?thesis by simp
next
  case close
  with close_keeps [OF assms(2)] show ?thesis by simp
qed

lemma runs_keep:
  assumes "(engine_step A B ops)\<^sup>*\<^sup>* e e'" "engine_ok inv held pinv cfg e"
    and "\<And>env r. A env r \<Longrightarrow> request_ok storable pops cfg env r" "\<And>penv now. B penv now \<Longrightarrow> work_ok storable penv now"
  shows "engine_ok inv held pinv cfg e'"
  using assms(1)
  by (induction rule: rtranclp_induct) (auto intro: assms(2) step_keeps [OF _ _ assms(3,4)])

text \<open>When no response may be stored, nothing new is held.\<close>

lemma step_stores_nothing:
  assumes "engine_step A B ops e e'" "engine_ok inv held pinv cfg e"
    and "\<And>env r. A env r \<Longrightarrow> request_ok storable pops cfg env r" "\<And>penv now. B penv now \<Longrightarrow> work_ok storable penv now"
    and "\<And>env r. A env r \<Longrightarrow> never_cached env cfg r"
    and "\<And>penv now r job. B penv now \<Longrightarrow>
      \<not> prefetch_cacheable (job_is_auth job) (run_recorder (pe_sniff penv) (pe_handler penv r))"
  shows "held_le (held (en_store e')) (held (en_store e))"
  using assms(1)
proof cases
  case handler
  with handler_keeps [OF assms(2)] show ?thesis by auto
next
  case (request env r role w w')
  have c: "en_config e = cfg" "clean inv held (en_store e)" using assms(2) by (simp_all add: engine_ok_def)
  have "clock_ok (me_later env) (c_ttl (en_config e))" "handler_storable storable env (en_config e) r"
    using assms(3) [OF request(1)] c(1) by (simp_all add: request_ok_def)
  from middleware_clean [OF request(2) c(2) this request(3)] assms(5) [OF request(1)] c(1)
  show ?thesis by simp
next
  case (work penv now)
  consider "e' = e" | job warmed where "pf_execute penv now job (en_store e) = Some (warmed, en_store e')"
    using work_keeps [OF assms(2) assms(4) [OF work(1)] work(2,3)] by blast
  then show ?thesis
  proof cases
    case 1
    then show ?thesis by auto
  next
    case (2 job warmed)
    have "clean inv held (en_store e)" using assms(2) by (simp add: engine_ok_def)
    note run = pf_execute_clean [OF work(2) this _ _ 2]
    have "\<not> warmed"
    proof
      assume "warmed"
      have "\<exists>r. prefetch_cacheable (job_is_auth job) (run_recorder (pe_sniff penv) (pe_handler penv r))"
        using 2 \<open>warmed\<close>
        by (auto simp: pf_execute_def exec_fn_def Let_def split: list.splits if_splits option.splits prod.splits)
      with assms(6) [OF work(1)] show False by blast
    qed
    with run assms(4) [OF work(1)] show ?thesis by (simp add: work_ok_def)
  qed
next
  case close
  with close_keeps [OF assms(2)] show ?thesis by (auto simp: held_le_def)
qed

lemma runs_store_nothing:
  assumes "(engine_step A B ops)\<^sup>*\<^sup>* e e'" "engine_ok inv held pinv cfg e"
    and "\<And>env r. A env r \<Longrightarrow> request_ok storable pops cfg env r" "\<And>penv now. B penv now \<Longrightarrow> work_ok storable penv now"
    and "\<And>env r. A env r \<Longrightarrow> never_cached env cfg r"
    and "\<And>penv now r job. B penv now \<Longrightarrow>
      \<not> prefetch_cacheable (job_is_auth job) (run_recorder (pe_sniff penv) (pe_handler penv r))"
  shows "held_le (held (en_store e')) (held (en_store e))"
  using assms(1)
proof (induction rule: rtranclp_induct)
  case (step e1 e2)
  have "engine_ok inv held pinv cfg e1" by (rule runs_keep [OF step.hyps(1) assms(2-4)])
  from step_stores_nothing [OF step.hyps(2) this assms(3-6)] step.IH show ?case by (rule held_le_trans)
qed auto

end

section \<open>The default engine\<close>

text \<open>The limits of the default sharded store, kept by every operation.\<close>

definition full_size :: "sharded_store tiered_store \<Rightarrow> bool" where
  "full_size t = (map sh_max (ss_shards (t_l2 t)) = replicate 256 1048576)"

definition cached_bytes :: "sharded_store tiered_store \<Rightarrow> nat" where
  "cached_bytes t = sum_list (map (\<lambda>sh. length (sh_ring sh)) (ss_shards (t_l2 t)))"

lemma full_size_new: "full_size (new_tiered_store (new_sharded_store None))"
  by (simp add: full_size_def new_tiered_store_def new_sharded_default)

lemma promote_l2 [simp]: "t_l2 (promote_l1 h e x t) = t_l2 t"
  by (simp add: promote_l1_def)

lemma full_size_keeps:
  assumes "full_size t"
  shows "full_size (snd (st_get (default_ops xx) now k t))"
    "full_size (snd (snd (st_set (default_ops xx) now k e ttl t)))"
    "full_size (st_del (default_ops xx) k t)" "full_size (st_close (default_ops xx) t)"
proof -
  show "full_size (snd (st_get (default_ops xx) now k t))"
    using assms by (simp add: full_size_def tiered_ops_def tiered_get_def sharded_ops_def Let_def split: option.splits)
  show "full_size (snd (snd (st_set (default_ops xx) now k e ttl t)))"
    using assms sharded_limits(1) [of now "xx k" "if 0 < ttl then e\<lparr>e_expires := Some (now + ttl)\<rparr> else e" ttl "t_l2 t"]
    by (auto simp: full_size_def tiered_ops_def tiered_set_def sharded_ops_def Let_def split: prod.splits)
  show "full_size (st_del (default_ops xx) k t)"
    using assms by (simp add: full_size_def tiered_ops_def tiered_del_def sharded_ops_def sharded_limits Let_def split: option.splits)
  show "full_size (st_close (default_ops xx) t)"
    using assms by (simp add: full_size_def tiered_ops_def tiered_close_def sharded_ops_def sharded_limits)
qed

lemma cached_bytes_bound:
  assumes "tiered_inv sharded_inv t" "full_size t"
  shows "cached_bytes t \<le> 268435456"
proof -
  let ?shs = "ss_shards (t_l2 t)"
  have l: "length ?shs = 256" using arg_cong [OF assms(2) [unfolded full_size_def], of length] by simp
  have "length (sh_ring sh) \<le> 1048576" if "sh \<in> set ?shs" for sh
  proof -
    have "set (map sh_max ?shs) = {1048576}"
      using assms(2) unfolding full_size_def by (simp only: set_replicate_conv_if) simp
    then have "sh_max sh = 1048576" using that by auto
    moreover have "length (sh_ring sh) \<le> unat (sh_max sh)"
      using assms(1) that by (simp add: tiered_inv_def sharded_inv_def shard_inv_def)
    ultimately show ?thesis by simp
  qed
  then have "cached_bytes t \<le> sum_list (map (\<lambda>sh. 1048576) ?shs)"
    unfolding cached_bytes_def by (intro sum_list_mono) simp
  also have "\<dots> = 268435456" by (simp add: sum_list_triv l)
  finally show ?thesis .
qed

lemma cache_store_restrict:
  assumes "cache_store ops I H sl st"
    and "\<And>s now k. J s \<Longrightarrow> J (snd (st_get ops now k s))" "\<And>s now k e ttl. J s \<Longrightarrow> J (snd (snd (st_set ops now k e ttl s)))"
    and "\<And>s k. J s \<Longrightarrow> J (st_del ops k s)" "\<And>s. J s \<Longrightarrow> J (st_close ops s)"
  shows "cache_store ops (\<lambda>s. I s \<and> J s) H sl st"
proof
  fix s now k e s' ttl ok e'
  assume "I s \<and> J s" "st e" "clock_ok now ttl" "st_set ops now k e ttl s = (ok, e', s')"
  then show "I s' \<and> J s'"
    using cache_store.set_inv [OF assms(1)] assms(3) [of s now k e ttl] by auto
next
  fix s now k e s' ttl e' now'
  assume "I s \<and> J s" "st e" "clock_ok now ttl" "st_set ops now k e ttl s = (True, e', s')"
    "fresh now' (deadline now ttl)"
  then show "\<exists>f. fst (st_get ops now' k s') = Some f \<and> same_response f e'"
    using cache_store.set_get [OF assms(1)] by blast
next
  fix s
  assume "I s \<and> J s"
  then show "H (st_close ops s) = {}" using cache_store.close_held [OF assms(1)] by simp
qed (use assms(2,4,5) in \<open>auto intro: cache_store.get_inv [OF assms(1)] cache_store.get_held [OF assms(1)]
    cache_store.del_inv [OF assms(1)] cache_store.del_held [OF assms(1)] cache_store.close_inv [OF assms(1)]
    cache_store.get_sound [OF assms(1)] cache_store.set_origin [OF assms(1)]
    cache_store.set_held [OF assms(1)] cache_store.set_fail [OF assms(1)]
    dest: cache_store.set_origin [OF assms(1)]\<close>)

interpretation precog: engine_parts "default_ops xx" "\<lambda>t. tiered_inv sharded_inv t \<and> full_size t" store_held xx storable
    "dense_ops dxx pick (stable_desc snd)" dense_inv
  for xx dxx :: "string \<Rightarrow> 64 word" and pick
  by (intro engine_parts.intro cache_store_restrict [OF sharded.tiered.cache_store_axioms]
      dense.contract.predictor_contract_axioms full_size_keeps)

lemma default_engine_ok:
  "engine_ok (\<lambda>t. tiered_inv sharded_inv t \<and> full_size t) store_held dense_inv (with_defaults cfg) (default_engine cfg)"
  using new_store_clean full_size_new new_dense_inv by (simp add: engine_ok_def clean_def)

section \<open>Properties\<close>


lemma plain_request_ok:
  "request_ok storable (dense_ops (\<lambda>_. 7) (\<lambda>_. 0) (stable_desc snd)) (with_defaults sample_config) plain_mw r"
  using plain_handler_storable by (simp add: request_ok_def clock_ok_def default_ttl)




end
