(* ===== verification/Wasm.thy ===== *)
theory Wasm
  imports Dense Prefetcher
begin

text \<open>
  \<open>cmd/wasm/main.go\<close>: the three functions the browser calls. JavaScript values are modelled as far as
  the code looks at them (\<open>Value.String\<close>, \<open>Value.Type\<close>, \<open>Value.Int\<close>, which truncates); \<open>json.Marshal\<close> is a
  parameter that may fail. \<open>None\<close> is a Go panic, which ends the WebAssembly instance.
\<close>

datatype js_value =
    JsString string
  | JsNumber rat string
  | JsOther string

text \<open>The second component of a number is its rendering by \<open>Value.String\<close>, as is that of other values.\<close>

fun js_string :: "js_value \<Rightarrow> string" where
  "js_string (JsString s) = s"
| "js_string (JsNumber n s) = s"
| "js_string (JsOther s) = s"

definition js_int :: "rat \<Rightarrow> int" where
  "js_int n = (if 0 \<le> n then \<lfloor>n\<rfloor> else \<lceil>n\<rceil>)"

definition wasm_config :: dense_config where
  "wasm_config = \<lparr>dc_max_routes = 512, dc_max_history = 0, dc_registry = None\<rparr>"

definition wasm_session :: string where
  "wasm_session = ''browser_client''"

definition wasm_record ::
  "(string \<Rightarrow> 64 word) \<Rightarrow> (dense_step sessions \<Rightarrow> nat) \<Rightarrow> js_value list \<Rightarrow> dense \<Rightarrow> dense option" where
  "wasm_record xx pick args p = (case args of
     m # fp # _ \<Rightarrow>
       (let fullPath = js_string fp;
            (path, rawQuery) = (case index_of fullPath ''?'' of
               Some idx \<Rightarrow> (take idx fullPath, drop (idx + 1) fullPath) | None \<Rightarrow> (fullPath, []))
        in dense_record xx pick wasm_session (js_string m) path rawQuery p)
   | _ \<Rightarrow> Some p)"

definition top_k :: "js_value list \<Rightarrow> int" where
  "top_k args = (case args of JsNumber n s # _ \<Rightarrow> js_int n | _ \<Rightarrow> 3)"

definition wasm_predict ::
  "(string \<Rightarrow> 64 word) \<Rightarrow> ((16 word \<times> 32 word) list \<Rightarrow> (16 word \<times> 32 word) list) \<Rightarrow>
     (prediction list \<Rightarrow> string option) \<Rightarrow> js_value list \<Rightarrow> dense \<Rightarrow> string option" where
  "wasm_predict xx srt marshal args p = map_option
     (\<lambda>preds. case marshal preds of Some out \<Rightarrow> out | None \<Rightarrow> ''[]'')
     (dense_predict srt xx wasm_session (top_k args) p)"

record spec_rules =
  sr_source :: string
  sr_urls :: "string list"
  sr_eagerness :: string

definition rules_of :: "prediction list \<Rightarrow> spec_rules" where
  "rules_of preds = \<lparr>sr_source = ''list'', sr_urls = map (\<lambda>p. call_url (pd_call p)) preds, sr_eagerness = ''moderate''\<rparr>"

definition speculation_rules ::
  "(string \<Rightarrow> 64 word) \<Rightarrow> ((16 word \<times> 32 word) list \<Rightarrow> (16 word \<times> 32 word) list) \<Rightarrow>
     (spec_rules \<Rightarrow> string option) \<Rightarrow> js_value list \<Rightarrow> dense \<Rightarrow> string option" where
  "speculation_rules xx srt marshal args p = map_option
     (\<lambda>preds. case marshal (rules_of preds) of Some out \<Rightarrow> out | None \<Rightarrow> ''{}'')
     (dense_predict srt xx wasm_session (top_k args) p)"

text \<open>The predictor after the given calls of \<open>record\<close>.\<close>

definition wasm_run ::
  "(string \<Rightarrow> 64 word) \<Rightarrow> (dense_step sessions \<Rightarrow> nat) \<Rightarrow> js_value list list \<Rightarrow> dense option" where
  "wasm_run xx pick calls = fold (\<lambda>args r. Option.bind r (wasm_record xx pick args)) calls (Some (new_dense (Some wasm_config)))"

lemma wasm_record_ok:
  assumes "dense_inv p"
  shows "\<exists>p'. wasm_record xx pick args p = Some p' \<and> dense_inv p'"
proof -
  consider "wasm_record xx pick args p = Some p"
    | m path q where "wasm_record xx pick args p = dense_record xx pick wasm_session m path q p"
    unfolding wasm_record_def Let_def split_beta by (cases args; cases "tl args") auto
  then show ?thesis
  proof cases
    case 1
    with assms show ?thesis by blast
  next
    case (2 m path q)
    with dense_record_ok [OF assms, of xx pick wasm_session m path q] show ?thesis by auto
  qed
qed

lemma wasm_run_ok: "\<exists>p. wasm_run xx pick calls = Some p \<and> dense_inv p"
proof -
  have "\<exists>q. fold (\<lambda>args r. Option.bind r (wasm_record xx pick args)) calls (Some p) = Some q \<and> dense_inv q"
    if "dense_inv p" for p
    using that
  proof (induction calls arbitrary: p)
    case (Cons args calls)
    obtain p' where "wasm_record xx pick args p = Some p'" "dense_inv p'"
      using wasm_record_ok [OF Cons.prems] by blast
    with Cons.IH show ?case by simp
  qed simp
  moreover have "dense_inv (new_dense (Some wasm_config))"
    by (rule dense_inv_new) (simp add: routes_ok_def wasm_config_def)
  ultimately show ?thesis by (simp add: wasm_run_def)
qed

section \<open>Properties\<close>



text \<open>
  the rules sent to the browser may name URLs that do not exist: unlike the \<open>Link\<close> header and the
  prefetcher, \<open>getSpeculationRules\<close> keeps predictions whose placeholders were not filled in. After
  \<open>/home\<close>, \<open>/p/5\<close>, \<open>/home\<close> the browser is told to prefetch \<open>/p/:id\<close>.
\<close>

theorem wasm_rules_keep_placeholders:
  "map_option (\<lambda>preds. (sr_urls (rules_of preds), build_speculation_rules_header preds))
     (Option.bind (fold (\<lambda>args r. Option.bind r (wasm_record (\<lambda>_. 0) (\<lambda>_. 0) args))
         [[JsString ''GET'', JsString ''/home''], [JsString ''GET'', JsString ''/p/5''], [JsString ''GET'', JsString ''/home'']]
         (Some (new_dense (Some (wasm_config\<lparr>dc_max_routes := 4\<rparr>)))))
       (\<lambda>p. dense_predict (stable_desc snd) (\<lambda>_. 0) wasm_session 3 p)) =
   Some ([''/p/:id''], [])"
  by code_simp

end
