(* ===== verification/Dense_Concurrent.thy ===== *)
theory Dense_Concurrent
  imports Dense
begin

text \<open>
  The lock-free part of \<open>Record\<close> (\<open>predictor_dense.go\<close>) run by any number of goroutines: each atomic
  operation on the matrix and the totals is one step. Registry and sessions are behind their own locks
  and do not change here.
\<close>

text \<open>
  Where a call with transition \<open>f \<rightarrow> t\<close> is: before \<open>AddUint32\<close> on the cell; before \<open>AddUint32\<close> on the
  total; in the loop of \<open>rescaleRow\<close> before the load or the store of column \<open>k\<close>, with the sum so far; done.
\<close>

datatype bump_pc =
    Adding "16 word" "16 word"
  | Totalling "16 word" "16 word"
  | Loading "16 word" "16 word" "32 word" "32 word"
  | Storing "16 word" "16 word" "32 word" "32 word" "32 word"
  | Ended "16 word" "16 word"

record dense_conc =
  dc_p :: dense
  dc_pcs :: "bump_pc list"

definition new_conc :: "dense \<Rightarrow> (16 word \<times> 16 word) list \<Rightarrow> dense_conc" where
  "new_conc p cs = \<lparr>dc_p = p, dc_pcs = map (\<lambda>(f, t). Adding f t) cs\<rparr>"

definition set_cell :: "nat \<Rightarrow> 32 word \<Rightarrow> dense \<Rightarrow> dense" where
  "set_cell idx v p = p\<lparr>dn_matrix := (dn_matrix p)[idx := v]\<rparr>"

definition set_total :: "16 word \<Rightarrow> 32 word \<Rightarrow> dense \<Rightarrow> dense" where
  "set_total f v p = p\<lparr>dn_totals := (dn_totals p)[unat f := v]\<rparr>"

definition move_to :: "nat \<Rightarrow> bump_pc \<Rightarrow> dense \<Rightarrow> dense_conc \<Rightarrow> dense_conc" where
  "move_to i q p c = c\<lparr>dc_p := p, dc_pcs := (dc_pcs c)[i := q]\<rparr>"

definition rescale_idx :: "16 word \<Rightarrow> 32 word \<Rightarrow> dense \<Rightarrow> nat" where
  "rescale_idx f k p = unat (ucast f * dn_maxRoutes p + k)"

text \<open>One step of the call at index \<open>i\<close>; a finished call stays where it is.\<close>

definition bump_step :: "nat \<Rightarrow> dense_conc \<Rightarrow> dense_conc" where
  "bump_step i c = (let p = dc_p c in case dc_pcs c ! i of
     Adding f t \<Rightarrow> (let idx = unat (cell_idx f t p) in move_to i (Totalling f t) (set_cell idx (dn_matrix p ! idx + 1) p) c)
   | Totalling f t \<Rightarrow> (let tot = dn_totals p ! unat f + 1 in
       move_to i (if tot \<ge> 0x7FFFFFFF then Loading f t 0 0 else Ended f t) (set_total f tot p) c)
   | Loading f t k acc \<Rightarrow>
       (if k < dn_maxRoutes p then move_to i (Storing f t k acc (dn_matrix p ! rescale_idx f k p)) p c
        else move_to i (Ended f t) (set_total f acc p) c)
   | Storing f t k acc old \<Rightarrow>
       move_to i (Loading f t (k + 1) (acc + old div 2)) (set_cell (rescale_idx f k p) (old div 2) p) c
   | Ended f t \<Rightarrow> c)"

text \<open>A schedule names, step by step, the call that moves.\<close>

definition run_schedule :: "nat list \<Rightarrow> dense_conc \<Rightarrow> dense_conc" where
  "run_schedule sched c = fold (\<lambda>i c. if i < length (dc_pcs c) then bump_step i c else c) sched c"

fun pc_call :: "bump_pc \<Rightarrow> 16 word \<times> 16 word" where
  "pc_call (Adding f t) = (f, t)"
| "pc_call (Totalling f t) = (f, t)"
| "pc_call (Loading f t k acc) = (f, t)"
| "pc_call (Storing f t k acc old) = (f, t)"
| "pc_call (Ended f t) = (f, t)"

fun is_ended :: "bump_pc \<Rightarrow> bool" where
  "is_ended (Ended f t) = True"
| "is_ended _ = False"

fun is_adding :: "bump_pc \<Rightarrow> bool" where
  "is_adding (Adding f t) = True"
| "is_adding _ = False"

fun simple_pc :: "bump_pc \<Rightarrow> bool" where
  "simple_pc (Loading f t k acc) = False"
| "simple_pc (Storing f t k acc old) = False"
| "simple_pc _ = True"

section \<open>Counting\<close>

definition cnt :: "('a \<Rightarrow> bool) \<Rightarrow> 'a list \<Rightarrow> nat" where
  "cnt P xs = length (filter P xs)"

lemma cnt_simps [simp]: "cnt P [] = 0" "cnt P (x # xs) = (if P x then Suc (cnt P xs) else cnt P xs)"
  by (simp_all add: cnt_def)

lemma cnt_update:
  "i < length xs \<Longrightarrow> cnt P (xs[i := y]) + (if P (xs ! i) then 1 else 0) = cnt P xs + (if P y then 1 else 0)"
proof (induction xs arbitrary: i)
  case (Cons x xs)
  show ?case
  proof (cases i)
    case (Suc n)
    with Cons.IH [of n] Cons.prems show ?thesis by auto
  qed simp
qed simp

lemma cnt_le: "cnt P xs \<le> length xs"
  by (simp add: cnt_def)

lemma cnt_less: "i < length xs \<Longrightarrow> \<not> P (xs ! i) \<Longrightarrow> cnt P xs < length xs"
  using cnt_update [of i xs P "xs ! i"] by (metis cnt_def length_filter_less nth_mem)

definition cell_of :: "dense \<Rightarrow> 16 word \<times> 16 word \<Rightarrow> nat" where
  "cell_of p ft = unat (cell_idx (fst ft) (snd ft) p)"

definition in_range :: "dense \<Rightarrow> 16 word \<times> 16 word \<Rightarrow> bool" where
  "in_range p ft = (cell_of p ft < length (dn_matrix p) \<and> unat (fst ft) < length (dn_totals p))"

text \<open>The counters after the calls that have passed each addition, in 32-bit arithmetic.\<close>

definition counted :: "dense \<Rightarrow> (nat \<Rightarrow> nat) \<Rightarrow> (nat \<Rightarrow> nat) \<Rightarrow> dense \<Rightarrow> bool" where
  "counted p0 cells tots p = (\<exists>m ts. p = p0\<lparr>dn_matrix := m, dn_totals := ts\<rparr> \<and>
     length m = length (dn_matrix p0) \<and> length ts = length (dn_totals p0) \<and>
     (\<forall>j < length m. m ! j = dn_matrix p0 ! j + of_nat (cells j)) \<and>
     (\<forall>j < length ts. ts ! j = dn_totals p0 ! j + of_nat (tots j)))"

lemma counted_unique:
  assumes "counted p0 cells tots p" "counted p0 cells tots q"
  shows "p = q"
proof -
  obtain m ts where p: "p = p0\<lparr>dn_matrix := m, dn_totals := ts\<rparr>" "length m = length (dn_matrix p0)"
    "length ts = length (dn_totals p0)" "\<forall>j < length m. m ! j = dn_matrix p0 ! j + of_nat (cells j)"
    "\<forall>j < length ts. ts ! j = dn_totals p0 ! j + of_nat (tots j)"
    using assms(1) unfolding counted_def by blast
  obtain m' ts' where q: "q = p0\<lparr>dn_matrix := m', dn_totals := ts'\<rparr>" "length m' = length (dn_matrix p0)"
    "length ts' = length (dn_totals p0)" "\<forall>j < length m'. m' ! j = dn_matrix p0 ! j + of_nat (cells j)"
    "\<forall>j < length ts'. ts' ! j = dn_totals p0 ! j + of_nat (tots j)"
    using assms(2) unfolding counted_def by blast
  have "m = m'" "ts = ts'" using p(2-5) q(2-5) by (simp_all add: list_eq_iff_nth_eq)
  with p(1) q(1) show ?thesis by simp
qed

lemma counted_cong:
  "(\<And>j. cells j = cells' j) \<Longrightarrow> (\<And>j. tots j = tots' j) \<Longrightarrow> counted p0 cells tots p \<Longrightarrow> counted p0 cells' tots' p"
  unfolding counted_def by simp

lemma counted_cell:
  assumes "counted p0 cells tots p" "i < length (dn_matrix p0)"
  shows "counted p0 (cells(i := Suc (cells i))) tots (set_cell i (dn_matrix p ! i + 1) p)"
proof -
  obtain m ts where p: "p = p0\<lparr>dn_matrix := m, dn_totals := ts\<rparr>" "length m = length (dn_matrix p0)"
    "length ts = length (dn_totals p0)" "\<forall>j < length m. m ! j = dn_matrix p0 ! j + of_nat (cells j)"
    "\<forall>j < length ts. ts ! j = dn_totals p0 ! j + of_nat (tots j)"
    using assms(1) unfolding counted_def by blast
  then have "set_cell i (dn_matrix p ! i + 1) p = p0\<lparr>dn_matrix := m[i := m ! i + 1], dn_totals := ts\<rparr>"
    by (simp add: set_cell_def)
  with p assms(2) show ?thesis
    unfolding counted_def by (intro exI [of _ "m[i := m ! i + 1]"] exI [of _ ts]) (auto simp: nth_list_update)
qed

lemma counted_total:
  assumes "counted p0 cells tots p" "unat f < length (dn_totals p0)"
  shows "counted p0 cells (tots(unat f := Suc (tots (unat f)))) (set_total f (dn_totals p ! unat f + 1) p)"
proof -
  obtain m ts where p: "p = p0\<lparr>dn_matrix := m, dn_totals := ts\<rparr>" "length m = length (dn_matrix p0)"
    "length ts = length (dn_totals p0)" "\<forall>j < length m. m ! j = dn_matrix p0 ! j + of_nat (cells j)"
    "\<forall>j < length ts. ts ! j = dn_totals p0 ! j + of_nat (tots j)"
    using assms(1) unfolding counted_def by blast
  then have "set_total f (dn_totals p ! unat f + 1) p = p0\<lparr>dn_matrix := m, dn_totals := ts[unat f := ts ! unat f + 1]\<rparr>"
    by (simp add: set_total_def)
  with p assms(2) show ?thesis
    unfolding counted_def by (intro exI [of _ m] exI [of _ "ts[unat f := ts ! unat f + 1]"]) (auto simp: nth_list_update)
qed

lemma counted_fields:
  assumes "counted p0 cells tots p"
  shows "dn_maxRoutes p = dn_maxRoutes p0" "cell_idx f t p = cell_idx f t p0"
    "length (dn_matrix p) = length (dn_matrix p0)" "length (dn_totals p) = length (dn_totals p0)"
    "j < length (dn_totals p0) \<Longrightarrow> dn_totals p ! j = dn_totals p0 ! j + of_nat (tots j)"
  using assms by (auto simp: counted_def cell_idx_def)

text \<open>No total reaches the limit for rescaling while the calls run.\<close>

definition room :: "dense \<Rightarrow> nat \<Rightarrow> bool" where
  "room p n = (\<forall>j < length (dn_totals p). unat (dn_totals p ! j) + n < row_limit)"

lemma total_below:
  assumes "counted p0 cells tots p" "room p0 n" "j < length (dn_totals p0)" "Suc (tots j) \<le> n"
  shows "\<not> dn_totals p ! j + 1 \<ge> 0x7FFFFFFF"
proof -
  have b: "unat (dn_totals p0 ! j) + Suc (tots j) < 0x7FFFFFFF"
    using assms(2-4) by (auto simp: room_def row_limit_def)
  have "dn_totals p ! j + 1 = dn_totals p0 ! j + of_nat (Suc (tots j))"
    using counted_fields(5) [OF assms(1,3)] by simp
  also have "\<dots> = of_nat (unat (dn_totals p0 ! j) + Suc (tots j))" by simp
  finally have "unat (dn_totals p ! j + 1) = unat (dn_totals p0 ! j) + Suc (tots j)"
    using b by (simp add: unat_of_nat take_bit_nat_eq_self del: of_nat_add of_nat_Suc)
  with b show ?thesis by (simp add: word_le_nat_alt)
qed

section \<open>Concurrent calls against sequential calls\<close>

definition cells_done :: "dense \<Rightarrow> bump_pc list \<Rightarrow> nat \<Rightarrow> nat" where
  "cells_done p pcs j = cnt (\<lambda>q. \<not> is_adding q \<and> cell_of p (pc_call q) = j) pcs"

definition totals_done :: "bump_pc list \<Rightarrow> nat \<Rightarrow> nat" where
  "totals_done pcs j = cnt (\<lambda>q. is_ended q \<and> unat (fst (pc_call q)) = j) pcs"

definition conc_inv :: "dense \<Rightarrow> (16 word \<times> 16 word) list \<Rightarrow> dense_conc \<Rightarrow> bool" where
  "conc_inv p0 cs c = (map pc_call (dc_pcs c) = cs \<and> list_all simple_pc (dc_pcs c) \<and>
     counted p0 (cells_done p0 (dc_pcs c)) (totals_done (dc_pcs c)) (dc_p c))"

lemma conc_inv_new: "conc_inv p0 cs (new_conc p0 cs)"
proof -
  have 1: "map pc_call (map (\<lambda>(f, t). Adding f t) cs) = cs"
    by (rule nth_equalityI) (simp_all add: split_beta)
  have 2: "cells_done p0 (map (\<lambda>(f, t). Adding f t) cs) j = 0" "totals_done (map (\<lambda>(f, t). Adding f t) cs) j = 0" for j
    by (induction cs) (auto simp: cells_done_def totals_done_def split_beta)
  have "counted p0 (\<lambda>j. 0) (\<lambda>j. 0) p0"
    unfolding counted_def by (intro exI [of _ "dn_matrix p0"] exI [of _ "dn_totals p0"]) simp
  with 1 2 show ?thesis
    by (auto simp: conc_inv_def new_conc_def list_all_iff intro: counted_cong)
qed

lemma done_update:
  assumes "i < length pcs" "pc_call q = pc_call (pcs ! i)"
  shows "is_adding (pcs ! i) \<Longrightarrow> \<not> is_adding q \<Longrightarrow>
      cells_done p (pcs[i := q]) = (cells_done p pcs)(cell_of p (pc_call q) := Suc (cells_done p pcs (cell_of p (pc_call q))))"
    and "\<not> is_adding (pcs ! i) \<Longrightarrow> \<not> is_adding q \<Longrightarrow> cells_done p (pcs[i := q]) = cells_done p pcs"
    and "\<not> is_ended (pcs ! i) \<Longrightarrow> is_ended q \<Longrightarrow>
      totals_done (pcs[i := q]) = (totals_done pcs)(unat (fst (pc_call q)) := Suc (totals_done pcs (unat (fst (pc_call q)))))"
    and "\<not> is_ended (pcs ! i) \<Longrightarrow> \<not> is_ended q \<Longrightarrow> totals_done (pcs[i := q]) = totals_done pcs"
  using assms cnt_update [OF assms(1), of "\<lambda>q. \<not> is_adding q \<and> cell_of p (pc_call q) = j" q for j]
    cnt_update [OF assms(1), of "\<lambda>q. is_ended q \<and> unat (fst (pc_call q)) = j" q for j]
  by (auto simp: cells_done_def totals_done_def fun_eq_iff split: if_splits)

lemma conc_inv_step:
  assumes "conc_inv p0 cs c" "i < length (dc_pcs c)" "list_all (in_range p0) cs" "room p0 (length cs)"
  shows "conc_inv p0 cs (bump_step i c)"
proof -
  let ?pcs = "dc_pcs c" and ?p = "dc_p c"
  let ?q = "?pcs ! i"
  have inv: "map pc_call ?pcs = cs" "list_all simple_pc ?pcs"
    "counted p0 (cells_done p0 ?pcs) (totals_done ?pcs) ?p"
    using assms(1) by (simp_all add: conc_inv_def)
  have simple: "simple_pc ?q" using inv(2) assms(2) by (simp add: list_all_length)
  have "pc_call ?q \<in> set cs" using assms(2) inv(1) by (metis length_map nth_map nth_mem)
  then have range: "in_range p0 (pc_call ?q)" using assms(3) by (simp add: list_all_iff)
  have calls: "map pc_call (?pcs[i := q]) = cs" if "pc_call q = pc_call ?q" for q
    using inv(1) that assms(2) by (metis list_update_id map_update)
  have simples: "list_all simple_pc (?pcs[i := q])" if "simple_pc q" for q
    using inv(2) that by (auto simp: list_all_iff dest!: set_update_subset_insert [THEN subsetD])
  show ?thesis
  proof (cases ?q)
    case (Adding f t)
    let ?i = "cell_of p0 (f, t)"
    have "counted p0 ((cells_done p0 ?pcs)(?i := Suc (cells_done p0 ?pcs ?i))) (totals_done ?pcs)
        (set_cell ?i (dn_matrix ?p ! ?i + 1) ?p)"
      by (rule counted_cell [OF inv(3)]) (use range Adding in \<open>simp add: in_range_def\<close>)
    then have "counted p0 (cells_done p0 (?pcs[i := Totalling f t])) (totals_done (?pcs[i := Totalling f t]))
        (set_cell ?i (dn_matrix ?p ! ?i + 1) ?p)"
      using done_update(1,4) [OF assms(2), of "Totalling f t"] Adding by simp
    with Adding calls [of "Totalling f t"] simples [of "Totalling f t"] counted_fields(2) [OF inv(3)] show ?thesis
      by (simp add: conc_inv_def bump_step_def move_to_def Let_def cell_of_def)
  next
    case (Totalling f t)
    have f: "unat f < length (dn_totals p0)" using range Totalling by (simp add: in_range_def)
    have "\<not> is_ended ?q" using Totalling by simp
    then have "totals_done ?pcs (unat f) < length ?pcs"
      using cnt_less [OF assms(2), of "\<lambda>q. is_ended q \<and> unat (fst (pc_call q)) = unat f"] by (simp add: totals_done_def)
    also have "length ?pcs = length cs" using inv(1) by (metis length_map)
    finally have "\<not> dn_totals ?p ! unat f + 1 \<ge> 0x7FFFFFFF"
      using total_below [OF inv(3) assms(4) f] by simp
    moreover have "counted p0 (cells_done p0 (?pcs[i := Ended f t])) (totals_done (?pcs[i := Ended f t]))
        (set_total f (dn_totals ?p ! unat f + 1) ?p)"
      using counted_total [OF inv(3) f] done_update(2,3) [OF assms(2), of "Ended f t"] Totalling by simp
    ultimately show ?thesis
      using Totalling calls [of "Ended f t"] simples [of "Ended f t"]
      by (simp add: conc_inv_def bump_step_def move_to_def Let_def)
  next
    case (Ended f t)
    with assms(1) show ?thesis by (simp add: bump_step_def Let_def)
  qed (use simple in simp_all)
qed

lemma conc_inv_run:
  assumes "list_all (in_range p0) cs" "room p0 (length cs)" "conc_inv p0 cs c"
  shows "conc_inv p0 cs (run_schedule sched c)"
proof -
  have "conc_inv p0 cs (fold (\<lambda>i c. if i < length (dc_pcs c) then bump_step i c else c) sched c)"
    using assms(3) by (induction sched arbitrary: c) (simp_all add: conc_inv_step [OF _ _ assms(1,2)])
  then show ?thesis by (simp add: run_schedule_def)
qed

text \<open>The same calls one after the other.\<close>

definition run_bumps :: "(16 word \<times> 16 word) list \<Rightarrow> dense \<Rightarrow> dense option" where
  "run_bumps cs p = fold (\<lambda>(f, t) r. Option.bind r (bump f t)) cs (Some p)"

lemma bump_below:
  assumes "counted p0 cells tots p" "in_range p0 (f, t)" "room p0 n" "Suc (tots (unat f)) \<le> n"
  shows "bump f t p = Some (set_total f (dn_totals p ! unat f + 1)
    (set_cell (cell_of p0 (f, t)) (dn_matrix p ! cell_of p0 (f, t) + 1) p))"
proof -
  note b = total_below [OF assms(1,3) _ assms(4)]
  show ?thesis
    using assms(2) counted_fields(2-4) [OF assms(1)] b
    by (simp add: bump_def at_index_def in_range_def cell_of_def set_cell_def set_total_def Let_def)
qed

lemma run_bumps_counted:
  assumes "list_all (in_range p0) cs" "room p0 (length cs)"
  shows "\<exists>p. run_bumps cs p0 = Some p \<and>
    counted p0 (\<lambda>j. cnt (\<lambda>ft. cell_of p0 ft = j) cs) (\<lambda>j. cnt (\<lambda>ft. unat (fst ft) = j) cs) p"
  using assms
proof (induction cs rule: rev_induct)
  case Nil
  have "counted p0 (\<lambda>j. 0) (\<lambda>j. 0) p0"
    unfolding counted_def by (intro exI [of _ "dn_matrix p0"] exI [of _ "dn_totals p0"]) simp
  then show ?case by (simp add: run_bumps_def)
next
  case (snoc ft cs)
  obtain f t where ft: "ft = (f, t)" by fastforce
  have "room p0 (length cs)" using snoc.prems(2) by (auto simp: room_def)
  with snoc obtain p where p: "run_bumps cs p0 = Some p"
    "counted p0 (\<lambda>j. cnt (\<lambda>ft. cell_of p0 ft = j) cs) (\<lambda>j. cnt (\<lambda>ft. unat (fst ft) = j) cs) p" by auto
  have r: "in_range p0 (f, t)" using snoc.prems(1) ft by simp
  have len: "Suc (cnt (\<lambda>ft. unat (fst ft) = unat f) cs) \<le> length (cs @ [ft])" using cnt_le by simp
  let ?i = "cell_of p0 (f, t)"
  let ?p1 = "set_cell ?i (dn_matrix p ! ?i + 1) p"
  have c1: "counted p0 ((\<lambda>j. cnt (\<lambda>ft. cell_of p0 ft = j) cs)(?i := Suc (cnt (\<lambda>ft. cell_of p0 ft = ?i) cs)))
      (\<lambda>j. cnt (\<lambda>ft. unat (fst ft) = j) cs) ?p1"
    by (rule counted_cell [OF p(2)]) (use r in \<open>simp add: in_range_def\<close>)
  have t1: "dn_totals ?p1 = dn_totals p" by (simp add: set_cell_def)
  have c2: "counted p0 ((\<lambda>j. cnt (\<lambda>ft. cell_of p0 ft = j) cs)(?i := Suc (cnt (\<lambda>ft. cell_of p0 ft = ?i) cs)))
      ((\<lambda>j. cnt (\<lambda>ft. unat (fst ft) = j) cs)(unat f := Suc (cnt (\<lambda>ft. unat (fst ft) = unat f) cs)))
      (set_total f (dn_totals p ! unat f + 1) ?p1)"
    using counted_total [OF c1, of f] r t1 by (simp add: in_range_def)
  have "run_bumps (cs @ [ft]) p0 = Some (set_total f (dn_totals p ! unat f + 1) ?p1)"
    using p(1) bump_below [OF p(2) r snoc.prems(2) len] ft by (simp add: run_bumps_def)
  moreover have "counted p0 (\<lambda>j. cnt (\<lambda>ft. cell_of p0 ft = j) (cs @ [ft])) (\<lambda>j. cnt (\<lambda>ft. unat (fst ft) = j) (cs @ [ft]))
      (set_total f (dn_totals p ! unat f + 1) ?p1)"
    by (rule counted_cong [OF _ _ c2]) (auto simp: cnt_def ft)
  ultimately show ?case by blast
qed

lemma ended_not_adding: "is_ended q \<Longrightarrow> \<not> is_adding q"
  by (cases q) simp_all

lemma cnt_ended:
  assumes "list_all is_ended pcs"
  shows "cnt (\<lambda>q. \<not> is_adding q \<and> P (pc_call q)) pcs = cnt P (map pc_call pcs)"
    and "cnt (\<lambda>q. is_ended q \<and> P (pc_call q)) pcs = cnt P (map pc_call pcs)"
  using assms by (induction pcs) (auto dest: ended_not_adding)

lemma dense_in_range:
  assumes "dense_inv p" "unat f < unat (dn_maxRoutes p)" "unat t < unat (dn_maxRoutes p)"
  shows "in_range p (f, t)"
  using cell_idx_unat(2) [OF dense_invD(3) [OF assms(1)] assms(2,3)] cell_bound [OF assms(2,3)] assms
    dense_invD(4,5) [OF assms(1)]
  by (simp add: in_range_def cell_of_def)

section \<open>Properties\<close>

text \<open>
  C19: lock-free recording loses nothing: when any number of calls of \<open>Record\<close> run their atomic additions
  concurrently, under any schedule, and no total comes near saturation, then once all of them have
  ended, the matrix and the totals are exactly those of the same calls made one after the other, in any
  order.
\<close>

theorem concurrent_records_sequential:
  assumes "dense_inv p" "\<forall>(f, t) \<in> set cs. unat f < unat (dn_maxRoutes p) \<and> unat t < unat (dn_maxRoutes p)"
    and "room p (length cs)" "list_all is_ended (dc_pcs (run_schedule sched (new_conc p cs)))"
    and "mset ds = mset cs"
  shows "run_bumps ds p = Some (dc_p (run_schedule sched (new_conc p cs)))"
proof -
  let ?c = "run_schedule sched (new_conc p cs)"
  have range: "list_all (in_range p) cs" using dense_in_range [OF assms(1)] assms(2) by (auto simp: list_all_iff)
  have ds: "list_all (in_range p) ds" "room p (length ds)"
    using range assms(3) mset_eq_setD [OF assms(5)] mset_eq_length [OF assms(5)] by (simp_all add: list_all_iff)
  have perm: "cnt P ds = cnt P cs" for P
    using assms(5) by (metis cnt_def mset_filter size_mset)
  have inv: "conc_inv p cs ?c" by (rule conc_inv_run [OF range assms(3) conc_inv_new])
  then have calls: "map pc_call (dc_pcs ?c) = cs"
    and cnt: "counted p (cells_done p (dc_pcs ?c)) (totals_done (dc_pcs ?c)) (dc_p ?c)"
    by (simp_all add: conc_inv_def)
  note ended = cnt_ended [OF assms(4)]
  have "counted p (\<lambda>j. cnt (\<lambda>ft. cell_of p ft = j) ds) (\<lambda>j. cnt (\<lambda>ft. unat (fst ft) = j) ds) (dc_p ?c)"
    by (rule counted_cong [OF _ _ cnt])
      (simp_all add: cells_done_def totals_done_def perm
        ended(1) [of "\<lambda>ft. cell_of p ft = j" for j] ended(2) [of "\<lambda>ft. unat (fst ft) = j" for j] calls)
  with run_bumps_counted [OF ds] counted_unique show ?thesis by metis
qed

theorem concurrent_records_sequential_witness:
  "let p = new_dense (Some \<lparr>dc_max_routes = 4, dc_max_history = 0, dc_registry = None\<rparr>) in
    run_bumps [(0, 1), (0, 2)] p = Some (dc_p (run_schedule [0, 1, 1, 0] (new_conc p [(0, 2), (0, 1)])))"
proof -
  let ?p = "new_dense (Some \<lparr>dc_max_routes = 4, dc_max_history = 0, dc_registry = None\<rparr>)"
  have inv: "dense_inv ?p" by (rule dense_inv_new) (simp add: routes_ok_def)
  have R: "dn_maxRoutes ?p = 4" and t: "dn_totals ?p = replicate 4 0" by code_simp+
  have room: "room ?p (length [(0 :: 16 word, 2 :: 16 word), (0, 1)])" by (simp add: room_def t row_limit_def)
  have e: "list_all is_ended (dc_pcs (run_schedule [0, 1, 1, 0] (new_conc ?p [(0, 2), (0, 1)])))" by code_simp
  have "mset [(0 :: 16 word, 1 :: 16 word), (0, 2)] = mset [(0, 2), (0, 1)]" by simp
  from concurrent_records_sequential [OF inv _ room e this] show ?thesis by (simp add: R Let_def)
qed

text \<open>
  Near saturation the guarantee fails: two calls that both reach the limit both rescale the row. Starting
  from the consistent row \<open>[0x7FFFFFFE]\<close>, the cell is halved twice while the total that is stored last
  belongs to the first halving, and stays almost twice too high: from then on the prediction, whose
  probability is 1, is reported with about one half.
\<close>

theorem rescale_race:
  "let p = (new_dense (Some \<lparr>dc_max_routes = 1, dc_max_history = 0, dc_registry = None\<rparr>))
             \<lparr>dn_matrix := [0x7FFFFFFE], dn_totals := [0x7FFFFFFE]\<rparr>;
       c = run_schedule [0, 0, 0, 0, 1, 1, 1, 1, 1, 0] (new_conc p [(0, 0), (0, 0)])
   in list_all is_ended (dc_pcs c) \<and> dn_matrix (dc_p c) = [0x20000000] \<and> dn_totals (dc_p c) = [0x3FFFFFFF]"
  by code_simp

end
