(* ===== verification/Tiered_Race.thy ===== *)
theory Tiered_Race
  imports Tiered_Store
begin

text \<open>
  \<open>TieredStore.Get\<close> (\<open>store_tier.go\<close>) is not atomic: it reads the second tier and promotes what it found
  in a later step. Here it is split at that point, and other operations run in between.
\<close>

text \<open>The first phase: \<open>Inl\<close> the result, or \<open>Inr\<close> the entry to be promoted, with its deadline.\<close>

definition get_read ::
  "(string \<Rightarrow> 64 word) \<Rightarrow> 's store_ops \<Rightarrow> int \<Rightarrow> string \<Rightarrow> 's tiered_store \<Rightarrow>
     (entry option + entry \<times> int) \<times> 's tiered_store" where
  "get_read xx ops now key t = (case l1_probe now (xx key) t of
     Some e \<Rightarrow> (Inl (Some e), t)
   | None \<Rightarrow>
      (let (r, l2) = st_get ops now key (t_l2 t); t1 = t\<lparr>t_l2 := l2\<rparr> in
       case r of
         None \<Rightarrow> (Inl None, t1)
       | Some e \<Rightarrow>
          (case e_expires e of
             None \<Rightarrow> (Inr (e, 0), t1)
           | Some x \<Rightarrow> if now > x then (Inl None, t1) else (Inr (e, x), t1))))"

definition get_promote :: "(string \<Rightarrow> 64 word) \<Rightarrow> string \<Rightarrow> entry option + entry \<times> int \<Rightarrow> 's tiered_store \<Rightarrow>
    entry option \<times> 's tiered_store" where
  "get_promote xx key r t = (case r of Inl res \<Rightarrow> (res, t) | Inr (e, x) \<Rightarrow> (Some e, promote_l1 (xx key) e x t))"

text \<open>Without interference the two phases are \<open>Get\<close>.\<close>

lemma tiered_get_phases:
  "tiered_get xx ops now key t = (case get_read xx ops now key t of (r, t1) \<Rightarrow> get_promote xx key r t1)"
  by (simp add: tiered_get_def get_read_def get_promote_def Let_def split: option.splits prod.splits)

lemma promoted_served:
  assumes "length (t_l1 t) = L1Slots" "x = 0 \<or> now \<le> x"
  shows "fst (tiered_get xx ops now key (promote_l1 (xx key) e x t)) = Some e"
proof -
  have "slot_idx (xx key) < length (t_l1 t)" using slot_idx_less assms(1) by simp
  with assms(2) show ?thesis by (simp add: tiered_get_def l1_probe_def promote_l1_def Let_def)
qed

lemma l1_length:
  assumes "length (t_l1 t) = L1Slots"
  shows "length (t_l1 (snd (get_read xx ops now key t))) = L1Slots"
    "length (t_l1 (tiered_del xx ops key t)) = L1Slots"
    "length (t_l1 (snd (snd (tiered_set xx ops now key e ttl t)))) = L1Slots"
  using assms
  by (simp_all add: get_read_def tiered_del_def tiered_set_def promote_l1_def Let_def split: option.splits prod.splits)

text \<open>
  C35: \<open>Del\<close> and \<open>Set\<close> can be undone by a \<open>Get\<close> that overlaps them: a \<open>Get\<close> that read the second tier before
  \<open>Del\<close>, or before a \<open>Set\<close> of the same key, promotes the old entry afterwards, and from then on every
  \<open>Get\<close> returns the deleted or replaced response until its deadline, although \<open>Del\<close> promises to
  invalidate both tiers.
\<close>

theorem stale_promotion:
  assumes "length (t_l1 t) = L1Slots" "get_read xx ops now key t = (Inr (old, x), t1)"
    and "t2 \<in> {tiered_del xx ops key t1, snd (snd (tiered_set xx ops now' key new ttl t1))}"
    and "get_promote xx key (Inr (old, x)) t2 = (res, t3)" "x = 0 \<or> now'' \<le> x"
  shows "fst (tiered_get xx ops now'' key t3) = Some old"
proof -
  have "length (t_l1 t1) = L1Slots" using l1_length(1) [OF assms(1), of xx ops now key] assms(2) by simp
  then have "length (t_l1 t2) = L1Slots" using l1_length(2,3) assms(3) by auto
  moreover have "t3 = promote_l1 (xx key) old x t2" using assms(4) by (simp add: get_promote_def)
  ultimately show ?thesis using promoted_served assms(5) by metis
qed

text \<open>A second tier that holds the sample entry, and an empty first tier.\<close>

theorem stale_promotion_witness:
  "\<exists>t1 old. get_read (\<lambda>_. 7) memory_ops 5 ''k'' \<lparr>t_l1 = replicate L1Slots None,
      t_l2 = [(''k'', \<lparr>mi_entry = sample_entry, mi_expires = None\<rparr>)]\<rparr> = (Inr (old, 0), t1) \<and>
    fst (tiered_get (\<lambda>_. 7) memory_ops 6 ''k'' (snd (get_promote (\<lambda>_. 7) ''k'' (Inr (old, 0))
      (tiered_del (\<lambda>_. 7) memory_ops ''k'' t1)))) = Some old"
proof -
  let ?t = "\<lparr>t_l1 = replicate L1Slots None, t_l2 = [(''k'', \<lparr>mi_entry = sample_entry, mi_expires = None\<rparr>)]\<rparr>"
  have i: "slot_idx 7 < L1Slots" by (rule slot_idx_less)
  have read: "get_read (\<lambda>_. 7) memory_ops 5 ''k'' ?t = (Inr (sample_entry, 0), ?t)"
    using i by (simp add: get_read_def l1_probe_def memory_ops_def mem_get_def sample_entry_def)
  obtain res t3 where p: "get_promote (\<lambda>_. 7) ''k'' (Inr (sample_entry, 0)) (tiered_del (\<lambda>_. 7) memory_ops ''k'' ?t) = (res, t3)"
    by fastforce
  from stale_promotion [OF _ read _ p, of 6] read p show ?thesis by simp
qed

end
