(* ===== verification/Spec2Isabelle.thy ===== *)
theory Spec2Isabelle
  imports System Wasm Dense_Concurrent Tiered_Race
begin

text \<open>
  Precog: a \<open>net/http\<close> middleware in Go that caches responses, learns each session's navigation,
  prefetches the likely next calls and coalesces identical requests. This library models its Go code
  and proves what keeps it correct.

  A request enters \<open>Middleware\<close>. Assets, skipped routes, unsafe methods, upgrades, event streams and range
  requests are passed on. Others are looked up in the store under a key made of method, host, path and
  query, and then under a variant key when the entry varies. On a miss the request becomes the leader or
  a follower of an in-flight call, or runs alone; the handler runs on a capturing writer, which buffers
  the response until it is complete or must be streamed. A complete response that a shared cache may keep
  is stored. Then the predictor records the call and predicts the next ones, which become a \<open>Link\<close> header
  and jobs of the prefetcher, whose workers run the handler and fill the same store.

  \<^bold>\<open>Theories, in the order of their imports\<close>

  \<^item> \<open>Prelude\<close>, \<open>Go_Strings\<close>, \<open>Go_Http\<close>: Go maps as association lists (with \<open>mwf\<close>, no key twice),
    little-endian byte codecs, slices; the functions of \<open>strings\<close> and \<open>net/http\<close> the source calls (header
    keys, cookies, the server's writer as the record \<open>client\<close>). They model the standard library and map to
    no line of the program.
  \<^item> \<open>Normalizer\<close> (\<open>normalizer.go\<close>): route patterns, with the equivalence of the three regular-expression
    passes to a reference over path segments, and cache keys. \<open>xxhash.Sum64\<close> is an argument \<open>xx\<close> everywhere,
    without a hypothesis.
  \<^item> \<open>Endpoint_Index\<close> (\<open>endpoint_index.go\<close>): the registry of route patterns with 16-bit ids.
  \<^item> \<open>Store\<close> (\<open>store.go\<close>), \<open>Sharded_Store\<close> (\<open>sharded_store.go\<close>), \<open>Tiered_Store\<close> (\<open>store_tier.go\<close>): cached
    responses and three stores. The interface \<open>Store\<close> is the record \<open>store_ops\<close>; its contract is the
    locale \<open>cache_store\<close>, and \<open>hashed_store\<close> for stores that identify keys with their hash. \<open>memory\<close> and
    \<open>sharded\<close> interpret them on the two base stores; \<open>tiered\<close> is a sublocale, so that the two-tier store
    over any hashed store meets the contract. The sharded store is modelled byte by byte: ring, offsets,
    28-byte entry header, header codec. The abstract store they refine is a log of accepted calls.
    \<open>Tiered_Race\<close> splits \<open>TieredStore.Get\<close> at its promotion and shows what an overlapping \<open>Del\<close> loses.
  \<^item> \<open>Response_Writer\<close> (\<open>response_writer.go\<close>): the capturing writer, run over the calls of a handler (\<open>wop\<close>),
    and its equivalence with the bare writer for handlers that set headers, write the status and then
    write and flush.
  \<^item> \<open>Telemetry\<close> (\<open>telemetry.go\<close>): counters, with the atomic additions as steps.
  \<^item> \<open>Coalesce\<close> (\<open>coalesce.go\<close>): \<open>DoContext\<close> as the step relation \<open>co_step\<close> of any number of goroutines, with
    panics, \<open>Goexit\<close> and cancellation; invariant, single flight, equal results, and a rank that bounds the
    number of steps.
  \<^item> \<open>Predictor\<close>, \<open>Markov\<close> (\<open>predictor.go\<close>), \<open>Dense\<close> (\<open>predictor_dense.go\<close>): the predictor interface as the
    locale \<open>predictor_contract\<close>, met by both predictors for every way \<open>sort.Slice\<close> may order equal elements
    (locales \<open>markov_sort\<close>, \<open>dense_sort\<close>, interpreted with a stable sort). \<open>Markov\<close> is proved to predict the
    observed frequencies; \<open>Dense\<close> works on 32-bit words with saturation and rescaling.
    \<open>Dense_Concurrent\<close> runs the atomic steps of concurrent calls of \<open>Record\<close> under any schedule and compares
    them with sequential calls.
  \<^item> \<open>Vary\<close>, \<open>Cache_Policy\<close> (\<open>middleware.go\<close>): variant keys; what a shared cache may keep, and the lemmas of
    the store contract's clients.
  \<^item> \<open>Client_Assets\<close> (\<open>client.go\<close>), \<open>Prefetcher\<close> (\<open>prefetcher.go\<close>), \<open>Engine\<close> (\<open>precog.go\<close>).
  \<^item> \<open>Middleware\<close> (\<open>middleware.go\<close>): the handler, stage by stage; \<open>Serving\<close>: what it promises its clients.
  \<^item> \<open>System\<close>: the engine with its workers as the transition system \<open>engine_step\<close>; the locale \<open>engine_parts\<close>
    puts a store and a predictor together and is interpreted on the default ones.
  \<^item> \<open>Wasm\<close> (\<open>cmd/wasm/main.go\<close>): the predictor in the browser.

  \<^bold>\<open>Conventions\<close>

  Integers of the code that can wrap (counters, ring offsets, lengths, route ids) are words of their width;
  probabilities are rationals, so floating-point rounding is not modelled; times are nanoseconds as \<open>int\<close>
  and the hypothesis \<open>clock_ok\<close> says that clock and deadline fit in 63 bits. A panic is \<open>None\<close>. Loops are
  structural recursion, or \<open>function\<close> with a measure; there is no fuel. A handler is a function from
  requests to the calls it makes on its writer; a theorem about a response says what it needs of them
  (\<open>proper\<close>), and \<open>storable\<close> says that a response fits the 16- and 32-bit length fields of the sharded store.

  \<^bold>\<open>Not modelled\<close>

  \<open>store_ristretto.go\<close> (every operation is one call of a third-party cache), the demo server
  (\<open>cmd/testserver\<close>), JavaScript (\<open>precog.js\<close>, \<open>wasm_exec.js\<close>), \<open>main\<close> of \<open>cmd/wasm\<close>; the deadline of synthetic
  requests; accessors that return a field. Interleavings inside one operation are modelled in \<open>Coalesce\<close>,
  \<open>Telemetry\<close>, \<open>Dense_Concurrent\<close> and \<open>Tiered_Race\<close> only; in \<open>System\<close> a request is one step, and what a follower gets is arbitrary.
\<close>

end
